(* ===== verification/Prelude.thy ===== *)
theory Prelude
  imports Main "HOL-Library.Word"
begin

text \<open>
  Shared vocabulary of the development: Rust's checked, saturating and wrapping
  arithmetic on unsigned integers, \<open>Iterator::position\<close>, counting of list elements under a
  point update, bit maps, little-endian integers, and the generic contracts the components are proved against:
  \<open>transition_system\<close> (an invariant kept by every operation), its variants for operations
  that may panic, \<open>bitmap\<close> (single-bit updates of packed words) and \<open>bounded_queue\<close>
  (a fixed-capacity FIFO, with the circular buffers that implement it).

  Unsigned Rust integers are \<^typ>\<open>nat\<close> where only order, equality and checked arithmetic
  matter, with the width written out in the checked operations, and \<open>'a word\<close> where the
  code works on bits.
\<close>

unbundle bit_operations_syntax

section \<open>Types and arithmetic\<close>

type_synonym u8 = "8 word"
type_synonym u16w = "16 word"
type_synonym u32w = "32 word"
type_synonym u64w = "64 word"
type_synonym ('e, 'a) result = "'e + 'a"

named_theorems checked_simps \<open>unfolding of the checked arithmetic\<close>

definition u64_max :: nat where
  "u64_max = 2 ^ 64 - 1"

definition u32_max :: nat where
  "u32_max = 2 ^ 32 - 1"

text \<open>\<open>checked_add\<close>, \<open>checked_mul\<close> and \<open>checked_sub\<close> of \<open>u64\<close>/\<open>usize\<close>: \<^const>\<open>None\<close> on overflow.\<close>

definition checked_add :: "nat \<Rightarrow> nat \<Rightarrow> nat option" where
  "checked_add a b = (if a + b < 2 ^ 64 then Some (a + b) else None)"

definition checked_mul :: "nat \<Rightarrow> nat \<Rightarrow> nat option" where
  "checked_mul a b = (if a * b < 2 ^ 64 then Some (a * b) else None)"

definition checked_sub :: "nat \<Rightarrow> nat \<Rightarrow> nat option" where
  "checked_sub a b = (if b \<le> a then Some (a - b) else None)"

definition saturating_add :: "nat \<Rightarrow> nat \<Rightarrow> nat" where
  "saturating_add a b = min (a + b) u64_max"

definition wrapping_add :: "nat \<Rightarrow> nat \<Rightarrow> nat" where
  "wrapping_add a b = (a + b) mod 2 ^ 64"

definition wrapping_mul :: "nat \<Rightarrow> nat \<Rightarrow> nat" where
  "wrapping_mul a b = (a * b) mod 2 ^ 64"

lemma checked_add_Some [simp]: "checked_add a b = Some c \<longleftrightarrow> c = a + b \<and> a + b < 2 ^ 64"
  by (auto simp: checked_add_def)

lemma checked_add_None [simp]: "checked_add a b = None \<longleftrightarrow> 2 ^ 64 \<le> a + b"
  by (auto simp: checked_add_def)

lemma checked_mul_Some [simp]: "checked_mul a b = Some c \<longleftrightarrow> c = a * b \<and> a * b < 2 ^ 64"
  by (auto simp: checked_mul_def)

lemma checked_mul_None [simp]: "checked_mul a b = None \<longleftrightarrow> 2 ^ 64 \<le> a * b"
  by (auto simp: checked_mul_def)

lemma checked_sub_Some [simp]: "checked_sub a b = Some c \<longleftrightarrow> b \<le> a \<and> c = a - b"
  by (auto simp: checked_sub_def)

lemmas [checked_simps] = checked_add_def checked_mul_def checked_sub_def saturating_add_def

text \<open>\<open>Result::and_then\<close> (the \<open>?\<close> operator) and \<open>Option::ok_or\<close>.\<close>

definition and_then :: "('e, 'a) result \<Rightarrow> ('a \<Rightarrow> ('e, 'b) result) \<Rightarrow> ('e, 'b) result" where
  "and_then r f = (case r of Inl e \<Rightarrow> Inl e | Inr x \<Rightarrow> f x)"

definition ok_or :: "'e \<Rightarrow> 'a option \<Rightarrow> ('e, 'a) result" where
  "ok_or e x = (case x of None \<Rightarrow> Inl e | Some y \<Rightarrow> Inr y)"

lemma and_then_simps [simp]: "and_then (Inl e) f = Inl e" "and_then (Inr x) f = f x"
  by (simp_all add: and_then_def)

lemma and_then_Inr: "and_then r f = Inr y \<longleftrightarrow> (\<exists>x. r = Inr x \<and> f x = Inr y)"
  by (cases r) simp_all

lemma ok_or_Inr: "ok_or e x = Inr y \<longleftrightarrow> x = Some y"
  by (cases x) (simp_all add: ok_or_def)

lemma ok_or_simps [simp]: "ok_or e None = Inl e" "ok_or e (Some y) = Inr y"
  by (simp_all add: ok_or_def)

section \<open>Searching and counting\<close>

text \<open>\<open>Iterator::position\<close>: the index of the first element that satisfies the predicate.\<close>

fun position :: "('a \<Rightarrow> bool) \<Rightarrow> 'a list \<Rightarrow> nat option" where
  "position P [] = None"
| "position P (x # xs) = (if P x then Some 0 else map_option Suc (position P xs))"

lemma position_None_iff: "position P xs = None \<longleftrightarrow> (\<forall>x \<in> set xs. \<not> P x)"
  by (induction xs) auto

lemma position_SomeD:
  "position P xs = Some i \<Longrightarrow> i < length xs \<and> P (xs ! i) \<and> (\<forall>j < i. \<not> P (xs ! j))"
proof (induction xs arbitrary: i)
  case Nil
  then show ?case by simp
next
  case (Cons x xs)
  show ?case
  proof (cases "P x")
    case True
    with Cons.prems show ?thesis by simp
  next
    case False
    with Cons.prems obtain j where "i = Suc j" "position P xs = Some j" by auto
    with Cons.IH[of j] False show ?thesis by (auto simp: less_Suc_eq_0_disj)
  qed
qed

lemma position_SomeI:
  "i < length xs \<Longrightarrow> P (xs ! i) \<Longrightarrow> (\<And>j. j < i \<Longrightarrow> \<not> P (xs ! j)) \<Longrightarrow> position P xs = Some i"
proof (induction xs arbitrary: i)
  case Nil
  then show ?case by simp
next
  case (Cons x xs)
  show ?case
  proof (cases i)
    case 0
    with Cons.prems show ?thesis by simp
  next
    case (Suc k)
    with Cons.prems(3)[of 0] have "\<not> P x" by simp
    moreover have "position P xs = Some k"
    proof (rule Cons.IH)
      show "k < length xs" "P (xs ! k)" using Cons.prems(1,2) Suc by auto
      show "\<not> P (xs ! j)" if "j < k" for j
        using Cons.prems(3)[of "Suc j"] that Suc by simp
    qed
    ultimately show ?thesis using Suc by simp
  qed
qed

lemma position_less [dest]: "position P xs = Some i \<Longrightarrow> i < length xs"
  by (simp add: position_SomeD)

lemma position_nth: "position P xs = Some i \<Longrightarrow> P (xs ! i)"
  by (simp add: position_SomeD)

lemma position_exists: "i < length xs \<Longrightarrow> P (xs ! i) \<Longrightarrow> \<exists>j. position P xs = Some j"
  by (cases "position P xs") (auto simp: position_None_iff)

text \<open>\<open>iter().filter(p).count()\<close> and how a point update moves it.\<close>

definition count_if :: "('a \<Rightarrow> bool) \<Rightarrow> 'a list \<Rightarrow> nat" where
  "count_if P xs = length (filter P xs)"

lemma count_if_simps [simp]:
  "count_if P [] = 0"
  "count_if P (x # xs) = (if P x then Suc (count_if P xs) else count_if P xs)"
  by (auto simp: count_if_def)

lemma count_if_replicate: "count_if P (replicate n x) = (if P x then n else 0)"
  by (induction n) auto

lemma count_if_le_length: "count_if P xs \<le> length xs"
  by (simp add: count_if_def)

lemma count_if_update:
  "i < length xs \<Longrightarrow>
   count_if P (xs[i := y]) + (if P (xs ! i) then 1 else 0) =
   count_if P xs + (if P y then 1 else 0)"
proof (induction xs arbitrary: i)
  case Nil
  then show ?case by simp
next
  case (Cons x xs)
  then show ?case by (cases i) auto
qed

lemma count_if_pos: "i < length xs \<Longrightarrow> P (xs ! i) \<Longrightarrow> 0 < count_if P xs"
proof -
  assume "i < length xs" "P (xs ! i)"
  then have "xs ! i \<in> set (filter P xs)" by simp
  then show ?thesis unfolding count_if_def by (cases "filter P xs") auto
qed

lemma count_if_0_iff: "count_if P xs = 0 \<longleftrightarrow> (\<forall>x \<in> set xs. \<not> P x)"
  by (induction xs) auto

lemma count_if_position: "0 < count_if P xs \<Longrightarrow> \<exists>i. position P xs = Some i"
  by (cases "position P xs") (auto simp: position_None_iff count_if_0_iff [symmetric])

text \<open>A sum over a list under a point update.\<close>

lemma sum_list_map_update:
  fixes f :: "'a \<Rightarrow> 'b::comm_monoid_add"
  shows "i < length xs \<Longrightarrow> sum_list (map f (xs[i := y])) + f (xs ! i) = sum_list (map f xs) + f y"
proof (induction xs arbitrary: i)
  case (Cons x xs)
  then show ?case by (cases i) (auto simp: ac_simps)
qed simp

text \<open>\<^const>\<open>list_all\<close> under a point update, the shape every table invariant takes.\<close>

lemma list_all_update: "list_all P xs \<Longrightarrow> P y \<Longrightarrow> list_all P (xs[i := y])"
  by (auto simp: list_all_iff dest: set_update_subset_insert [THEN subsetD])

lemma list_all_nthD: "list_all P xs \<Longrightarrow> i < length xs \<Longrightarrow> P (xs ! i)"
  by (simp add: list_all_length)

lemma nth_upd: "xs[i := x] ! j = (if i = j \<and> j < length xs then x else xs ! j)"
  by (cases "i < length xs") (auto simp: nth_list_update list_update_beyond)

lemma map_eq_nth: "map f xs = map g ys \<Longrightarrow> i < length ys \<Longrightarrow> f (xs ! i) = g (ys ! i)"
  by (metis length_map nth_map)

lemma map_nth_upt: "map (\<lambda>k. f (xs ! k)) [0..<length xs] = map f xs"
  by (rule nth_equalityI) simp_all

lemma bex_set_nth: "(\<exists>x \<in> set xs. P x) \<longleftrightarrow> (\<exists>i < length xs. P (xs ! i))"
  by (metis in_set_conv_nth)

lemma option_ext: "(\<And>x. a = Some x \<longleftrightarrow> b = Some x) \<Longrightarrow> a = b"
  by (cases a; cases b) auto

lemma upt_split_at:
  assumes "[0..<n] = pre @ x # post"
  shows "x < n" "pre = [0..<x]"
proof -
  have len: "length pre < n" using arg_cong[OF assms, of length] by simp
  have "x = [0..<n] ! length pre" using assms by simp
  then have x: "x = length pre" using len by simp
  then show "x < n" using len by simp
  have "pre = take (length pre) [0..<n]" using assms by simp
  then show "pre = [0..<x]" using len x by simp
qed

section \<open>Bit maps\<close>

text \<open>
  The contract of a bit map packed into machine words, as the frame allocator and the block
  bitmap of the file system use it: single-bit updates change that bit only.
\<close>

locale bitmap =
  fixes get :: "'m \<Rightarrow> nat \<Rightarrow> bool"
    and set_bit_to :: "'m \<Rightarrow> nat \<Rightarrow> bool \<Rightarrow> 'm"
    and bits :: "'m \<Rightarrow> nat"
  assumes get_set: "i < bits m \<Longrightarrow> j < bits m \<Longrightarrow> get (set_bit_to m i v) j = (if j = i then v else get m j)"
    and bits_set: "bits (set_bit_to m i v) = bits m"
begin

lemma bits_fill: "bits (fold (\<lambda>i m. set_bit_to m i v) is m) = bits m"
  by (induction "is" arbitrary: m) (simp_all add: bits_set)

lemma get_fill:
  "\<forall>i \<in> set is. i < bits m \<Longrightarrow> j < bits m \<Longrightarrow>
   get (fold (\<lambda>i m. set_bit_to m i v) is m) j = (if j \<in> set is then v else get m j)"
  by (induction "is" arbitrary: m) (auto simp: get_set bits_set)

text \<open>The frames or blocks with a clear bit.\<close>

lemma clear_set_fill:
  assumes "\<forall>i \<in> set is. i < bits m"
  shows "{j. j < bits m \<and> \<not> get (fold (\<lambda>i m. set_bit_to m i True) is m) j} =
      {j. j < bits m \<and> \<not> get m j} - set is"
    and "{j. j < bits m \<and> \<not> get (fold (\<lambda>i m. set_bit_to m i False) is m) j} =
      {j. j < bits m \<and> \<not> get m j} \<union> set is"
  using assms by (auto simp: get_fill split: if_splits)

end

text \<open>Testing, setting and clearing one bit of a word with a mask.\<close>

lemma mask_test: "w AND push_bit k 1 \<noteq> 0 \<longleftrightarrow> bit w k" for w :: "'a::len word"
  by (simp add: and_exp_eq_0_iff_not_bit)

lemma mask_set:
  "k < LENGTH('a) \<Longrightarrow> bit (w OR push_bit k 1) j \<longleftrightarrow> bit w j \<or> j = k" for w :: "'a::len word"
  by (auto simp: bit_or_iff bit_push_bit_iff bit_1_iff bit_exp_iff)

lemma mask_clear:
  "k < LENGTH('a) \<Longrightarrow> bit (w AND NOT (push_bit k 1)) j \<longleftrightarrow> bit w j \<and> j \<noteq> k" for w :: "'a::len word"
  by (auto simp: bit_and_iff bit_not_iff bit_push_bit_iff bit_1_iff bit_exp_iff dest: bit_imp_le_length)

text \<open>\<open>trailing_zeros\<close>: the index of the lowest set bit, or the width.\<close>

definition trailing_zeros :: "'a::len word \<Rightarrow> nat" where
  "trailing_zeros w =
     (case position (bit w) [0..<LENGTH('a)] of Some i \<Rightarrow> i | None \<Rightarrow> LENGTH('a))"

lemma trailing_zeros_bit:
  fixes w :: "'a::len word"
  assumes "w \<noteq> 0"
  shows "trailing_zeros w < LENGTH('a)" "bit w (trailing_zeros w)"
    "\<And>j. j < trailing_zeros w \<Longrightarrow> \<not> bit w j"
proof -
  obtain n where n: "bit w n" "n < LENGTH('a)"
    using assms by (metis bit_eqI bit_imp_le_length bit_0_eq bot_apply bot_bool_def)
  have "position (bit w) [0..<LENGTH('a)] \<noteq> None"
    unfolding position_None_iff using n by auto
  then obtain i where i: "position (bit w) [0..<LENGTH('a)] = Some i" by blast
  note d = position_SomeD[OF i]
  have i': "i < LENGTH('a)" using d by simp
  show "trailing_zeros w < LENGTH('a)" "bit w (trailing_zeros w)"
    using d i i' by (simp_all add: trailing_zeros_def)
  show "\<not> bit w j" if "j < trailing_zeros w" for j
    using d i i' that by (simp add: trailing_zeros_def)
qed

section \<open>Little-endian integers\<close>

text \<open>\<open>to_le_bytes\<close> and \<open>from_le_bytes\<close> of an integer of \<open>n\<close> bytes.\<close>

definition to_le_bytes :: "nat \<Rightarrow> 'a::len word \<Rightarrow> u8 list" where
  "to_le_bytes n w = map (\<lambda>i. ucast (drop_bit (8 * i) w)) [0..<n]"

fun from_le_bytes :: "u8 list \<Rightarrow> 'a::len word" where
  "from_le_bytes [] = 0"
| "from_le_bytes (b # bs) = ucast b OR push_bit 8 (from_le_bytes bs)"

lemma to_le_bytes_length [simp]: "length (to_le_bytes n w) = n"
  by (simp add: to_le_bytes_def)

lemma bit_from_le_bytes:
  "bit (from_le_bytes bs :: 'a::len word) k \<longleftrightarrow>
     k < LENGTH('a) \<and> k < 8 * length bs \<and> bit (bs ! (k div 8)) (k mod 8)"
proof (induction bs arbitrary: k)
  case Nil
  then show ?case by simp
next
  case (Cons b bs)
  show ?case
  proof (cases "k < 8")
    case True
    then show ?thesis by (auto simp: bit_or_iff bit_push_bit_iff bit_ucast_iff dest: bit_imp_le_length)
  next
    case False
    then obtain j where "k = j + 8" by (metis le_add_diff_inverse2 not_less)
    moreover have "(j + 8) div 8 - Suc 0 = j div 8" by simp
    ultimately show ?thesis using Cons.IH[of j]
      by (auto simp: bit_or_iff bit_push_bit_iff bit_ucast_iff dest: bit_imp_le_length)
  qed
qed

lemma bit_to_le_bytes: "i < n \<Longrightarrow> bit (to_le_bytes n w ! i) j \<longleftrightarrow> j < 8 \<and> bit w (8 * i + j)"
  by (auto simp: to_le_bytes_def bit_ucast_iff bit_drop_bit_eq)

lemma from_to_le_bytes:
  assumes "LENGTH('a) = 8 * n"
  shows "from_le_bytes (to_le_bytes n w) = (w :: 'a::len word)"
proof (rule bit_word_eqI)
  fix k assume "k < LENGTH('a)"
  then have "k div 8 < n" "k < 8 * n" using assms by (simp_all add: less_mult_imp_div_less mult.commute)
  then show "bit (from_le_bytes (to_le_bytes n w) :: 'a word) k = bit w k"
    using assms by (simp add: bit_from_le_bytes bit_to_le_bytes)
qed

lemma to_from_le_bytes:
  assumes "LENGTH('a) = 8 * length bs"
  shows "to_le_bytes (length bs) (from_le_bytes bs :: 'a::len word) = bs"
proof (rule nth_equalityI)
  fix i assume "i < length (to_le_bytes (length bs) (from_le_bytes bs :: 'a word))"
  then have i: "i < length bs" by simp
  show "to_le_bytes (length bs) (from_le_bytes bs :: 'a word) ! i = bs ! i"
  proof (rule bit_word_eqI)
    fix j :: nat assume j: "j < LENGTH(8)"
    then have "8 * i + j < 8 * length bs" using i by simp
    then show "bit (to_le_bytes (length bs) (from_le_bytes bs :: 'a word) ! i) j = bit (bs ! i) j"
      using i j assms by (simp add: bit_to_le_bytes bit_from_le_bytes)
  qed
qed simp

section \<open>Bounded queues\<close>

text \<open>The contents of a circular buffer with \<open>len\<close> elements from index \<open>head\<close>.\<close>

definition ring_list :: "'a list \<Rightarrow> nat \<Rightarrow> nat \<Rightarrow> 'a list" where
  "ring_list arr head len = map (\<lambda>i. arr ! ((head + i) mod length arr)) [0..<len]"

lemma ring_list_length [simp]: "length (ring_list arr head len) = len"
  by (simp add: ring_list_def)

lemma ring_list_0 [simp]: "ring_list arr head 0 = []"
  by (simp add: ring_list_def)

lemma ring_list_nth: "i < len \<Longrightarrow> ring_list arr head len ! i = arr ! ((head + i) mod length arr)"
  by (simp add: ring_list_def)

lemma ring_list_push:
  assumes "len < length arr"
  shows "ring_list (arr[(head + len) mod length arr := x]) head (Suc len) = ring_list arr head len @ [x]"
proof -
  have ne: "(head + i) mod length arr \<noteq> (head + len) mod length arr" if "i < len" for i
  proof
    assume "(head + i) mod length arr = (head + len) mod length arr"
    then have "length arr dvd (head + len) - (head + i)"
      by (intro mod_eq_dvd_iff_nat[THEN iffD1]) (use that in auto)
    then show False using that assms by (auto dest: dvd_imp_le)
  qed
  have "(head + len) mod length arr < length arr" using assms by (intro mod_less_divisor) auto
  moreover have "map (\<lambda>i. arr[(head + len) mod length arr := x] ! ((head + i) mod length arr)) [0..<len]
      = map (\<lambda>i. arr ! ((head + i) mod length arr)) [0..<len]"
    using ne by (intro map_cong) (auto simp: nth_upd dest: ne [symmetric])
  ultimately show ?thesis by (simp add: ring_list_def)
qed

lemma to_from_le: "LENGTH('a) = 8 * n \<Longrightarrow> length bs = n \<Longrightarrow> to_le_bytes n (from_le_bytes bs :: 'a::len word) = bs"
  using to_from_le_bytes by metis

lemma ring_list_pop:
  assumes "0 < len" "head < length arr"
  shows "ring_list arr head len = arr ! head # ring_list arr ((head + 1) mod length arr) (len - 1)"
proof (rule nth_equalityI)
  show "length (ring_list arr head len) =
      length (arr ! head # ring_list arr ((head + 1) mod length arr) (len - 1))" using assms by simp
next
  fix i assume "i < length (ring_list arr head len)"
  then have i: "i < len" by simp
  show "ring_list arr head len ! i = (arr ! head # ring_list arr ((head + 1) mod length arr) (len - 1)) ! i"
  proof (cases i)
    case 0
    then show ?thesis using assms by (simp add: ring_list_def)
  next
    case (Suc j)
    then have "j < len - 1" using i by simp
    then show ?thesis using i Suc by (simp add: ring_list_nth mod_simps)
  qed
qed

text \<open>Overwriting the head slot does not touch the elements behind it.\<close>

lemma ring_list_tail_update:
  assumes "len \<le> length arr" "head < length arr"
  shows "ring_list (arr[head := x]) ((head + 1) mod length arr) (len - 1)
      = ring_list arr ((head + 1) mod length arr) (len - 1)"
proof (rule nth_equalityI)
  fix i assume "i < length (ring_list (arr[head := x]) ((head + 1) mod length arr) (len - 1))"
  then have i: "i + 1 < length arr" "i < len - 1" using assms by simp_all
  have "(head + (i + 1)) mod length arr \<noteq> head"
  proof
    assume e: "(head + (i + 1)) mod length arr = head"
    show False
    proof (cases "head + (i + 1) < length arr")
      case True
      then show False using e by simp
    next
      case False
      then have "(head + (i + 1)) mod length arr = head + (i + 1) - length arr"
        using assms(2) i(1) by (simp add: le_mod_geq)
      then show False using e i(1) False by linarith
    qed
  qed
  then show "ring_list (arr[head := x]) ((head + 1) mod length arr) (len - 1) ! i
      = ring_list arr ((head + 1) mod length arr) (len - 1) ! i"
    using i by (simp add: ring_list_nth mod_simps)
qed simp

lemma ring_list_head_update:
  assumes "0 < len" "len \<le> length arr" "head < length arr"
  shows "ring_list (arr[head := x]) head len = (ring_list arr head len)[0 := x]"
  using assms ring_list_pop[of len head arr] ring_list_pop[of len head "arr[head := x]"]
    ring_list_tail_update[OF assms(2,3), of x] by simp

text \<open>
  The contract of a fixed-capacity FIFO: \<open>push\<close> fails exactly when full, \<open>pop\<close> takes the
  oldest element. Clients push a block or pop a block in a loop; a failing \<open>pop\<close> in such
  a loop is a panic (\<^const>\<open>None\<close>).
\<close>

fun pop_times :: "('q \<Rightarrow> 'a option \<times> 'q) \<Rightarrow> nat \<Rightarrow> 'q \<Rightarrow> ('a list \<times> 'q) option" where
  "pop_times pop 0 q = Some ([], q)"
| "pop_times pop (Suc n) q =
     (case pop q of
        (None, _) \<Rightarrow> None
      | (Some x, q1) \<Rightarrow> (case pop_times pop n q1 of None \<Rightarrow> None | Some (xs, q2) \<Rightarrow> Some (x # xs, q2)))"

locale bounded_queue =
  fixes push :: "'q \<Rightarrow> 'a \<Rightarrow> bool \<times> 'q"
    and pop :: "'q \<Rightarrow> 'a option \<times> 'q"
    and contents :: "'q \<Rightarrow> 'a list"
    and capacity :: "'q \<Rightarrow> nat"
    and wf :: "'q \<Rightarrow> bool"
  assumes bound: "wf q \<Longrightarrow> length (contents q) \<le> capacity q"
    and push_full: "wf q \<Longrightarrow> length (contents q) = capacity q \<Longrightarrow> push q x = (False, q)"
    and push_room: "wf q \<Longrightarrow> length (contents q) < capacity q \<Longrightarrow>
      \<exists>q'. push q x = (True, q') \<and> wf q' \<and> contents q' = contents q @ [x] \<and> capacity q' = capacity q"
    and pop_empty: "wf q \<Longrightarrow> contents q = [] \<Longrightarrow> pop q = (None, q)"
    and pop_cons: "wf q \<Longrightarrow> contents q = x # xs \<Longrightarrow>
      \<exists>q'. pop q = (Some x, q') \<and> wf q' \<and> contents q' = xs \<and> capacity q' = capacity q"
begin

lemma push_block:
  "wf q \<Longrightarrow> length (contents q) + length xs \<le> capacity q \<Longrightarrow>
   wf (fold (\<lambda>x q. snd (push q x)) xs q)
   \<and> contents (fold (\<lambda>x q. snd (push q x)) xs q) = contents q @ xs
   \<and> capacity (fold (\<lambda>x q. snd (push q x)) xs q) = capacity q"
proof (induction xs arbitrary: q)
  case (Cons x xs)
  from push_room[OF Cons.prems(1), of x] Cons.prems(2) obtain q' where
    q': "push q x = (True, q')" "wf q'" "contents q' = contents q @ [x]" "capacity q' = capacity q"
    by auto
  with Cons.IH[of q'] Cons.prems(2) show ?case by simp
qed simp

lemma pop_block:
  "wf q \<Longrightarrow> n \<le> length (contents q) \<Longrightarrow>
   \<exists>q'. pop_times pop n q = Some (take n (contents q), q') \<and> wf q' \<and> contents q' = drop n (contents q)
     \<and> capacity q' = capacity q"
proof (induction n arbitrary: q)
  case (Suc n)
  then obtain x xs where x: "contents q = x # xs" by (cases "contents q") auto
  from pop_cons[OF Suc.prems(1) x] obtain q' where
    q': "pop q = (Some x, q')" "wf q'" "contents q' = xs" "capacity q' = capacity q" by blast
  from Suc.IH[OF q'(2)] Suc.prems(2) x q' show ?case by auto
qed simp

text \<open>What goes in comes out, in order.\<close>

lemma fifo:
  assumes "wf q" "contents q = []" "length xs \<le> capacity q"
  shows "\<exists>q'. pop_times pop (length xs) (fold (\<lambda>x q. snd (push q x)) xs q) = Some (xs, q') \<and> contents q' = []"
  using push_block[OF assms(1), of xs] pop_block[of "fold (\<lambda>x q. snd (push q x)) xs q" "length xs"] assms
  by auto

end

section \<open>The invariant contract\<close>

text \<open>
  A component is a start state and a step function over its operations. Whatever every
  operation keeps holds after any sequence of operations.
\<close>

locale transition_system =
  fixes init :: "'s"
    and step :: "'op \<Rightarrow> 's \<Rightarrow> 's"
    and inv :: "'s \<Rightarrow> bool"
  assumes inv_init: "inv init"
    and inv_step: "inv s \<Longrightarrow> inv (step a s)"
begin

lemma inv_run: "inv s \<Longrightarrow> inv (fold step ops s)"
  by (induction ops arbitrary: s) (auto intro: inv_step)

lemma inv_reach: "inv (fold step ops init)"
  by (rule inv_run) (rule inv_init)

text \<open>A relation between consecutive states that is reflexive and transitive holds along runs.\<close>

lemma run_rel:
  assumes "inv s"
    and refl: "\<And>s. R s s"
    and trans: "\<And>s t u. R s t \<Longrightarrow> R t u \<Longrightarrow> R s u"
    and step: "\<And>s a. inv s \<Longrightarrow> R s (step a s)"
  shows "R s (fold step ops s)"
  using assms(1)
proof (induction ops arbitrary: s)
  case Nil
  show ?case by (simp add: refl)
next
  case (Cons a ops)
  have "R s (step a s)" using Cons.prems by (rule step)
  moreover have "R (step a s) (fold step ops (step a s))"
    using Cons.prems by (intro Cons.IH inv_step)
  ultimately show ?case by (auto intro: trans)
qed

end

text \<open>
  The same for operations that may panic or run forever (\<^const>\<open>None\<close>): the contract then
  includes that they never do.
\<close>

fun run_steps :: "('op \<Rightarrow> 's \<Rightarrow> 's option) \<Rightarrow> 'op list \<Rightarrow> 's \<Rightarrow> 's option" where
  "run_steps step [] s = Some s"
| "run_steps step (a # ops) s = Option.bind (step a s) (run_steps step ops)"

locale partial_transition_system =
  fixes init :: "'s"
    and step :: "'op \<Rightarrow> 's \<Rightarrow> 's option"
    and inv :: "'s \<Rightarrow> bool"
  assumes inv_init: "inv init"
    and step_total: "inv s \<Longrightarrow> \<exists>s'. step a s = Some s' \<and> inv s'"
begin

lemma run_total: "inv s \<Longrightarrow> \<exists>s'. run_steps step ops s = Some s' \<and> inv s'"
proof (induction ops arbitrary: s)
  case Nil
  then show ?case by simp
next
  case (Cons a ops)
  from step_total[OF Cons.prems, of a] obtain u where "step a s = Some u" "inv u" by blast
  with Cons.IH[of u] show ?case by simp
qed

lemma run_reach: "\<exists>s. run_steps step ops init = Some s \<and> inv s"
  by (rule run_total) (rule inv_init)

end

text \<open>
  Where an operation relies on something its caller checks, the contract is relative to a
  predicate \<open>ok\<close> on operations.
\<close>

locale guarded_system =
  fixes init :: "'s"
    and step :: "'op \<Rightarrow> 's \<Rightarrow> 's option"
    and inv :: "'s \<Rightarrow> bool"
    and ok :: "'op \<Rightarrow> bool"
  assumes guarded_init: "inv init"
    and guarded_step: "inv s \<Longrightarrow> ok a \<Longrightarrow> \<exists>s'. step a s = Some s' \<and> inv s'"
begin

lemma guarded_run:
  "inv s \<Longrightarrow> list_all ok ops \<Longrightarrow> \<exists>s'. run_steps step ops s = Some s' \<and> inv s'"
proof (induction ops arbitrary: s)
  case Nil
  then show ?case by simp
next
  case (Cons a ops)
  from guarded_step[OF Cons.prems(1), of a] Cons.prems(2)
  obtain u where "step a s = Some u" "inv u" by auto
  with Cons.IH[of u] Cons.prems(2) show ?case by simp
qed

lemma guarded_reach:
  "list_all ok ops \<Longrightarrow> \<exists>s. run_steps step ops init = Some s \<and> inv s"
  by (rule guarded_run) (rule guarded_init)

end

end
