(* ===== verification/Process_Table.thy ===== *)
theory Process_Table
  imports Prelude
begin

text \<open>
  The process table and round-robin run queue of \<open>src/crates/process-table/src/lib.rs\<close>:
  process lifecycle (spawn, activate, schedule, block, wake, exit, terminate, wait) with one
  current task per logical CPU. The const generic \<open>N\<close> is the length of the entry array.
\<close>

section \<open>State\<close>

definition MAX_SCHEDULER_CPUS :: nat where
  "MAX_SCHEDULER_CPUS = 64"

datatype process_state = PEmpty | Ready | Running | Blocked | Zombie

record process_info =
  pi_pid :: nat
  pi_parent_pid :: nat
  pi_state :: process_state
  pi_resource :: nat
  pi_exit_status :: nat

definition PROCESS_INFO_EMPTY :: process_info where
  "PROCESS_INFO_EMPTY = \<lparr>pi_pid = 0, pi_parent_pid = 0, pi_state = PEmpty,
     pi_resource = 0, pi_exit_status = 0\<rparr>"

lemma PROCESS_INFO_EMPTY_state [simp]: "pi_state PROCESS_INFO_EMPTY = PEmpty"
  by (simp add: PROCESS_INFO_EMPTY_def)

datatype spawn_error = SpawnFull | InvalidResource | PidExhausted

datatype activate_error = ActivateNotFound | NotRunnable | InvalidCpu

datatype wait_result = NoChild | Pending | Reaped nat nat nat

record process_table =
  pt_entries :: "process_info list"
  pt_current :: "nat option list"
  pt_cursor :: "nat list"
  pt_next_pid :: nat

definition pt_new :: "nat \<Rightarrow> process_table" where
  "pt_new n = \<lparr>pt_entries = replicate n PROCESS_INFO_EMPTY,
     pt_current = replicate MAX_SCHEDULER_CPUS None,
     pt_cursor = replicate MAX_SCHEDULER_CPUS 0, pt_next_pid = 1\<rparr>"

section \<open>Operations\<close>

abbreviation pt_size :: "process_table \<Rightarrow> nat" where
  "pt_size t \<equiv> length (pt_entries t)"

text \<open>\<open>self.entries[i] = e\<close>, \<open>self.entries[i].state = s\<close> and \<open>self.current[cpu] = c\<close>.\<close>

definition pt_put :: "nat \<Rightarrow> process_info \<Rightarrow> process_table \<Rightarrow> process_table" where
  "pt_put i e t = t\<lparr>pt_entries := (pt_entries t)[i := e]\<rparr>"

definition pt_set_state :: "nat \<Rightarrow> process_state \<Rightarrow> process_table \<Rightarrow> process_table" where
  "pt_set_state i s t = pt_put i ((pt_entries t ! i)\<lparr>pi_state := s\<rparr>) t"

definition pt_set_current :: "nat \<Rightarrow> nat option \<Rightarrow> process_table \<Rightarrow> process_table" where
  "pt_set_current cpu c t = t\<lparr>pt_current := (pt_current t)[cpu := c]\<rparr>"

definition pt_set_cursor :: "nat \<Rightarrow> nat \<Rightarrow> process_table \<Rightarrow> process_table" where
  "pt_set_cursor cpu c t = t\<lparr>pt_cursor := (pt_cursor t)[cpu := c]\<rparr>"

definition pt_index :: "process_table \<Rightarrow> nat \<Rightarrow> nat option" where
  "pt_index t pid =
     (if pid \<noteq> 0
      then position (\<lambda>e. pi_state e \<noteq> PEmpty \<and> pi_pid e = pid) (pt_entries t)
      else None)"

definition pt_spawn ::
    "nat \<Rightarrow> nat \<Rightarrow> process_table \<Rightarrow> (spawn_error, nat) result \<times> process_table" where
  "pt_spawn parent_pid resource t =
     (if resource = 0 then (Inl InvalidResource, t)
      else case position (\<lambda>e. pi_state e = PEmpty) (pt_entries t) of
        None \<Rightarrow> (Inl SpawnFull, t)
      | Some index \<Rightarrow>
          (case checked_add (pt_next_pid t) 1 of
             None \<Rightarrow> (Inl PidExhausted, t)
           | Some nxt \<Rightarrow>
               if nxt = 0 then (Inl PidExhausted, t)
               else (Inr (pt_next_pid t),
                 pt_put index \<lparr>pi_pid = pt_next_pid t, pi_parent_pid = parent_pid,
                   pi_state = Ready, pi_resource = resource, pi_exit_status = 0\<rparr>
                   (t\<lparr>pt_next_pid := nxt\<rparr>))))"

definition pt_activate_on ::
    "nat \<Rightarrow> nat \<Rightarrow> process_table \<Rightarrow> (activate_error, unit) result \<times> process_table" where
  "pt_activate_on cpu pid t =
     (if MAX_SCHEDULER_CPUS \<le> cpu then (Inl InvalidCpu, t)
      else case pt_index t pid of
        None \<Rightarrow> (Inl ActivateNotFound, t)
      | Some index \<Rightarrow>
          if pi_state (pt_entries t ! index) \<noteq> Ready then (Inl NotRunnable, t)
          else
            let t1 = (case pt_current t ! cpu of
                        None \<Rightarrow> t
                      | Some current \<Rightarrow>
                          if pi_state (pt_entries t ! current) = Running
                          then pt_set_state current Ready t else t);
                t2 = pt_set_current cpu (Some index) (pt_set_state index Running t1)
            in (Inr (), if pt_size t \<noteq> 0
                        then pt_set_cursor cpu ((index + 1) mod pt_size t) t2 else t2))"

definition pt_activate ::
    "nat \<Rightarrow> process_table \<Rightarrow> (activate_error, unit) result \<times> process_table" where
  "pt_activate pid t = pt_activate_on 0 pid t"

text \<open>The selection loop of \<open>schedule_next_where_on\<close>, over the offsets still to be tried.\<close>

fun pt_select ::
    "(process_info \<Rightarrow> bool) \<Rightarrow> nat \<Rightarrow> nat \<Rightarrow> nat list \<Rightarrow> process_table
     \<Rightarrow> process_info option \<times> process_table" where
  "pt_select eligible cpu start [] t = (None, t)"
| "pt_select eligible cpu start (offset # offsets) t =
     (let index = (start + offset) mod pt_size t in
      if pi_state (pt_entries t ! index) = Ready \<and> eligible (pt_entries t ! index)
      then let t' = pt_set_cursor cpu ((index + 1) mod pt_size t)
                      (pt_set_current cpu (Some index) (pt_set_state index Running t))
           in (Some (pt_entries t' ! index), t')
      else pt_select eligible cpu start offsets t)"

definition pt_preempt :: "nat \<Rightarrow> process_table \<Rightarrow> nat \<times> process_table" where
  "pt_preempt cpu t =
     (case pt_current t ! cpu of
        None \<Rightarrow> (pt_cursor t ! cpu, t)
      | Some index \<Rightarrow>
          ((index + 1) mod pt_size t,
           if pi_state (pt_entries t ! index) = Running
           then pt_set_state index Ready t else t))"

definition pt_schedule_next_where_on ::
    "nat \<Rightarrow> (process_info \<Rightarrow> bool) \<Rightarrow> process_table \<Rightarrow> process_info option \<times> process_table" where
  "pt_schedule_next_where_on cpu eligible t =
     (if MAX_SCHEDULER_CPUS \<le> cpu \<or> pt_size t = 0 then (None, t)
      else let (start, t1) = pt_preempt cpu t;
               t2 = pt_set_cursor cpu start (pt_set_current cpu None t1)
           in pt_select eligible cpu start [0..<pt_size t] t2)"

definition pt_schedule_next_on ::
    "nat \<Rightarrow> process_table \<Rightarrow> process_info option \<times> process_table" where
  "pt_schedule_next_on cpu t = pt_schedule_next_where_on cpu (\<lambda>_. True) t"

definition pt_schedule_next :: "process_table \<Rightarrow> process_info option \<times> process_table" where
  "pt_schedule_next t = pt_schedule_next_on 0 t"

definition pt_block_current_on :: "nat \<Rightarrow> process_table \<Rightarrow> nat option \<times> process_table" where
  "pt_block_current_on cpu t =
     (if length (pt_current t) \<le> cpu then (None, t)
      else case pt_current t ! cpu of
        None \<Rightarrow> (None, t)
      | Some index \<Rightarrow>
          let t1 = pt_set_current cpu None t in
          if pi_state (pt_entries t1 ! index) \<noteq> Running then (None, t1)
          else let t2 = pt_set_state index Blocked t1 in
               (Some (pi_pid (pt_entries t2 ! index)), t2))"

definition pt_block_current :: "process_table \<Rightarrow> nat option \<times> process_table" where
  "pt_block_current t = pt_block_current_on 0 t"

definition pt_wake :: "nat \<Rightarrow> process_table \<Rightarrow> bool \<times> process_table" where
  "pt_wake pid t =
     (case pt_index t pid of
        None \<Rightarrow> (False, t)
      | Some index \<Rightarrow>
          if pi_state (pt_entries t ! index) \<noteq> Blocked then (False, t)
          else (True, pt_set_state index Ready t))"

text \<open>\<open>entries[i].state = Zombie; entries[i].exit_status = status\<close>, shared by exit and terminate.\<close>

definition pt_bury :: "nat \<Rightarrow> nat \<Rightarrow> process_table \<Rightarrow> process_table" where
  "pt_bury i status t =
     pt_put i ((pt_entries t ! i)\<lparr>pi_state := Zombie, pi_exit_status := status\<rparr>) t"

definition pt_exit_current_on ::
    "nat \<Rightarrow> nat \<Rightarrow> process_table \<Rightarrow> process_info option \<times> process_table" where
  "pt_exit_current_on cpu status t =
     (if length (pt_current t) \<le> cpu then (None, t)
      else case pt_current t ! cpu of
        None \<Rightarrow> (None, t)
      | Some index \<Rightarrow>
          let t1 = pt_set_current cpu None t in
          if pi_state (pt_entries t1 ! index) \<noteq> Running then (None, t1)
          else let t2 = pt_bury index status t1 in (Some (pt_entries t2 ! index), t2))"

definition pt_exit_current ::
    "nat \<Rightarrow> process_table \<Rightarrow> process_info option \<times> process_table" where
  "pt_exit_current status t = pt_exit_current_on 0 status t"

definition pt_terminate ::
    "nat \<Rightarrow> nat \<Rightarrow> process_table \<Rightarrow> process_info option \<times> process_table" where
  "pt_terminate pid status t =
     (case pt_index t pid of
        None \<Rightarrow> (None, t)
      | Some index \<Rightarrow>
          if Some index \<in> set (pt_current t)
             \<or> pi_state (pt_entries t ! index) \<notin> {Ready, Blocked} then (None, t)
          else let t1 = pt_bury index status t in (Some (pt_entries t1 ! index), t1))"

definition pt_wait :: "nat \<Rightarrow> nat \<Rightarrow> process_table \<Rightarrow> wait_result \<times> process_table" where
  "pt_wait parent_pid pid t =
     (case pt_index t pid of
        None \<Rightarrow> (NoChild, t)
      | Some index \<Rightarrow>
          let entry = pt_entries t ! index in
          if pi_parent_pid entry \<noteq> parent_pid then (NoChild, t)
          else if pi_state entry \<noteq> Zombie then (Pending, t)
          else (Reaped (pi_pid entry) (pi_resource entry) (pi_exit_status entry),
                pt_put index PROCESS_INFO_EMPTY t))"

definition pt_current_pid_on :: "nat \<Rightarrow> process_table \<Rightarrow> nat option" where
  "pt_current_pid_on cpu t =
     (if length (pt_current t) \<le> cpu then None
      else map_option (\<lambda>index. pi_pid (pt_entries t ! index)) (pt_current t ! cpu))"

definition pt_current_pid :: "process_table \<Rightarrow> nat option" where
  "pt_current_pid t = pt_current_pid_on 0 t"

definition pt_replace_current_resource_on ::
    "nat \<Rightarrow> nat \<Rightarrow> process_table \<Rightarrow> nat option \<times> process_table" where
  "pt_replace_current_resource_on cpu resource t =
     (if resource = 0 then (None, t)
      else if length (pt_current t) \<le> cpu then (None, t)
      else case pt_current t ! cpu of
        None \<Rightarrow> (None, t)
      | Some index \<Rightarrow>
          if pi_state (pt_entries t ! index) \<noteq> Running then (None, t)
          else (Some (pi_resource (pt_entries t ! index)),
                pt_put index ((pt_entries t ! index)\<lparr>pi_resource := resource\<rparr>) t))"

definition pt_replace_current_resource ::
    "nat \<Rightarrow> process_table \<Rightarrow> nat option \<times> process_table" where
  "pt_replace_current_resource resource t = pt_replace_current_resource_on 0 resource t"

definition pt_get :: "nat \<Rightarrow> process_table \<Rightarrow> process_info option" where
  "pt_get pid t = map_option (\<lambda>index. pt_entries t ! index) (pt_index t pid)"

definition pt_running_cpu :: "nat \<Rightarrow> process_table \<Rightarrow> nat option" where
  "pt_running_cpu pid t =
     (case pt_index t pid of
        None \<Rightarrow> None
      | Some index \<Rightarrow> position (\<lambda>current. current = Some index) (pt_current t))"

definition pt_counts :: "process_table \<Rightarrow> nat \<times> nat \<times> nat" where
  "pt_counts t =
     (count_if (\<lambda>e. pi_state e \<notin> {PEmpty, Zombie}) (pt_entries t),
      count_if (\<lambda>e. pi_state e \<in> {Ready, Running}) (pt_entries t),
      count_if (\<lambda>e. pi_state e = Zombie) (pt_entries t))"


section \<open>The table invariant\<close>

text \<open>
  Shape: the arrays keep their const-generic lengths and the cursors point into the table.
  Identity: live entries have distinct non-zero PIDs below the next one to be issued and a
  resource; free entries are blank. Ownership: the tasks marked \<^const>\<open>Running\<close> are exactly
  the current tasks of the CPUs, each of exactly one CPU.
\<close>

definition pt_shape :: "nat \<Rightarrow> process_table \<Rightarrow> bool" where
  "pt_shape n t \<longleftrightarrow> pt_size t = n \<and> length (pt_current t) = MAX_SCHEDULER_CPUS
     \<and> length (pt_cursor t) = MAX_SCHEDULER_CPUS
     \<and> (\<forall>cpu < MAX_SCHEDULER_CPUS. n \<noteq> 0 \<longrightarrow> pt_cursor t ! cpu < n)"

definition pt_entry_ok :: "nat \<Rightarrow> process_info \<Rightarrow> bool" where
  "pt_entry_ok next_pid e \<longleftrightarrow>
     (if pi_state e = PEmpty then e = PROCESS_INFO_EMPTY
      else 0 < pi_pid e \<and> pi_pid e < next_pid \<and> pi_resource e \<noteq> 0)"

definition pt_ids :: "process_table \<Rightarrow> bool" where
  "pt_ids t \<longleftrightarrow> 1 \<le> pt_next_pid t \<and> pt_next_pid t < 2 ^ 64
     \<and> (\<forall>i < pt_size t. pt_entry_ok (pt_next_pid t) (pt_entries t ! i))
     \<and> (\<forall>i < pt_size t. \<forall>j < pt_size t.
          pi_state (pt_entries t ! i) \<noteq> PEmpty \<longrightarrow> pi_state (pt_entries t ! j) \<noteq> PEmpty
          \<longrightarrow> pi_pid (pt_entries t ! i) = pi_pid (pt_entries t ! j) \<longrightarrow> i = j)"

definition pt_owned :: "process_table \<Rightarrow> bool" where
  "pt_owned t \<longleftrightarrow>
     (\<forall>cpu < length (pt_current t). \<forall>i. pt_current t ! cpu = Some i \<longrightarrow>
        i < pt_size t \<and> pi_state (pt_entries t ! i) = Running)
     \<and> (\<forall>i < pt_size t. pi_state (pt_entries t ! i) = Running \<longrightarrow>
        (\<exists>cpu < length (pt_current t). pt_current t ! cpu = Some i))
     \<and> (\<forall>c < length (pt_current t). \<forall>d < length (pt_current t). \<forall>i.
        pt_current t ! c = Some i \<longrightarrow> pt_current t ! d = Some i \<longrightarrow> c = d)"

definition pt_inv :: "nat \<Rightarrow> process_table \<Rightarrow> bool" where
  "pt_inv n t \<longleftrightarrow> pt_shape n t \<and> pt_ids t \<and> pt_owned t"

lemmas pt_update_defs = pt_put_def pt_set_state_def pt_set_current_def pt_set_cursor_def
  pt_bury_def

text \<open>The elementary updates act on one array each.\<close>

lemma pt_fields [simp]:
  "pt_entries (pt_put i e t) = (pt_entries t)[i := e]"
  "pt_current (pt_put i e t) = pt_current t"
  "pt_cursor (pt_put i e t) = pt_cursor t"
  "pt_next_pid (pt_put i e t) = pt_next_pid t"
  "pt_entries (pt_set_state i s t) = (pt_entries t)[i := (pt_entries t ! i)\<lparr>pi_state := s\<rparr>]"
  "pt_current (pt_set_state i s t) = pt_current t"
  "pt_cursor (pt_set_state i s t) = pt_cursor t"
  "pt_next_pid (pt_set_state i s t) = pt_next_pid t"
  "pt_entries (pt_set_current c x t) = pt_entries t"
  "pt_current (pt_set_current c x t) = (pt_current t)[c := x]"
  "pt_cursor (pt_set_current c x t) = pt_cursor t"
  "pt_next_pid (pt_set_current c x t) = pt_next_pid t"
  "pt_entries (pt_set_cursor c k t) = pt_entries t"
  "pt_current (pt_set_cursor c k t) = pt_current t"
  "pt_cursor (pt_set_cursor c k t) = (pt_cursor t)[c := k]"
  "pt_next_pid (pt_set_cursor c k t) = pt_next_pid t"
  "pt_entries (pt_bury i v t)
     = (pt_entries t)[i := (pt_entries t ! i)\<lparr>pi_state := Zombie, pi_exit_status := v\<rparr>]"
  "pt_current (pt_bury i v t) = pt_current t"
  "pt_cursor (pt_bury i v t) = pt_cursor t"
  "pt_next_pid (pt_bury i v t) = pt_next_pid t"
  by (simp_all add: pt_update_defs)

lemma pt_index_SomeD:
  assumes "pt_index t pid = Some i"
  shows "i < pt_size t" "pi_state (pt_entries t ! i) \<noteq> PEmpty" "pi_pid (pt_entries t ! i) = pid"
    "pid \<noteq> 0"
  using assms by (auto simp: pt_index_def split: if_splits dest: position_SomeD)

text \<open>An update of one entry that keeps PID and liveness keeps the identities.\<close>

lemma pt_ids_put:
  assumes "pt_ids t" "i < pt_size t" "pi_pid e = pi_pid (pt_entries t ! i)"
    and "pi_state e \<noteq> PEmpty" "pi_state (pt_entries t ! i) \<noteq> PEmpty" "pi_resource e \<noteq> 0"
  shows "pt_ids (pt_put i e t)"
  using assms unfolding pt_ids_def
  by (auto simp: nth_list_update pt_entry_ok_def split: if_splits)

lemma pt_ids_set_state:
  assumes "pt_ids t" "i < pt_size t" "pi_state (pt_entries t ! i) \<noteq> PEmpty" "s \<noteq> PEmpty"
  shows "pt_ids (pt_set_state i s t)"
  unfolding pt_set_state_def
  using assms by (intro pt_ids_put) (auto simp: pt_ids_def pt_entry_ok_def split: if_splits)

lemma pt_ids_bury:
  assumes "pt_ids t" "i < pt_size t" "pi_state (pt_entries t ! i) \<noteq> PEmpty"
  shows "pt_ids (pt_bury i v t)"
  unfolding pt_bury_def
  using assms by (intro pt_ids_put) (auto simp: pt_ids_def pt_entry_ok_def split: if_splits)

lemma pt_ids_reap:
  assumes "pt_ids t" "i < pt_size t"
  shows "pt_ids (pt_put i PROCESS_INFO_EMPTY t)"
  using assms unfolding pt_ids_def
  by (auto simp: nth_list_update pt_entry_ok_def PROCESS_INFO_EMPTY_def split: if_splits)

lemma pt_ids_cpu [simp]:
  "pt_ids (pt_set_current c x t) = pt_ids t"
  "pt_ids (pt_set_cursor c k t) = pt_ids t"
  by (simp_all add: pt_ids_def)

lemma pt_shape_upd:
  "pt_shape n t \<Longrightarrow> pt_shape n (pt_put i e t)"
  "pt_shape n t \<Longrightarrow> pt_shape n (pt_set_state i s t)"
  "pt_shape n t \<Longrightarrow> pt_shape n (pt_bury i v t)"
  "pt_shape n t \<Longrightarrow> pt_shape n (pt_set_current c x t)"
  "pt_shape n t \<Longrightarrow> (n \<noteq> 0 \<Longrightarrow> k < n) \<Longrightarrow> pt_shape n (pt_set_cursor c k t)"
  by (auto simp: pt_shape_def nth_upd)

lemma pt_owned_cursor [simp]: "pt_owned (pt_set_cursor c k t) = pt_owned t"
  by (simp add: pt_owned_def)

lemma pt_ownedD:
  assumes "pt_owned t"
  shows "\<And>cpu i. cpu < length (pt_current t) \<Longrightarrow> pt_current t ! cpu = Some i \<Longrightarrow>
      i < pt_size t \<and> pi_state (pt_entries t ! i) = Running"
    and "\<And>i. i < pt_size t \<Longrightarrow> pi_state (pt_entries t ! i) = Running \<Longrightarrow>
      \<exists>cpu < length (pt_current t). pt_current t ! cpu = Some i"
    and "\<And>c d i. c < length (pt_current t) \<Longrightarrow> d < length (pt_current t) \<Longrightarrow>
      pt_current t ! c = Some i \<Longrightarrow> pt_current t ! d = Some i \<Longrightarrow> c = d"
  using assms unfolding pt_owned_def by blast+

lemma pt_ownedI:
  assumes "\<And>cpu i. cpu < length (pt_current t) \<Longrightarrow> pt_current t ! cpu = Some i \<Longrightarrow>
      i < pt_size t \<and> pi_state (pt_entries t ! i) = Running"
    and "\<And>i. i < pt_size t \<Longrightarrow> pi_state (pt_entries t ! i) = Running \<Longrightarrow>
      \<exists>cpu < length (pt_current t). pt_current t ! cpu = Some i"
    and "\<And>c d i. c < length (pt_current t) \<Longrightarrow> d < length (pt_current t) \<Longrightarrow>
      pt_current t ! c = Some i \<Longrightarrow> pt_current t ! d = Some i \<Longrightarrow> c = d"
  shows "pt_owned t"
  using assms unfolding pt_owned_def by blast

text \<open>Entries no CPU owns may change freely as long as they do not become \<^const>\<open>Running\<close>.\<close>

lemma pt_owned_put:
  assumes "pt_owned t" "i < pt_size t" "pi_state (pt_entries t ! i) \<noteq> Running"
    and "pi_state e \<noteq> Running"
  shows "pt_owned (pt_put i e t)"
proof (rule pt_ownedI, goal_cases)
  case (1 cpu j)
  with pt_ownedD(1)[OF assms(1), of cpu j] assms show ?case by (auto simp: nth_upd)
next
  case (2 j)
  with pt_ownedD(2)[OF assms(1), of j] assms show ?case by (auto simp: nth_upd split: if_splits)
next
  case (3 c d j)
  with pt_ownedD(3)[OF assms(1), of c d j] show ?case by simp
qed

text \<open>The owner of a task can give it up.\<close>

lemma pt_owned_drop:
  assumes "pt_owned t" "c < length (pt_current t)" "pt_current t ! c = Some i"
    and "pi_state e \<noteq> Running"
  shows "pt_owned (pt_put i e (pt_set_current c None t))"
proof (rule pt_ownedI, goal_cases)
  case (1 cpu j)
  then have "cpu \<noteq> c" "pt_current t ! cpu = Some j" by (auto simp: nth_upd split: if_splits)
  moreover from this have "i \<noteq> j" using pt_ownedD(3)[OF assms(1), of c cpu i] assms 1 by auto
  ultimately show ?case using pt_ownedD(1)[OF assms(1), of cpu j] 1 by (auto simp: nth_upd)
next
  case (2 j)
  then have "i \<noteq> j" "j < pt_size t" "pi_state (pt_entries t ! j) = Running"
    using assms by (auto simp: nth_upd split: if_splits)
  then obtain cpu where "cpu < length (pt_current t)" "pt_current t ! cpu = Some j"
    using pt_ownedD(2)[OF assms(1)] by blast
  with \<open>i \<noteq> j\<close> assms(3) show ?case by (auto simp: nth_upd intro!: exI[of _ cpu])
next
  case (3 a b j)
  then show ?case
    using pt_ownedD(3)[OF assms(1), of a b j] by (auto simp: nth_upd split: if_splits)
qed

text \<open>A CPU without a task can take one that no CPU owns.\<close>

lemma pt_owned_take:
  assumes "pt_owned t" "c < length (pt_current t)" "pt_current t ! c = None"
    and "i < pt_size t" "pi_state (pt_entries t ! i) \<noteq> Running" "pi_state e = Running"
  shows "pt_owned (pt_set_current c (Some i) (pt_put i e t))"
proof (rule pt_ownedI, goal_cases)
  case (1 cpu j)
  then show ?case
    using pt_ownedD(1)[OF assms(1), of cpu j] assms by (auto simp: nth_upd split: if_splits)
next
  case (2 j)
  show ?case
  proof (cases "i = j")
    case True
    with assms(2) show ?thesis by (auto intro!: exI[of _ c])
  next
    case False
    with 2 obtain cpu where "cpu < length (pt_current t)" "pt_current t ! cpu = Some j"
      using pt_ownedD(2)[OF assms(1), of j] by (auto simp: nth_upd)
    with assms(3) show ?thesis by (auto simp: nth_upd intro!: exI[of _ cpu])
  qed
next
  case (3 a b j)
  have free: "pt_current t ! x \<noteq> Some i" if "x < length (pt_current t)" for x
    using pt_ownedD(1)[OF assms(1) that, of i] assms by blast
  from 3 have "a < length (pt_current t)" "b < length (pt_current t)" by simp_all
  with 3 free[of a] free[of b] show ?case
    using pt_ownedD(3)[OF assms(1), of a b j]
    by (cases "a = c"; cases "b = c") (simp_all add: nth_upd)
qed

section \<open>Every operation keeps the invariant\<close>

lemma pt_inv_new: "pt_inv n (pt_new n)"
  by (auto simp: pt_inv_def pt_new_def pt_shape_def pt_ids_def pt_owned_def pt_entry_ok_def
      PROCESS_INFO_EMPTY_def)

lemma pt_invD:
  assumes "pt_inv n t"
  shows "pt_shape n t" "pt_ids t" "pt_owned t" "pt_size t = n"
    "length (pt_current t) = MAX_SCHEDULER_CPUS" "length (pt_cursor t) = MAX_SCHEDULER_CPUS"
    "pt_next_pid t < 2 ^ 64"
  using assms by (auto simp: pt_inv_def pt_shape_def pt_ids_def)

lemma pt_put_commute:
  "pt_set_current c x (pt_put i e t) = pt_put i e (pt_set_current c x t)"
  "pt_set_current c x (pt_set_state i s t) = pt_set_state i s (pt_set_current c x t)"
  by (simp_all add: pt_update_defs)

lemma pt_set_current_twice [simp]:
  "pt_set_current c x (pt_set_current c y t) = pt_set_current c x t"
  by (simp add: pt_set_current_def)

lemma pt_inv_cursor: "pt_inv n t \<Longrightarrow> (n \<noteq> 0 \<Longrightarrow> k < n) \<Longrightarrow> pt_inv n (pt_set_cursor c k t)"
  by (simp add: pt_inv_def pt_shape_upd)

text \<open>A live task that no CPU runs can move between the waiting states.\<close>

lemma pt_inv_set_state:
  assumes "pt_inv n t" "i < n" "pi_state (pt_entries t ! i) \<notin> {PEmpty, Running}"
    and "s \<notin> {PEmpty, Running}"
  shows "pt_inv n (pt_set_state i s t)"
  using assms pt_invD[OF assms(1)] unfolding pt_inv_def
  by (auto simp: pt_shape_upd pt_ids_set_state pt_set_state_def intro!: pt_owned_put)
     (metis pt_ids_set_state pt_set_state_def)

lemma pt_inv_bury:
  assumes "pt_inv n t" "i < n" "pi_state (pt_entries t ! i) \<notin> {PEmpty, Running}"
  shows "pt_inv n (pt_bury i v t)"
  using assms pt_invD[OF assms(1)] unfolding pt_inv_def
  by (simp add: pt_shape_upd pt_ids_bury pt_owned_put pt_bury_def [of i v t])
     (metis pt_bury_def pt_ids_bury)

text \<open>A CPU gives up its task, which becomes \<open>s\<close>.\<close>

lemma pt_inv_drop:
  assumes "pt_inv n t" "c < MAX_SCHEDULER_CPUS" "pt_current t ! c = Some i"
    and "pi_pid e = pi_pid (pt_entries t ! i)" "pi_state e \<notin> {PEmpty, Running}"
    and "pi_resource e = pi_resource (pt_entries t ! i)"
  shows "pt_inv n (pt_put i e (pt_set_current c None t))"
proof -
  note D = pt_invD[OF assms(1)]
  have i: "i < n" "pi_state (pt_entries t ! i) = Running"
    using pt_ownedD(1)[OF D(3), of c i] assms D by auto
  with D have "pi_resource (pt_entries t ! i) \<noteq> 0"
    by (auto simp: pt_ids_def pt_entry_ok_def split: if_splits)
  with i D assms show ?thesis
    unfolding pt_inv_def by (auto intro!: pt_owned_drop pt_ids_put simp: pt_shape_upd)
qed

lemma pt_inv_take:
  assumes "pt_inv n t" "c < MAX_SCHEDULER_CPUS" "pt_current t ! c = None"
    and "i < n" "pi_state (pt_entries t ! i) \<notin> {PEmpty, Running}"
  shows "pt_inv n (pt_set_current c (Some i) (pt_set_state i Running t))"
proof -
  note D = pt_invD[OF assms(1)]
  have "pt_owned (pt_set_current c (Some i) (pt_set_state i Running t))"
    unfolding pt_set_state_def using D assms by (intro pt_owned_take) auto
  with D assms show ?thesis
    unfolding pt_inv_def by (auto simp: pt_shape_upd pt_ids_set_state)
qed

lemma pt_spawn_inv: "pt_inv n t \<Longrightarrow> pt_inv n (snd (pt_spawn pp r t))"
proof (cases "r = 0")
  case True
  then show "pt_inv n t \<Longrightarrow> ?thesis" by (simp add: pt_spawn_def)
next
  case False
  assume inv: "pt_inv n t"
  note D = pt_invD[OF inv]
  show ?thesis
  proof (cases "position (\<lambda>e. pi_state e = PEmpty) (pt_entries t)")
    case None
    with inv False show ?thesis by (simp add: pt_spawn_def)
  next
    case (Some i)
    note i = position_SomeD[OF Some]
    let ?e = "\<lparr>pi_pid = pt_next_pid t, pi_parent_pid = pp, pi_state = Ready, pi_resource = r,
      pi_exit_status = 0\<rparr>"
    let ?t = "pt_put i ?e (t\<lparr>pt_next_pid := pt_next_pid t + 1\<rparr>)"
    have "pt_owned ?t"
      by (rule pt_owned_put) (use i D in \<open>auto simp: pt_owned_def\<close>)
    moreover have "pt_ids ?t" if "pt_next_pid t + 1 < 2 ^ 64"
      using that i D(2) False unfolding pt_ids_def
      by (auto simp: nth_upd pt_entry_ok_def less_Suc_eq split: if_splits)
    moreover have "pt_shape n ?t" using D(1) by (simp add: pt_shape_def)
    ultimately show ?thesis
      using Some False inv by (auto simp: pt_spawn_def pt_inv_def split: option.splits)
  qed
qed

text \<open>Preemption: the CPU's task, if any, goes back to \<^const>\<open>Ready\<close>.\<close>

lemma pt_released:
  assumes "pt_inv n t" "c < MAX_SCHEDULER_CPUS" "n \<noteq> 0"
  shows "pt_inv n (pt_set_current c None (snd (pt_preempt c t)))"
    and "fst (pt_preempt c t) < n"
proof -
  note D = pt_invD[OF assms(1)]
  show "fst (pt_preempt c t) < n"
    using D assms by (auto simp: pt_preempt_def pt_shape_def split: option.splits)
  show "pt_inv n (pt_set_current c None (snd (pt_preempt c t)))"
  proof (cases "pt_current t ! c")
    case None
    then have "pt_set_current c None t = t" by (simp add: pt_set_current_def list_update_same_conv
          D assms)
    with None assms show ?thesis by (simp add: pt_preempt_def)
  next
    case (Some i)
    then have "pi_state (pt_entries t ! i) = Running"
      using pt_ownedD(1)[OF D(3), of c i] D assms by auto
    with Some show ?thesis
      using pt_inv_drop[OF assms(1,2) Some, of "(pt_entries t ! i)\<lparr>pi_state := Ready\<rparr>"]
      by (simp add: pt_preempt_def pt_put_commute) (simp add: pt_set_state_def)
  qed
qed

text \<open>Selection takes the first eligible ready task after \<open>start\<close>, or leaves the table alone.\<close>

lemma pt_select_cases:
  obtains (none) "pt_select el cpu start offs t = (None, t)"
      "\<forall>off \<in> set offs. let e = pt_entries t ! ((start + off) mod pt_size t)
         in \<not> (pi_state e = Ready \<and> el e)"
  | (some) pre off post i where "offs = pre @ off # post" "i = (start + off) mod pt_size t"
      "\<forall>o' \<in> set pre. let e = pt_entries t ! ((start + o') mod pt_size t)
         in \<not> (pi_state e = Ready \<and> el e)"
      "pi_state (pt_entries t ! i) = Ready" "el (pt_entries t ! i)"
      "snd (pt_select el cpu start offs t) = pt_set_cursor cpu ((i + 1) mod pt_size t)
         (pt_set_current cpu (Some i) (pt_set_state i Running t))"
      "fst (pt_select el cpu start offs t)
         = Some (pt_entries (snd (pt_select el cpu start offs t)) ! i)"
proof (induction offs arbitrary: thesis)
  case Nil
  from Nil(1) show ?case by simp
next
  case (Cons o1 offs)
  let ?i = "(start + o1) mod pt_size t"
  show ?case
  proof (cases "pi_state (pt_entries t ! ?i) = Ready \<and> el (pt_entries t ! ?i)")
    case True
    show ?thesis
      by (rule Cons.prems(2)[of "[]" o1 offs ?i]) (use True in \<open>simp_all add: Let_def\<close>)
  next
    case False
    then have eq: "pt_select el cpu start (o1 # offs) t = pt_select el cpu start offs t"
      by (auto simp: Let_def)
    show ?thesis
    proof (rule Cons.IH)
      assume "pt_select el cpu start offs t = (None, t)"
        "\<forall>off \<in> set offs. let e = pt_entries t ! ((start + off) mod pt_size t)
         in \<not> (pi_state e = Ready \<and> el e)"
      with False eq show ?thesis by (intro Cons.prems(1)) (auto simp: Let_def)
    next
      fix pre off post i
      assume "offs = pre @ off # post" "i = (start + off) mod pt_size t"
        "\<forall>o' \<in> set pre. let e = pt_entries t ! ((start + o') mod pt_size t)
           in \<not> (pi_state e = Ready \<and> el e)"
        "pi_state (pt_entries t ! i) = Ready" "el (pt_entries t ! i)"
        "snd (pt_select el cpu start offs t) = pt_set_cursor cpu ((i + 1) mod pt_size t)
           (pt_set_current cpu (Some i) (pt_set_state i Running t))"
        "fst (pt_select el cpu start offs t)
           = Some (pt_entries (snd (pt_select el cpu start offs t)) ! i)"
      with False eq show ?thesis
        by (intro Cons.prems(2)[of "o1 # pre" off post i]) (auto simp: Let_def)
    qed
  qed
qed

lemma pt_select_inv:
  assumes "pt_inv n t" "cpu < MAX_SCHEDULER_CPUS" "n \<noteq> 0" "pt_current t ! cpu = None"
  shows "pt_inv n (snd (pt_select el cpu start offs t))"
proof (cases rule: pt_select_cases[of el cpu start offs t])
  case none
  with assms show ?thesis by simp
next
  case (some pre off post i)
  have "i < n" using some(2) assms pt_invD(4)[OF assms(1)] by simp
  then have "pt_inv n (pt_set_current cpu (Some i) (pt_set_state i Running t))"
    using assms some by (intro pt_inv_take) auto
  with some assms pt_invD(4)[OF assms(1)] show ?thesis by (simp add: pt_inv_cursor)
qed

text \<open>The state the selection loop of a scheduling call starts from.\<close>

definition pt_resting :: "nat \<Rightarrow> process_table \<Rightarrow> process_table" where
  "pt_resting cpu t =
     pt_set_cursor cpu (fst (pt_preempt cpu t)) (pt_set_current cpu None (snd (pt_preempt cpu t)))"

lemma pt_schedule_alt:
  "pt_schedule_next_where_on cpu el t =
     (if MAX_SCHEDULER_CPUS \<le> cpu \<or> pt_size t = 0 then (None, t)
      else pt_select el cpu (fst (pt_preempt cpu t)) [0..<pt_size t] (pt_resting cpu t))"
  by (simp add: pt_schedule_next_where_on_def pt_resting_def case_prod_beta Let_def)

lemma pt_resting_inv:
  assumes "pt_inv n t" "cpu < MAX_SCHEDULER_CPUS" "n \<noteq> 0"
  shows "pt_inv n (pt_resting cpu t)" "pt_current (pt_resting cpu t) ! cpu = None"
    "pt_size (pt_resting cpu t) = n"
proof -
  show "pt_inv n (pt_resting cpu t)"
    unfolding pt_resting_def using pt_released[OF assms] by (intro pt_inv_cursor) auto
  then show "pt_size (pt_resting cpu t) = n" by (rule pt_invD)
  have "length (pt_current (snd (pt_preempt cpu t))) = MAX_SCHEDULER_CPUS"
    using pt_invD(5)[OF pt_released(1)[OF assms]] by simp
  with assms show "pt_current (pt_resting cpu t) ! cpu = None" by (simp add: pt_resting_def)
qed

lemma pt_schedule_inv:
  assumes "pt_inv n t"
  shows "pt_inv n (snd (pt_schedule_next_where_on cpu el t))"
proof (cases "MAX_SCHEDULER_CPUS \<le> cpu \<or> pt_size t = 0")
  case True
  with assms show ?thesis by (simp add: pt_schedule_alt)
next
  case False
  then have "cpu < MAX_SCHEDULER_CPUS" "n \<noteq> 0" using pt_invD(4)[OF assms] by auto
  with False show ?thesis
    unfolding pt_schedule_alt using pt_resting_inv[OF assms] by (auto intro!: pt_select_inv)
qed

lemma pt_activate_inv:
  assumes "pt_inv n t"
  shows "pt_inv n (snd (pt_activate_on cpu pid t))"
proof (cases "MAX_SCHEDULER_CPUS \<le> cpu \<or> pt_index t pid = None \<or>
    pi_state (pt_entries t ! the (pt_index t pid)) \<noteq> Ready")
  case True
  with assms show ?thesis by (auto simp: pt_activate_on_def split: option.splits)
next
  case False
  then obtain i where i: "pt_index t pid = Some i" "pi_state (pt_entries t ! i) = Ready"
    and c: "cpu < MAX_SCHEDULER_CPUS" by auto
  note D = pt_invD[OF assms] and I = pt_index_SomeD[OF i(1)]
  define r where "r = pt_set_current cpu None (snd (pt_preempt cpu t))"
  have n: "n \<noteq> 0" "i < n" using I D by auto
  have r: "pt_inv n r" unfolding r_def by (rule pt_released(1)[OF assms c n(1)])
  have rc: "pt_current r ! cpu = None"
    using c pt_invD(5)[OF r] by (simp add: r_def)
  have ri: "pi_state (pt_entries r ! i) = Ready"
    using i(2) n D by (auto simp: r_def pt_preempt_def nth_upd split: option.splits)
  have "snd (pt_activate_on cpu pid t)
      = pt_set_cursor cpu ((i + 1) mod n) (pt_set_current cpu (Some i) (pt_set_state i Running r))"
    using i c n D by (simp add: pt_activate_on_def r_def pt_preempt_def pt_put_commute
        split: option.splits)
  moreover have "pt_inv n (pt_set_current cpu (Some i) (pt_set_state i Running r))"
    using r rc ri n c by (intro pt_inv_take) auto
  ultimately show ?thesis using n by (simp add: pt_inv_cursor)
qed

lemma pt_take_None_inv:
  assumes "pt_inv n t" "cpu < MAX_SCHEDULER_CPUS" "pt_current t ! cpu = Some i"
  shows "pi_state (pt_entries t ! i) = Running" "i < n"
  using pt_ownedD(1)[OF pt_invD(3)[OF assms(1)], of cpu i] pt_invD[OF assms(1)] assms by auto

lemma pt_block_inv: "pt_inv n t \<Longrightarrow> pt_inv n (snd (pt_block_current_on cpu t))"
  using pt_take_None_inv[of n t cpu] pt_inv_drop[of n t cpu]
  by (auto simp: pt_block_current_on_def pt_invD pt_set_state_def Let_def not_le
      split: option.splits)

lemma pt_exit_inv: "pt_inv n t \<Longrightarrow> pt_inv n (snd (pt_exit_current_on cpu status t))"
  using pt_take_None_inv[of n t cpu] pt_inv_drop[of n t cpu]
  by (auto simp: pt_exit_current_on_def pt_invD pt_bury_def Let_def not_le split: option.splits)

lemma pt_wake_inv: "pt_inv n t \<Longrightarrow> pt_inv n (snd (pt_wake pid t))"
  using pt_index_SomeD[of t pid] pt_invD[of n t]
  by (auto simp: pt_wake_def split: option.splits intro!: pt_inv_set_state)

lemma pt_terminate_inv: "pt_inv n t \<Longrightarrow> pt_inv n (snd (pt_terminate pid status t))"
  using pt_index_SomeD[of t pid] pt_invD[of n t]
  by (auto simp: pt_terminate_def Let_def split: option.splits intro!: pt_inv_bury)

lemma pt_wait_inv:
  assumes "pt_inv n t"
  shows "pt_inv n (snd (pt_wait parent pid t))"
proof -
  note D = pt_invD[OF assms]
  have "pt_inv n (pt_put i PROCESS_INFO_EMPTY t)"
    if "pt_index t pid = Some i" "pi_state (pt_entries t ! i) = Zombie" for i
    using that D pt_index_SomeD[OF that(1)] unfolding pt_inv_def
    by (auto intro!: pt_shape_upd pt_ids_reap pt_owned_put)
  with assms show ?thesis by (auto simp: pt_wait_def Let_def split: option.splits)
qed

lemma pt_replace_inv:
  assumes "pt_inv n t"
  shows "pt_inv n (snd (pt_replace_current_resource_on cpu r t))"
proof -
  note D = pt_invD[OF assms]
  have "pt_inv n (pt_put i ((pt_entries t ! i)\<lparr>pi_resource := r\<rparr>) t)"
    if "cpu < length (pt_current t)" "pt_current t ! cpu = Some i" "r \<noteq> 0" for i
  proof -
    have i: "pi_state (pt_entries t ! i) = Running" "i < n"
      using pt_take_None_inv[OF assms, of cpu i] that D by auto
    have "pt_owned (pt_put i ((pt_entries t ! i)\<lparr>pi_resource := r\<rparr>) t)"
      using D(3) i unfolding pt_owned_def by (auto simp: nth_upd split: if_splits)
    with D i that show ?thesis
      unfolding pt_inv_def by (auto intro!: pt_shape_upd pt_ids_put)
  qed
  with assms show ?thesis
    by (auto simp: pt_replace_current_resource_on_def not_le split: option.splits)
qed

section \<open>Runs of the table\<close>

text \<open>Every operation that changes the table, as one step function.\<close>

datatype pt_op =
    OpSpawn nat nat
  | OpActivate nat nat
  | OpSchedule nat "process_info \<Rightarrow> bool"
  | OpBlock nat
  | OpWake nat
  | OpExit nat nat
  | OpTerminate nat nat
  | OpWait nat nat
  | OpReplace nat nat

fun pt_step :: "pt_op \<Rightarrow> process_table \<Rightarrow> process_table" where
  "pt_step (OpSpawn parent_pid r) t = snd (pt_spawn parent_pid r t)"
| "pt_step (OpActivate cpu p) t = snd (pt_activate_on cpu p t)"
| "pt_step (OpSchedule cpu el) t = snd (pt_schedule_next_where_on cpu el t)"
| "pt_step (OpBlock cpu) t = snd (pt_block_current_on cpu t)"
| "pt_step (OpWake p) t = snd (pt_wake p t)"
| "pt_step (OpExit cpu status) t = snd (pt_exit_current_on cpu status t)"
| "pt_step (OpTerminate p status) t = snd (pt_terminate p status t)"
| "pt_step (OpWait parent_pid p) t = snd (pt_wait parent_pid p t)"
| "pt_step (OpReplace cpu r) t = snd (pt_replace_current_resource_on cpu r t)"

lemma pt_step_inv: "pt_inv n t \<Longrightarrow> pt_inv n (pt_step a t)"
  by (cases a) (simp_all add: pt_spawn_inv pt_activate_inv pt_schedule_inv pt_block_inv
      pt_wake_inv pt_exit_inv pt_terminate_inv pt_wait_inv pt_replace_inv)

interpretation ptable: transition_system "pt_new n" pt_step "pt_inv n" for n
  by unfold_locales (simp_all add: pt_inv_new pt_step_inv)

text \<open>PIDs are issued in increasing order: no operation lowers the next one.\<close>

lemma pt_select_next_pid [simp]:
  "pt_next_pid (snd (pt_select el cpu start offs t)) = pt_next_pid t"
  by (cases rule: pt_select_cases[of el cpu start offs t]) simp_all

lemma pt_step_next_pid: "pt_next_pid t \<le> pt_next_pid (pt_step a t)"
  by (cases a)
    (auto simp: pt_spawn_def pt_activate_on_def pt_schedule_alt pt_resting_def pt_preempt_def
      pt_block_current_on_def pt_wake_def pt_exit_current_on_def pt_terminate_def pt_wait_def
      pt_replace_current_resource_on_def Let_def split: option.splits)

lemma pt_run_next_pid: "pt_inv n t \<Longrightarrow> pt_next_pid t \<le> pt_next_pid (fold pt_step ops t)"
  by (rule ptable.run_rel[where R = "\<lambda>s u. pt_next_pid s \<le> pt_next_pid u"])
    (auto intro: pt_step_next_pid order_trans)

lemma pt_get_iff:
  assumes "pt_inv n t"
  shows "pt_get p t = Some e \<longleftrightarrow>
    (\<exists>i < n. pt_entries t ! i = e \<and> pi_state e \<noteq> PEmpty \<and> pi_pid e = p)"
proof -
  note D = pt_invD[OF assms]
  have "p \<noteq> 0" if "i < n" "pi_state (pt_entries t ! i) \<noteq> PEmpty" "pi_pid (pt_entries t ! i) = p"
    for i using that D(2,4) by (auto simp: pt_ids_def pt_entry_ok_def split: if_splits)
  moreover have "pt_index t p = Some i"
    if "i < n" "pi_state (pt_entries t ! i) \<noteq> PEmpty" "pi_pid (pt_entries t ! i) = p" "p \<noteq> 0" for i
  proof -
    have "\<not> (pi_state (pt_entries t ! j) \<noteq> PEmpty \<and> pi_pid (pt_entries t ! j) = p)" if "j < i" for j
      using that \<open>i < n\<close> \<open>pi_state (pt_entries t ! i) \<noteq> PEmpty\<close> \<open>pi_pid (pt_entries t ! i) = p\<close>
        D(2,4) unfolding pt_ids_def by (metis order.strict_trans order.strict_implies_not_eq)
    with that D(4) show ?thesis by (simp add: pt_index_def position_SomeI)
  qed
  moreover have "pt_get p t = Some e \<Longrightarrow>
      \<exists>i < n. pt_entries t ! i = e \<and> pi_state e \<noteq> PEmpty \<and> pi_pid e = p"
    using D(4) by (auto simp: pt_get_def dest: pt_index_SomeD)
  ultimately show ?thesis by (auto simp: pt_get_def)
qed

text \<open>Where the scheduler finds a task that is ready, seen from the scan's start.\<close>

lemma pt_schedule_finds:
  assumes inv: "pt_inv n t" and c: "cpu < MAX_SCHEDULER_CPUS" and "d < n"
    and i: "i = (fst (pt_preempt cpu t) + d) mod n"
    and ready: "pi_state (pt_entries t ! i) = Ready"
  obtains off j where "off \<le> d" "j = (fst (pt_preempt cpu t) + off) mod n"
    "pt_current (snd (pt_schedule_next_on cpu t)) ! cpu = Some j"
    "pi_state (pt_entries (snd (pt_schedule_next_on cpu t)) ! i) = (if i = j then Running else Ready)"
proof -
  have n: "n \<noteq> 0" "i < n" using assms by auto
  let ?r = "pt_resting cpu t"
  note R = pt_resting_inv[OF inv c n(1)]
  have ri: "pi_state (pt_entries ?r ! i) = Ready"
    using ready n pt_invD(4)[OF inv]
    by (auto simp: pt_resting_def pt_preempt_def nth_upd split: option.splits)
  have alt: "pt_schedule_next_on cpu t
      = pt_select (\<lambda>_. True) cpu (fst (pt_preempt cpu t)) [0..<n] ?r"
    using c n pt_invD(4)[OF inv] by (auto simp: pt_schedule_next_on_def pt_schedule_alt)
  show ?thesis
  proof (cases rule: pt_select_cases
      [of "\<lambda>_. True" cpu "fst (pt_preempt cpu t)" "[0..<n]" ?r])
    case none
    with ri R i \<open>d < n\<close> show ?thesis by (auto simp: Let_def)
  next
    case (some pre off post j)
    from some(1) have pre: "pre = [0..<off]" and "off < n"
      by (auto dest: upt_split_at)
    have "off \<le> d"
    proof (rule ccontr)
      assume "\<not> off \<le> d"
      with pre have "d \<in> set pre" by simp
      with some(3) ri R i show False by (auto simp: Let_def)
    qed
    moreover have "j < n" using some(2) R n by simp
    ultimately show ?thesis
      using that[of off j] some R c ri n pt_invD(5)[OF R(1)] by (auto simp: alt nth_upd)
  qed
qed

lemma pt_schedule_start:
  assumes "pt_inv n t" "cpu < MAX_SCHEDULER_CPUS" "pt_current t ! cpu = Some j"
  shows "fst (pt_preempt cpu t) = (j + 1) mod n"
  using assms pt_invD(4)[OF assms(1)] by (simp add: pt_preempt_def)

section \<open>Properties\<close>

text \<open>C1: After any sequence of process-table operations on a new table of any capacity, live
  entries have distinct non-zero PIDs below the next PID, every task marked running is the
  current task of exactly one CPU and every CPU's current task is marked running, and all
  stored indices are in range.\<close>

theorem pt_reachable_inv: "pt_inv n (fold pt_step ops (pt_new n))"
  by (rule ptable.inv_reach)

text \<open>C20: Scheduling is round-robin: the CPU's own task is first put back to ready; the call then
  returns nothing exactly when no ready task is eligible, and otherwise starts the first
  eligible ready task at or after the position following the previous one, makes it the
  CPU's current task, and changes no other entry.\<close>

theorem pt_schedule_round_robin:
  fixes el :: "process_info \<Rightarrow> bool"
  assumes inv: "pt_inv n t" and c: "cpu < MAX_SCHEDULER_CPUS" and n: "n \<noteq> 0"
  defines "t' \<equiv> snd (pt_schedule_next_where_on cpu el t)"
    and "start \<equiv> (case pt_current t ! cpu of Some j \<Rightarrow> (j + 1) mod n | None \<Rightarrow> pt_cursor t ! cpu)"
    and "waiting \<equiv> (\<lambda>i. if pt_current t ! cpu = Some i
           then (pt_entries t ! i)\<lparr>pi_state := Ready\<rparr> else pt_entries t ! i)"
  shows "case fst (pt_schedule_next_where_on cpu el t) of
      None \<Rightarrow> (\<forall>i < n. \<not> (pi_state (waiting i) = Ready \<and> el (waiting i)))
        \<and> pt_current t' ! cpu = None \<and> (\<forall>i < n. pt_entries t' ! i = waiting i)
    | Some e \<Rightarrow> \<exists>d < n. let i = (start + d) mod n in
        pi_state (waiting i) = Ready \<and> el (waiting i)
        \<and> (\<forall>d' < d. let k = (start + d') mod n in \<not> (pi_state (waiting k) = Ready \<and> el (waiting k)))
        \<and> e = (waiting i)\<lparr>pi_state := Running\<rparr> \<and> pt_current t' ! cpu = Some i
        \<and> (\<forall>k < n. pt_entries t' ! k = (if k = i then e else waiting k))"
proof -
  let ?r = "pt_resting cpu t"
  note D = pt_invD[OF inv] and R = pt_resting_inv[OF inv c n]
  have start: "fst (pt_preempt cpu t) = start"
    unfolding start_def using D by (simp add: pt_preempt_def split: option.splits)
  have sched: "pt_schedule_next_where_on cpu el t = pt_select el cpu start [0..<n] ?r"
    using c n D by (auto simp: pt_schedule_alt start)
  have w: "pt_entries ?r ! i = waiting i" if "i < n" for i
    using that D pt_take_None_inv[OF inv c]
    by (auto simp: waiting_def pt_resting_def pt_preempt_def nth_upd split: option.splits)
  show ?thesis
  proof (cases rule: pt_select_cases[of el cpu start "[0..<n]" ?r])
    case none
    have "\<not> (pi_state (waiting i) = Ready \<and> el (waiting i))" if i: "i < n" for i
    proof -
      have "start < n" using pt_released(2)[OF inv c n] start by simp
      then have "(start + (n - start + i) mod n) mod n = i" using i by (simp add: mod_simps)
      moreover have "(n - start + i) mod n \<in> set [0..<n]" using n by simp
      ultimately show ?thesis using none(2) R w[OF i] unfolding Let_def by metis
    qed
    with none show ?thesis using R w by (simp add: t'_def sched)
  next
    case (some pre off post i)
    then have pre: "pre = [0..<off]" and off: "off < n" by (auto dest: upt_split_at)
    have i: "i = (start + off) mod n" "i < n" using some(2) R n by auto
    have t': "t' = pt_set_cursor cpu ((i + 1) mod n)
        (pt_set_current cpu (Some i) (pt_set_state i Running ?r))"
      using some R by (simp add: t'_def sched)
    have fst: "fst (pt_schedule_next_where_on cpu el t) = Some ((waiting i)\<lparr>pi_state := Running\<rparr>)"
      using some(6,7) R i w[OF i(2)] by (simp add: sched)
    have "\<not> (pi_state (waiting ((start + d') mod n)) = Ready \<and> el (waiting ((start + d') mod n)))"
      if "d' < off" for d' using some(3) that pre R w n by (auto simp: Let_def)
    then show ?thesis
      using i off some(4,5) w R c pt_invD(5)[OF R(1)]
      by (auto simp: fst t' nth_upd Let_def intro!: exI[of _ off])
  qed
qed

text \<open>C23: No ready task starves: if one CPU keeps calling the scheduler, every ready task becomes
  that CPU's current task within as many calls as the table has entries.\<close>

theorem pt_no_starvation:
  assumes "pt_inv n t" "cpu < MAX_SCHEDULER_CPUS" "i < n" "pi_state (pt_entries t ! i) = Ready"
  shows "\<exists>k. 0 < k \<and> k \<le> n
    \<and> pt_current (((\<lambda>s. snd (pt_schedule_next_on cpu s)) ^^ k) t) ! cpu = Some i"
proof -
  let ?next = "\<lambda>s. snd (pt_schedule_next_on cpu s)"
  have step: "\<exists>k. 0 < k \<and> k \<le> Suc d \<and> pt_current ((?next ^^ k) t) ! cpu = Some i"
    if "pt_inv n t" "d < n" "i = (fst (pt_preempt cpu t) + d) mod n"
      "pi_state (pt_entries t ! i) = Ready" for d t
    using that
  proof (induction d arbitrary: t rule: less_induct)
    case (less d)
    from pt_schedule_finds[OF less.prems(1) assms(2) less.prems(2,3,4)]
    obtain off j where f: "off \<le> d" "j = (fst (pt_preempt cpu t) + off) mod n"
      "pt_current (?next t) ! cpu = Some j"
      "pi_state (pt_entries (?next t) ! i) = (if i = j then Running else Ready)" by metis
    show ?case
    proof (cases "i = j")
      case True
      with f show ?thesis by (auto intro!: exI[of _ 1])
    next
      case False
      then have "off < d" using f(1,2) less.prems(3) by (cases "off = d") auto
      have inv': "pt_inv n (?next t)"
        unfolding pt_schedule_next_on_def by (rule pt_schedule_inv[OF less.prems(1)])
      obtain m where m: "d = Suc (off + m)" using \<open>off < d\<close> less_imp_Suc_add by blast
      then have "i = (fst (pt_preempt cpu (?next t)) + m) mod n"
        unfolding pt_schedule_start[OF inv' assms(2) f(3)]
        using less.prems(3) f(2) by (simp add: mod_simps add.assoc)
      from less.IH[OF _ inv' _ this] obtain k where
        "0 < k" "k \<le> Suc m" "pt_current ((?next ^^ k) (?next t)) ! cpu = Some i"
        using less.prems(2) f(4) False m by auto
      then show ?thesis
        using m by (intro exI[of _ "Suc k"]) (simp del: funpow.simps add: funpow_Suc_right)
    qed
  qed
  have start: "fst (pt_preempt cpu t) < n"
    using pt_released(2)[OF assms(1,2)] assms(3) by simp
  let ?d = "(n - fst (pt_preempt cpu t) + i) mod n"
  have "i = (fst (pt_preempt cpu t) + ?d) mod n" "?d < n"
    using start assms(3) by (simp_all add: mod_simps)
  from step[OF assms(1) this(2,1) assms(4)] show ?thesis
    using \<open>?d < n\<close> by (meson Suc_leI order_trans)
qed

text \<open>C27: Reaping is exact and final: a successful wait returns the PID asked for with the resource
  and status of a zombie child of the caller, afterwards the PID is unknown while every
  other process is as before, and whatever happens later no new process gets that PID.\<close>

theorem pt_reap_final:
  assumes inv: "pt_inv n t" and reaped: "pt_wait parent p t = (Reaped q r status, t')"
  shows "q = p \<and> (\<exists>e. pt_get p t = Some e \<and> pi_state e = Zombie \<and> pi_parent_pid e = parent
      \<and> pi_resource e = r \<and> pi_exit_status e = status)
    \<and> pt_get p t' = None \<and> (\<forall>p'. p' \<noteq> p \<longrightarrow> pt_get p' t' = pt_get p' t)
    \<and> (\<forall>ops pp res p'. fst (pt_spawn pp res (fold pt_step ops t')) = Inr p' \<longrightarrow> p' \<noteq> p)"
proof -
  note D = pt_invD[OF inv]
  from reaped obtain i where i: "pt_index t p = Some i"
    and e: "pi_parent_pid (pt_entries t ! i) = parent" "pi_state (pt_entries t ! i) = Zombie"
      "q = pi_pid (pt_entries t ! i)" "r = pi_resource (pt_entries t ! i)"
      "status = pi_exit_status (pt_entries t ! i)" "t' = pt_put i PROCESS_INFO_EMPTY t"
    by (auto simp: pt_wait_def Let_def split: option.splits if_splits)
  note I = pt_index_SomeD[OF i]
  have inv': "pt_inv n t'" using pt_wait_inv[OF inv, of parent p] reaped by simp
  have "pt_get p' t' = Some x \<longleftrightarrow> pt_get p' t = Some x \<and> p' \<noteq> p" for p' x
    unfolding pt_get_iff[OF inv] pt_get_iff[OF inv'] using I D(2,4) e(6)
    by (auto simp: nth_upd pt_ids_def split: if_splits)
  then have "pt_get p' t' = Some x \<longleftrightarrow> (if p' = p then None else pt_get p' t) = Some x" for p' x
    by auto
  then have get: "pt_get p' t' = (if p' = p then None else pt_get p' t)" for p'
    by (rule option_ext)
  have "p < pt_next_pid t'" using I D(2,4) e(6) by (auto simp: pt_ids_def pt_entry_ok_def)
  then have "p' \<noteq> p" if "fst (pt_spawn pp res (fold pt_step ops t')) = Inr p'" for ops pp res p'
    using that pt_run_next_pid[OF inv', of ops]
    by (auto simp: pt_spawn_def split: if_splits option.splits)
  moreover have "\<exists>x. pt_get p t = Some x \<and> pi_state x = Zombie \<and> pi_parent_pid x = parent
      \<and> pi_resource x = r \<and> pi_exit_status x = status"
    using e i by (auto simp: pt_get_def)
  ultimately show ?thesis using get I e by auto
qed

text \<open>Exit meets wait: when the current task of a CPU exits with a status, the CPU is idle, and its
  parent's wait on its PID returns its resource and exactly that status.\<close>

theorem pt_exit_wait:
  assumes inv: "pt_inv n t" and ex: "pt_exit_current_on cpu status t = (Some e, t')"
  shows "pt_current_pid_on cpu t = Some (pi_pid e) \<and> pt_current_pid_on cpu t' = None
    \<and> fst (pt_wait (pi_parent_pid e) (pi_pid e) t') = Reaped (pi_pid e) (pi_resource e) status"
proof -
  note D = pt_invD[OF inv]
  from ex obtain i where c: "cpu < MAX_SCHEDULER_CPUS" and i: "pt_current t ! cpu = Some i"
    and t': "t' = pt_bury i status (pt_set_current cpu None t)" and e: "e = pt_entries t' ! i"
    using D by (auto simp: pt_exit_current_on_def Let_def not_le split: option.splits if_splits)
  note I = pt_take_None_inv[OF inv c i]
  have inv': "pt_inv n t'" using pt_exit_inv[OF inv, of cpu status] ex by simp
  have e': "e = (pt_entries t ! i)\<lparr>pi_state := Zombie, pi_exit_status := status\<rparr>"
    using e t' I D by simp
  have "pt_get (pi_pid e) t' = Some e"
    unfolding pt_get_iff[OF inv'] using e e' I D t' by auto
  then obtain j where "pt_index t' (pi_pid e) = Some j" "pt_entries t' ! j = e"
    by (auto simp: pt_get_def)
  with e' t' i c D I show ?thesis
    by (auto simp: pt_wait_def Let_def pt_current_pid_on_def)
qed

section \<open>Witnesses\<close>

text \<open>A table of three with PID 1 current on CPU 0 and PID 2 ready.\<close>

definition pt_task :: "nat \<Rightarrow> nat \<Rightarrow> process_state \<Rightarrow> nat \<Rightarrow> process_info" where
  "pt_task p parent st r = \<lparr>pi_pid = p, pi_parent_pid = parent, pi_state = st,
     pi_resource = r, pi_exit_status = 0\<rparr>"

definition pt_sample :: process_table where
  "pt_sample = fold pt_step [OpSpawn 0 7, OpSpawn 1 8, OpActivate 0 1] (pt_new 3)"

lemma pt_sample_inv: "pt_inv 3 pt_sample"
  unfolding pt_sample_def by (rule ptable.inv_reach)

lemma pt_sample_1: "pt_step (OpSpawn 0 7) (pt_new 3) =
  (pt_new 3)\<lparr>pt_entries := [pt_task 1 0 Ready 7, PROCESS_INFO_EMPTY, PROCESS_INFO_EMPTY],
    pt_next_pid := 2\<rparr>"
  by (simp add: pt_new_def pt_spawn_def checked_add_def numeral_3_eq_3 pt_put_def pt_task_def)

lemma pt_sample_2: "pt_step (OpSpawn 1 8) (pt_step (OpSpawn 0 7) (pt_new 3)) =
  (pt_new 3)\<lparr>pt_entries := [pt_task 1 0 Ready 7, pt_task 2 1 Ready 8, PROCESS_INFO_EMPTY],
    pt_next_pid := 3\<rparr>"
  unfolding pt_sample_1
  by (simp add: pt_new_def pt_spawn_def checked_add_def pt_put_def pt_task_def)

lemma pt_sample_3: "pt_sample = (pt_new 3)\<lparr>
    pt_entries := [pt_task 1 0 Running 7, pt_task 2 1 Ready 8, PROCESS_INFO_EMPTY],
    pt_current := (replicate MAX_SCHEDULER_CPUS None)[0 := Some 0],
    pt_cursor := (replicate MAX_SCHEDULER_CPUS 0)[0 := 1], pt_next_pid := 3\<rparr>"
proof -
  have "pt_sample = pt_step (OpActivate 0 1) (pt_step (OpSpawn 1 8) (pt_step (OpSpawn 0 7) (pt_new 3)))"
    by (simp add: pt_sample_def)
  then show ?thesis
    unfolding pt_sample_2
    by (simp add: pt_new_def pt_activate_on_def pt_index_def pt_task_def pt_update_defs
        MAX_SCHEDULER_CPUS_def del: replicate.simps)
qed

lemma pt_sample_entries: "pt_size pt_sample = 3"
  "pi_state (pt_entries pt_sample ! 1) = Ready" "pt_current pt_sample ! 0 = Some 0"
  "pi_state (pt_entries pt_sample ! 0) = Running" "pi_parent_pid (pt_entries pt_sample ! 0) = 0"
  "pi_pid (pt_entries pt_sample ! 0) = 1" "length (pt_current pt_sample) = 64"
  by (simp_all add: pt_sample_3 pt_task_def MAX_SCHEDULER_CPUS_def)

theorem pt_schedule_round_robin_witness:
  "\<exists>t. pt_inv 3 t \<and> fst (pt_schedule_next_where_on 0 (\<lambda>_. True) t) \<noteq> None"
proof (intro exI conjI)
  show "pt_inv 3 pt_sample" by (rule pt_sample_inv)
  show "fst (pt_schedule_next_where_on 0 (\<lambda>_. True) pt_sample) \<noteq> None"
  proof
    assume "fst (pt_schedule_next_where_on 0 (\<lambda>_. True) pt_sample) = None"
    with pt_schedule_round_robin[OF pt_sample_inv, of 0 "\<lambda>_. True"]
    have "\<forall>i < 3. pi_state (if pt_current pt_sample ! 0 = Some i
      then (pt_entries pt_sample ! i)\<lparr>pi_state := Ready\<rparr> else pt_entries pt_sample ! i) \<noteq> Ready"
      by (simp add: MAX_SCHEDULER_CPUS_def)
    then show False using pt_sample_entries by (auto dest: spec[of _ 1])
  qed
qed

theorem pt_no_starvation_witness:
  "\<exists>k. 0 < k \<and> k \<le> 3
    \<and> pt_current (((\<lambda>s. snd (pt_schedule_next_on 0 s)) ^^ k) pt_sample) ! 0 = Some 1"
proof (rule pt_no_starvation[OF pt_sample_inv])
  show "0 < MAX_SCHEDULER_CPUS" "1 < (3::nat)" by (simp_all add: MAX_SCHEDULER_CPUS_def)
  show "pi_state (pt_entries pt_sample ! 1) = Ready" by (rule pt_sample_entries)
qed

lemma pt_sample_exit:
  "\<exists>e t'. pt_exit_current_on 0 9 pt_sample = (Some e, t') \<and> pi_pid e = 1 \<and> pi_parent_pid e = 0"
  using pt_sample_entries by (simp add: pt_exit_current_on_def Let_def)

theorem pt_exit_wait_witness:
  "\<exists>e t'. pt_exit_current_on 0 9 pt_sample = (Some e, t')
    \<and> fst (pt_wait 0 1 t') = Reaped 1 (pi_resource e) 9"
  using pt_sample_exit pt_exit_wait[OF pt_sample_inv, of 0 9] by metis

theorem pt_reap_final_witness:
  "\<exists>r t'. pt_wait 0 1 (pt_step (OpExit 0 9) pt_sample) = (Reaped 1 r 9, t') \<and> pt_get 1 t' = None"
proof -
  let ?t = "pt_step (OpExit 0 9) pt_sample"
  have inv: "pt_inv 3 ?t" by (rule pt_step_inv) (rule pt_sample_inv)
  obtain r t' where w: "pt_wait 0 1 ?t = (Reaped 1 r 9, t')"
    by (simp add: pt_wait_def pt_exit_current_on_def pt_index_def pt_sample_3 pt_task_def
        MAX_SCHEDULER_CPUS_def Let_def)
  from pt_reap_final[OF inv w] w show ?thesis by blast
qed

end
