(* ===== verification/Futex.thy ===== *)
theory Futex
  imports Prelude
begin

text \<open>
  The futex wait queue of \<open>src/crates/futex/src/lib.rs\<close>: a fixed array of waiter slots, the
  waiting ones threaded on an intrusive singly linked FIFO. Callbacks are the list of
  (task, handle) pairs they are called with, in order. A \<open>while let\<close> walk along the links may
  meet a bad index (a panic) or a cycle (no return): both are \<^const>\<open>None\<close>, and the theorems show
  they never happen.
\<close>

unbundle bit_operations_syntax

section \<open>State\<close>

record futex_key =
  fk_address_space :: nat
  fk_address :: nat

definition fk_is_aligned :: "futex_key \<Rightarrow> bool" where
  "fk_is_aligned k \<longleftrightarrow> fk_address k AND 3 = 0"

record task_id =
  tid_process :: nat
  tid_thread :: nat

record wait_handle =
  wh_slot :: nat
  wh_generation :: nat

datatype waiter_state = WaiterWaiting | WaiterWoken | WaiterTimedOut | WaiterCancelled

datatype wait_outcome = OutcomeWoken | OutcomeTimedOut | OutcomeCancelled

datatype wait_error =
  WaitUnalignedAddress | ValueMismatch | DeadlineExpired | AlreadyWaiting | WaitQueueFull

datatype wake_error = WakeUnalignedAddress

datatype requeue_error = RequeueUnalignedAddress | SameKey

datatype handle_error = InvalidOrStale

datatype slot_state = SFree | SWaiting | SWoken | STimedOut | SCancelled

record futex_slot =
  fs_generation :: nat
  fs_state :: slot_state
  fs_key :: futex_key
  fs_task :: task_id
  fs_deadline :: "nat option"
  fs_next :: "nat option"

definition SLOT_EMPTY :: futex_slot where
  "SLOT_EMPTY = \<lparr>fs_generation = 0, fs_state = SFree,
     fs_key = \<lparr>fk_address_space = 0, fk_address = 0\<rparr>,
     fs_task = \<lparr>tid_process = 0, tid_thread = 0\<rparr>, fs_deadline = None, fs_next = None\<rparr>"

record futex_table =
  ft_slots :: "futex_slot list"
  ft_head :: "nat option"
  ft_tail :: "nat option"
  ft_occupied :: nat
  ft_waiting :: nat

definition fx_new :: "nat \<Rightarrow> futex_table" where
  "fx_new n = \<lparr>ft_slots = replicate n SLOT_EMPTY, ft_head = None, ft_tail = None,
     ft_occupied = 0, ft_waiting = 0\<rparr>"

type_synonym callbacks = "(task_id \<times> wait_handle) list"

section \<open>Operations\<close>

definition fx_put :: "nat \<Rightarrow> futex_slot \<Rightarrow> futex_table \<Rightarrow> futex_table" where
  "fx_put i s t = t\<lparr>ft_slots := (ft_slots t)[i := s]\<rparr>"

definition fx_handle :: "futex_table \<Rightarrow> nat \<Rightarrow> wait_handle" where
  "fx_handle t i = \<lparr>wh_slot = i, wh_generation = fs_generation (ft_slots t ! i)\<rparr>"

definition fx_wait ::
    "futex_key \<Rightarrow> task_id \<Rightarrow> nat \<Rightarrow> nat \<Rightarrow> nat \<Rightarrow> nat option \<Rightarrow> futex_table
     \<Rightarrow> (wait_error, wait_handle) result \<times> futex_table" where
  "fx_wait key task observed expected now deadline t =
     (if \<not> fk_is_aligned key then (Inl WaitUnalignedAddress, t)
      else if observed \<noteq> expected then (Inl ValueMismatch, t)
      else if (case deadline of None \<Rightarrow> False | Some v \<Rightarrow> v \<le> now) then (Inl DeadlineExpired, t)
      else if list_ex (\<lambda>s. fs_state s \<noteq> SFree \<and> fs_task s = task) (ft_slots t)
      then (Inl AlreadyWaiting, t)
      else case position (\<lambda>s. fs_state s = SFree) (ft_slots t) of
        None \<Rightarrow> (Inl WaitQueueFull, t)
      | Some index \<Rightarrow>
          let generation = wrapping_add (fs_generation (ft_slots t ! index)) 1;
              t1 = fx_put index \<lparr>fs_generation = generation, fs_state = SWaiting, fs_key = key,
                     fs_task = task, fs_deadline = deadline, fs_next = None\<rparr> t;
              t2 = (case ft_tail t1 of
                      Some tail \<Rightarrow> fx_put tail ((ft_slots t1 ! tail)\<lparr>fs_next := Some index\<rparr>) t1
                    | None \<Rightarrow> t1\<lparr>ft_head := Some index\<rparr>);
              t3 = t2\<lparr>ft_tail := Some index, ft_occupied := ft_occupied t2 + 1,
                      ft_waiting := ft_waiting t2 + 1\<rparr>
          in (Inr \<lparr>wh_slot = index, wh_generation = generation\<rparr>, t3))"

definition fx_unlink :: "nat option \<Rightarrow> nat \<Rightarrow> nat option \<Rightarrow> futex_table \<Rightarrow> futex_table" where
  "fx_unlink previous index nxt t =
     (let t1 = (case previous of
                  Some prev \<Rightarrow> fx_put prev ((ft_slots t ! prev)\<lparr>fs_next := nxt\<rparr>) t
                | None \<Rightarrow> t\<lparr>ft_head := nxt\<rparr>)
      in if ft_tail t1 = Some index then t1\<lparr>ft_tail := previous\<rparr> else t1)"

text \<open>The completion sequence that \<open>wake\<close>, \<open>requeue\<close> and \<open>expire\<close> repeat: unlink, set the
  terminal state, clear deadline and link, count down.\<close>

definition fx_complete ::
    "nat option \<Rightarrow> nat \<Rightarrow> nat option \<Rightarrow> slot_state \<Rightarrow> futex_table \<Rightarrow> futex_table" where
  "fx_complete previous index nxt st t =
     (let t1 = fx_unlink previous index nxt t;
          t2 = fx_put index ((ft_slots t1 ! index)
                 \<lparr>fs_state := st, fs_deadline := None, fs_next := None\<rparr>) t1
      in t2\<lparr>ft_waiting := ft_waiting t2 - 1\<rparr>)"

partial_function (option) fx_wake_loop ::
    "futex_key \<Rightarrow> nat \<Rightarrow> nat \<Rightarrow> nat option \<Rightarrow> nat option \<Rightarrow> callbacks \<Rightarrow> futex_table
     \<Rightarrow> (nat \<times> callbacks \<times> futex_table) option" where
  "fx_wake_loop key maximum count previous current out t =
     (case current of
        None \<Rightarrow> Some (count, out, t)
      | Some index \<Rightarrow>
          if length (ft_slots t) \<le> index then None
          else let nxt = fs_next (ft_slots t ! index) in
            if count < maximum \<and> fs_key (ft_slots t ! index) = key
            then let t' = fx_complete previous index nxt SWoken t in
              fx_wake_loop key maximum (count + 1) previous nxt
                (out @ [(fs_task (ft_slots t' ! index), fx_handle t' index)]) t'
            else fx_wake_loop key maximum count (Some index) nxt out t)"

definition fx_wake ::
    "futex_key \<Rightarrow> nat \<Rightarrow> futex_table
     \<Rightarrow> ((wake_error, nat) result \<times> callbacks \<times> futex_table) option" where
  "fx_wake key maximum t =
     (if \<not> fk_is_aligned key then Some (Inl WakeUnalignedAddress, [], t)
      else map_option (\<lambda>(count, out, t'). (Inr count, out, t'))
             (fx_wake_loop key maximum 0 None (ft_head t) [] t))"

partial_function (option) fx_requeue_loop ::
    "futex_key \<Rightarrow> futex_key \<Rightarrow> nat \<Rightarrow> nat \<Rightarrow> nat \<Rightarrow> nat \<Rightarrow> nat option \<Rightarrow> nat option \<Rightarrow> callbacks
     \<Rightarrow> futex_table \<Rightarrow> (nat \<times> nat \<times> callbacks \<times> futex_table) option" where
  "fx_requeue_loop source target wake_limit requeue_limit woken requeued previous current out t =
     (case current of
        None \<Rightarrow> Some (woken, requeued, out, t)
      | Some index \<Rightarrow>
          if length (ft_slots t) \<le> index then None
          else let nxt = fs_next (ft_slots t ! index) in
            if fs_key (ft_slots t ! index) = source \<and> woken < wake_limit
            then let t' = fx_complete previous index nxt SWoken t in
              fx_requeue_loop source target wake_limit requeue_limit (woken + 1) requeued
                previous nxt (out @ [(fs_task (ft_slots t' ! index), fx_handle t' index)]) t'
            else if fs_key (ft_slots t ! index) = source \<and> requeued < requeue_limit
            then fx_requeue_loop source target wake_limit requeue_limit woken (requeued + 1)
                (Some index) nxt out (fx_put index ((ft_slots t ! index)\<lparr>fs_key := target\<rparr>) t)
            else fx_requeue_loop source target wake_limit requeue_limit woken requeued
                (Some index) nxt out t)"

definition fx_requeue ::
    "futex_key \<Rightarrow> futex_key \<Rightarrow> nat \<Rightarrow> nat \<Rightarrow> futex_table
     \<Rightarrow> ((requeue_error, nat \<times> nat) result \<times> callbacks \<times> futex_table) option" where
  "fx_requeue source target wake_limit requeue_limit t =
     (if \<not> fk_is_aligned source \<or> \<not> fk_is_aligned target
      then Some (Inl RequeueUnalignedAddress, [], t)
      else if source = target then Some (Inl SameKey, [], t)
      else map_option (\<lambda>(woken, requeued, out, t'). (Inr (woken, requeued), out, t'))
             (fx_requeue_loop source target wake_limit requeue_limit 0 0 None (ft_head t) [] t))"

partial_function (option) fx_expire_loop ::
    "nat \<Rightarrow> nat \<Rightarrow> nat option \<Rightarrow> nat option \<Rightarrow> callbacks \<Rightarrow> futex_table
     \<Rightarrow> (nat \<times> callbacks \<times> futex_table) option" where
  "fx_expire_loop now count previous current out t =
     (case current of
        None \<Rightarrow> Some (count, out, t)
      | Some index \<Rightarrow>
          if length (ft_slots t) \<le> index then None
          else let nxt = fs_next (ft_slots t ! index) in
            if (case fs_deadline (ft_slots t ! index) of None \<Rightarrow> False | Some d \<Rightarrow> d \<le> now)
            then let t' = fx_complete previous index nxt STimedOut t in
              fx_expire_loop now (count + 1) previous nxt
                (out @ [(fs_task (ft_slots t' ! index), fx_handle t' index)]) t'
            else fx_expire_loop now count (Some index) nxt out t)"

definition fx_expire :: "nat \<Rightarrow> futex_table \<Rightarrow> (nat \<times> callbacks \<times> futex_table) option" where
  "fx_expire now t = fx_expire_loop now 0 None (ft_head t) [] t"

definition fx_validate :: "futex_table \<Rightarrow> wait_handle \<Rightarrow> (handle_error, nat) result" where
  "fx_validate t h =
     (if length (ft_slots t) \<le> wh_slot h then Inl InvalidOrStale
      else if fs_state (ft_slots t ! wh_slot h) = SFree
              \<or> fs_generation (ft_slots t ! wh_slot h) \<noteq> wh_generation h
      then Inl InvalidOrStale else Inr (wh_slot h))"

partial_function (option) fx_unlink_loop ::
    "nat \<Rightarrow> nat option \<Rightarrow> nat option \<Rightarrow> futex_table \<Rightarrow> futex_table option" where
  "fx_unlink_loop target previous current t =
     (case current of
        None \<Rightarrow> Some t
      | Some index \<Rightarrow>
          if length (ft_slots t) \<le> index then None
          else let nxt = fs_next (ft_slots t ! index) in
            if index = target then Some (fx_unlink previous index nxt t)
            else fx_unlink_loop target (Some index) nxt t)"

definition fx_unlink_index :: "nat \<Rightarrow> futex_table \<Rightarrow> futex_table option" where
  "fx_unlink_index target t = fx_unlink_loop target None (ft_head t) t"

definition fx_cancel ::
    "wait_handle \<Rightarrow> futex_table \<Rightarrow> ((handle_error, bool) result \<times> futex_table) option" where
  "fx_cancel h t =
     (case fx_validate t h of
        Inl e \<Rightarrow> Some (Inl e, t)
      | Inr index \<Rightarrow>
          if fs_state (ft_slots t ! index) \<noteq> SWaiting then Some (Inr False, t)
          else map_option (\<lambda>t1.
            let t2 = fx_put index ((ft_slots t1 ! index)
                  \<lparr>fs_state := SCancelled, fs_deadline := None\<rparr>) t1
            in (Inr True, t2\<lparr>ft_waiting := ft_waiting t2 - 1\<rparr>)) (fx_unlink_index index t))"

definition fx_cancel_task ::
    "task_id \<Rightarrow> futex_table \<Rightarrow> (wait_handle option \<times> futex_table) option" where
  "fx_cancel_task task t =
     (case position (\<lambda>s. fs_state s = SWaiting \<and> fs_task s = task) (ft_slots t) of
        None \<Rightarrow> Some (None, t)
      | Some index \<Rightarrow>
          map_option (\<lambda>(r, t'). (if r = Inr True then Some (fx_handle t index) else None, t'))
            (fx_cancel (fx_handle t index) t))"

definition fx_release :: "nat \<Rightarrow> futex_table \<Rightarrow> futex_table" where
  "fx_release index t =
     (let t1 = fx_put index (SLOT_EMPTY\<lparr>fs_generation := fs_generation (ft_slots t ! index)\<rparr>) t
      in t1\<lparr>ft_occupied := ft_occupied t1 - 1\<rparr>)"

text \<open>The body of the \<open>process_exit\<close> loop for one slot, and the loop over \<open>0..N\<close>.\<close>

definition fx_exit_slot ::
    "nat \<Rightarrow> nat \<Rightarrow> nat \<times> futex_table \<Rightarrow> (nat \<times> futex_table) option" where
  "fx_exit_slot process index ct =
     (case ct of (count, t) \<Rightarrow>
        if fs_state (ft_slots t ! index) \<noteq> SFree
           \<and> tid_process (fs_task (ft_slots t ! index)) = process
        then Option.bind
          (if fs_state (ft_slots t ! index) = SWaiting
           then map_option (\<lambda>t1. t1\<lparr>ft_waiting := ft_waiting t1 - 1\<rparr>) (fx_unlink_index index t)
           else Some t)
          (\<lambda>t2. Some (count + 1, fx_release index t2))
        else Some (count, t))"

definition fx_process_exit :: "nat \<Rightarrow> futex_table \<Rightarrow> (nat \<times> futex_table) option" where
  "fx_process_exit process t =
     run_steps (fx_exit_slot process) [0..<length (ft_slots t)] (0, t)"

definition fx_state ::
    "wait_handle \<Rightarrow> futex_table \<Rightarrow> (handle_error, waiter_state) result" where
  "fx_state h t =
     (case fx_validate t h of
        Inl e \<Rightarrow> Inl e
      | Inr index \<Rightarrow>
          (case fs_state (ft_slots t ! index) of
             SFree \<Rightarrow> Inl InvalidOrStale
           | SWaiting \<Rightarrow> Inr WaiterWaiting
           | SWoken \<Rightarrow> Inr WaiterWoken
           | STimedOut \<Rightarrow> Inr WaiterTimedOut
           | SCancelled \<Rightarrow> Inr WaiterCancelled))"

definition fx_key :: "wait_handle \<Rightarrow> futex_table \<Rightarrow> (handle_error, futex_key) result" where
  "fx_key h t =
     (case fx_validate t h of
        Inl e \<Rightarrow> Inl e
      | Inr index \<Rightarrow> Inr (fs_key (ft_slots t ! index)))"

definition fx_take_outcome ::
    "wait_handle \<Rightarrow> futex_table \<Rightarrow> (handle_error, wait_outcome option) result \<times> futex_table" where
  "fx_take_outcome h t =
     (case fx_validate t h of
        Inl e \<Rightarrow> (Inl e, t)
      | Inr index \<Rightarrow>
          (case fs_state (ft_slots t ! index) of
             SFree \<Rightarrow> (Inl InvalidOrStale, t)
           | SWaiting \<Rightarrow> (Inr None, t)
           | SWoken \<Rightarrow> (Inr (Some OutcomeWoken), fx_release index t)
           | STimedOut \<Rightarrow> (Inr (Some OutcomeTimedOut), fx_release index t)
           | SCancelled \<Rightarrow> (Inr (Some OutcomeCancelled), fx_release index t)))"

definition fx_capacity :: "futex_table \<Rightarrow> nat" where
  "fx_capacity t = length (ft_slots t)"

section \<open>The linked queue\<close>

text \<open>\<open>fx_seg ss h xs e\<close>: following the links from \<open>h\<close> visits \<open>xs\<close> and ends at link \<open>e\<close>.\<close>

fun fx_seg :: "futex_slot list \<Rightarrow> nat option \<Rightarrow> nat list \<Rightarrow> nat option \<Rightarrow> bool" where
  "fx_seg ss h [] e = (h = e)"
| "fx_seg ss h (x # xs) e = (h = Some x \<and> x < length ss \<and> fx_seg ss (fs_next (ss ! x)) xs e)"

definition prev_of :: "nat list \<Rightarrow> nat option" where
  "prev_of xs = (if xs = [] then None else Some (last xs))"

definition head_of :: "nat list \<Rightarrow> nat option" where
  "head_of xs = (if xs = [] then None else Some (hd xs))"

lemma prev_of_simps [simp]: "prev_of [] = None" "prev_of (xs @ [x]) = Some x"
  by (simp_all add: prev_of_def)

lemma head_of_simps [simp]: "head_of [] = None" "head_of (x # xs) = Some x"
  by (simp_all add: head_of_def)

lemma fx_seg_append: "fx_seg ss h (xs @ ys) e \<longleftrightarrow> (\<exists>m. fx_seg ss h xs m \<and> fx_seg ss m ys e)"
  by (induction xs arbitrary: h) auto

lemma fx_seg_head: "fx_seg ss h xs None \<Longrightarrow> h = head_of xs"
  by (cases xs) auto

lemma fx_seg_frame: "i \<notin> set xs \<Longrightarrow> fx_seg (ss[i := s]) h xs e = fx_seg ss h xs e"
  by (induction xs arbitrary: h) (auto simp: nth_upd)

lemma fx_seg_same_next:
  "fs_next s = fs_next (ss ! i) \<Longrightarrow> fx_seg (ss[i := s]) h xs e = fx_seg ss h xs e"
  by (induction xs arbitrary: h) (auto simp: nth_upd)

lemma fx_seg_range: "fx_seg ss h xs e \<Longrightarrow> set xs \<subseteq> {..<length ss}"
  by (induction xs arbitrary: h) auto

lemma fx_seg_relink:
  assumes "fx_seg ss h (xs @ [l]) e" "l \<notin> set xs" "fs_next s = e'"
  shows "fx_seg (ss[l := s]) h (xs @ [l]) e'"
  using assms by (auto simp: fx_seg_append fx_seg_frame)

definition fx_links :: "nat list \<Rightarrow> futex_table \<Rightarrow> bool" where
  "fx_links q t \<longleftrightarrow> fx_seg (ft_slots t) (ft_head t) q None \<and> distinct q \<and> ft_tail t = prev_of q"

text \<open>A slot without its link: unlinking changes links only.\<close>

definition fx_strip :: "futex_slot \<Rightarrow> futex_slot" where
  "fx_strip s = s\<lparr>fs_next := None\<rparr>"

lemma fx_strip_simps [simp]:
  "fs_generation (fx_strip s) = fs_generation s" "fs_state (fx_strip s) = fs_state s"
  "fs_key (fx_strip s) = fs_key s" "fs_task (fx_strip s) = fs_task s"
  "fs_deadline (fx_strip s) = fs_deadline s" "fx_strip (fs_next_update f s) = fx_strip s"
  "fx_strip (fs_state_update g s) = fs_state_update g (fx_strip s)"
  "fx_strip (fs_deadline_update d s) = fs_deadline_update d (fx_strip s)"
  "fx_strip (fs_key_update k s) = fs_key_update k (fx_strip s)"
  by (simp_all add: fx_strip_def)

lemma fx_strip_eqD:
  assumes "fx_strip s = fx_strip r"
  shows "fs_generation s = fs_generation r" "fs_state s = fs_state r" "fs_key s = fs_key r"
    "fs_task s = fs_task r" "fs_deadline s = fs_deadline r"
  using assms by (metis fx_strip_simps)+

lemma fx_put_fields [simp]:
  "ft_slots (fx_put i s t) = (ft_slots t)[i := s]" "ft_head (fx_put i s t) = ft_head t"
  "ft_tail (fx_put i s t) = ft_tail t" "ft_occupied (fx_put i s t) = ft_occupied t"
  "ft_waiting (fx_put i s t) = ft_waiting t"
  by (simp_all add: fx_put_def)

lemma fx_unlink_frame [simp]:
  "map fx_strip (ft_slots (fx_unlink p i nxt t)) = map fx_strip (ft_slots t)"
  "length (ft_slots (fx_unlink p i nxt t)) = length (ft_slots t)"
  "ft_occupied (fx_unlink p i nxt t) = ft_occupied t"
  "ft_waiting (fx_unlink p i nxt t) = ft_waiting t"
proof -
  have "map fx_strip (xs[j := (xs ! j)\<lparr>fs_next := v\<rparr>]) = map fx_strip xs" for xs j v
    by (cases "j < length xs") (auto simp: list_eq_iff_nth_eq nth_list_update list_update_beyond)
  then show "map fx_strip (ft_slots (fx_unlink p i nxt t)) = map fx_strip (ft_slots t)"
    by (simp add: fx_unlink_def Let_def split: option.splits)
qed (simp_all add: fx_unlink_def Let_def split: option.splits)

lemma fx_links_unlink:
  assumes "fx_links (kept @ x # rest) t"
  shows "fx_links (kept @ rest) (fx_unlink (prev_of kept) x (fs_next (ft_slots t ! x)) t)"
    and "fs_next (ft_slots t ! x) = head_of rest" and "x < length (ft_slots t)"
proof -
  from assms have seg: "fx_seg (ft_slots t) (ft_head t) kept (Some x)"
      "fx_seg (ft_slots t) (fs_next (ft_slots t ! x)) rest None"
    and x: "x < length (ft_slots t)" and dist: "distinct (kept @ x # rest)"
    and tail: "ft_tail t = prev_of (kept @ x # rest)"
    by (auto simp: fx_links_def fx_seg_append)
  show "x < length (ft_slots t)" by (rule x)
  show nxt: "fs_next (ft_slots t ! x) = head_of rest" using seg(2) by (rule fx_seg_head)
  have tail': "ft_tail t = Some x \<longleftrightarrow> rest = []"
    using dist tail by (auto simp: prev_of_def)
  show "fx_links (kept @ rest) (fx_unlink (prev_of kept) x (fs_next (ft_slots t ! x)) t)"
  proof (cases kept rule: rev_cases)
    case Nil
    with seg dist tail tail' show ?thesis
      by (auto simp: fx_links_def fx_unlink_def Let_def prev_of_def)
  next
    case (snoc ks l)
    let ?s = "(ft_slots t ! l)\<lparr>fs_next := fs_next (ft_slots t ! x)\<rparr>"
    have "fx_seg ((ft_slots t)[l := ?s]) (ft_head t) (ks @ [l]) (fs_next (ft_slots t ! x))"
      by (rule fx_seg_relink[OF seg(1)[unfolded snoc]]) (use dist snoc in auto)
    moreover have "fx_seg ((ft_slots t)[l := ?s]) (fs_next (ft_slots t ! x)) rest None"
      using seg(2) dist snoc by (simp add: fx_seg_frame)
    ultimately have "fx_seg ((ft_slots t)[l := ?s]) (ft_head t) (kept @ rest) None"
      unfolding fx_seg_append snoc[symmetric] by blast
    with snoc dist tail tail' show ?thesis
      by (auto simp: fx_links_def fx_unlink_def Let_def prev_of_def)
  qed
qed

section \<open>The table invariant\<close>

abbreviation fx_strips :: "futex_table \<Rightarrow> futex_slot list" where
  "fx_strips t \<equiv> map fx_strip (ft_slots t)"

definition fx_slots_ok :: "futex_slot list \<Rightarrow> bool" where
  "fx_slots_ok S \<longleftrightarrow>
     (\<forall>i < length S. fs_generation (S ! i) < 2 ^ 64
        \<and> (fs_state (S ! i) = SWaiting \<longrightarrow> fk_is_aligned (fs_key (S ! i))))
     \<and> (\<forall>i < length S. \<forall>j < length S. fs_state (S ! i) \<noteq> SFree \<longrightarrow> fs_state (S ! j) \<noteq> SFree
        \<longrightarrow> fs_task (S ! i) = fs_task (S ! j) \<longrightarrow> i = j)"

definition fx_view_ok :: "nat list \<Rightarrow> futex_slot list \<Rightarrow> nat \<Rightarrow> nat \<Rightarrow> bool" where
  "fx_view_ok q S w k \<longleftrightarrow> set q = {i. i < length S \<and> fs_state (S ! i) = SWaiting}
     \<and> w = length q \<and> k = count_if (\<lambda>s. fs_state s \<noteq> SFree) S \<and> fx_slots_ok S"

text \<open>
  The queue \<open>q\<close> is linked from head to tail, holds exactly the waiting slots, the counters
  count waiting and occupied slots, no task holds two slots, and waiting keys are aligned.
\<close>

definition fx_wf :: "nat list \<Rightarrow> futex_table \<Rightarrow> bool" where
  "fx_wf q t \<longleftrightarrow> fx_links q t \<and> fx_view_ok q (fx_strips t) (ft_waiting t) (ft_occupied t)"

definition fx_inv :: "nat \<Rightarrow> futex_table \<Rightarrow> bool" where
  "fx_inv n t \<longleftrightarrow> length (ft_slots t) = n \<and> (\<exists>q. fx_wf q t)"

lemma fx_wfD:
  assumes "fx_wf q t"
  shows "fx_links q t" "distinct q" "ft_head t = head_of q" "ft_waiting t = length q"
    "\<And>i. i \<in> set q \<longleftrightarrow> i < length (ft_slots t) \<and> fs_state (ft_slots t ! i) = SWaiting"
    "fx_slots_ok (fx_strips t)"
    "ft_occupied t = count_if (\<lambda>s. fs_state s \<noteq> SFree) (fx_strips t)"
proof -
  from assms have L: "fx_links q t"
    and V: "fx_view_ok q (fx_strips t) (ft_waiting t) (ft_occupied t)" by (simp_all add: fx_wf_def)
  show "fx_links q t" by (rule L)
  show "distinct q" "ft_head t = head_of q" using L by (auto simp: fx_links_def dest: fx_seg_head)
  show "ft_waiting t = length q" "fx_slots_ok (fx_strips t)"
    "ft_occupied t = count_if (\<lambda>s. fs_state s \<noteq> SFree) (fx_strips t)"
    using V by (simp_all add: fx_view_ok_def)
  show "i \<in> set q \<longleftrightarrow> i < length (ft_slots t) \<and> fs_state (ft_slots t ! i) = SWaiting" for i
  proof -
    have "set q = {i. i < length (fx_strips t) \<and> fs_state (fx_strips t ! i) = SWaiting}"
      using V unfolding fx_view_ok_def by blast
    then have "i \<in> set q \<longleftrightarrow> i < length (fx_strips t) \<and> fs_state (fx_strips t ! i) = SWaiting"
      by blast
    then show ?thesis by (simp cong: conj_cong)
  qed
qed

lemma fx_slots_ok_update:
  assumes "fx_slots_ok S" "i < length S" "fs_generation s < 2 ^ 64"
    and "fs_state s = SWaiting \<Longrightarrow> fk_is_aligned (fs_key s)"
    and "fs_state s = SFree \<or> (fs_state (S ! i) \<noteq> SFree \<and> fs_task s = fs_task (S ! i))"
  shows "fx_slots_ok (S[i := s])"
proof -
  from assms(1) have u: "a = b" if "a < length S" "b < length S" "fs_state (S ! a) \<noteq> SFree"
      "fs_state (S ! b) \<noteq> SFree" "fs_task (S ! a) = fs_task (S ! b)" for a b
    using that unfolding fx_slots_ok_def by blast
  have "a = b" if "a < length S" "b < length S" "fs_state (S[i := s] ! a) \<noteq> SFree"
      "fs_state (S[i := s] ! b) \<noteq> SFree" "fs_task (S[i := s] ! a) = fs_task (S[i := s] ! b)" for a b
    using that assms(2,5) by (cases "a = i"; cases "b = i") (auto dest: u)
  moreover have "fs_generation (S[i := s] ! a) < 2 ^ 64 \<and>
      (fs_state (S[i := s] ! a) = SWaiting \<longrightarrow> fk_is_aligned (fs_key (S[i := s] ! a)))"
    if "a < length S" for a
    using that assms unfolding fx_slots_ok_def by (cases "a = i") auto
  ultimately show ?thesis unfolding fx_slots_ok_def by simp
qed

lemma fx_slots_okD:
  "fx_slots_ok S \<Longrightarrow> i < length S \<Longrightarrow> fs_generation (S ! i) < 2 ^ 64"
  "fx_slots_ok S \<Longrightarrow> i < length S \<Longrightarrow> fs_state (S ! i) = SWaiting \<Longrightarrow> fk_is_aligned (fs_key (S ! i))"
  unfolding fx_slots_ok_def by blast+

lemma fx_view_leave:
  assumes "fx_view_ok (kept @ x # rest) S w k" "distinct (kept @ x # rest)"
    and "st \<notin> {SFree, SWaiting}"
  shows "fx_view_ok (kept @ rest) (S[x := (S ! x)\<lparr>fs_state := st, fs_deadline := None\<rparr>]) (w - 1) k"
proof -
  let ?s = "(S ! x)\<lparr>fs_state := st, fs_deadline := None\<rparr>"
  from assms(1) have q: "\<And>i. i \<in> set (kept @ x # rest) \<longleftrightarrow> i < length S \<and> fs_state (S ! i) = SWaiting"
    and w: "w = length (kept @ x # rest)" and k: "k = count_if (\<lambda>s. fs_state s \<noteq> SFree) S"
    and ok: "fx_slots_ok S" by (auto simp: fx_view_ok_def)
  have x: "x < length S" "fs_state (S ! x) = SWaiting" using q[of x] by auto
  have "i \<in> set (kept @ rest) \<longleftrightarrow> i < length S \<and> fs_state (S[x := ?s] ! i) = SWaiting" for i
    using q[of i] assms(2,3) x by (auto simp: nth_list_update)
  moreover have "count_if (\<lambda>s. fs_state s \<noteq> SFree) (S[x := ?s]) = k"
    using count_if_update[OF x(1), of "\<lambda>s. fs_state s \<noteq> SFree" ?s] x assms(3) k by simp
  moreover have "fx_slots_ok (S[x := ?s])"
    using ok x assms(3) fx_slots_okD[OF ok x(1)] by (intro fx_slots_ok_update) auto
  ultimately show ?thesis using w by (auto simp: fx_view_ok_def)
qed

lemma fx_strips_nth:
  "i < length (ft_slots t) \<Longrightarrow> fx_strips t ! i = fx_strip (ft_slots t ! i)"
  by simp

lemma fx_strips_put: "fx_strips (fx_put i s t) = (fx_strips t)[i := fx_strip s]"
  by (simp add: map_update)

lemma fx_strip_transfer:
  assumes "fx_strips t' = fx_strips t" "i < length (ft_slots t)"
  shows "fx_strip (ft_slots t' ! i) = fx_strip (ft_slots t ! i)"
  using assms by (metis length_map nth_map)

text \<open>A waiter leaves the queue: its slot is unlinked and overwritten with a terminal state.\<close>

lemma fx_leave_step:
  assumes wf: "fx_wf (kept @ x # rest) t" and st: "st \<notin> {SFree, SWaiting}"
    and s: "fx_strip s = (fx_strips t ! x)\<lparr>fs_state := st, fs_deadline := None\<rparr>"
  defines "t' \<equiv> (fx_put x s (fx_unlink (prev_of kept) x (fs_next (ft_slots t ! x)) t))
      \<lparr>ft_waiting := ft_waiting t - 1\<rparr>"
  shows "fx_wf (kept @ rest) t'"
    and "fx_strips t' = (fx_strips t)[x := (fx_strips t ! x)\<lparr>fs_state := st, fs_deadline := None\<rparr>]"
proof -
  note L = fx_links_unlink[OF fx_wfD(1)[OF wf]]
  show S: "fx_strips t' = (fx_strips t)[x := (fx_strips t ! x)\<lparr>fs_state := st, fs_deadline := None\<rparr>]"
    by (simp add: t'_def map_update s)
  have "x \<notin> set (kept @ rest)" using fx_wfD(2)[OF wf] by auto
  then have "fx_links (kept @ rest) t'"
    using L(1) by (simp add: t'_def fx_links_def fx_seg_frame)
  moreover have "fx_view_ok (kept @ rest) (fx_strips t') (ft_waiting t') (ft_occupied t')"
    unfolding S using fx_view_leave[OF _ fx_wfD(2)[OF wf] st] wf
    by (simp add: t'_def fx_wf_def)
  ultimately show "fx_wf (kept @ rest) t'" by (simp add: fx_wf_def)
qed

text \<open>Completing the waiter after the kept prefix takes it out of the queue and marks it.\<close>

lemma fx_unlink_strip:
  "x < length (ft_slots t) \<Longrightarrow> fx_strip (ft_slots (fx_unlink p i nxt t) ! x) = fx_strips t ! x"
  using fx_strip_transfer[of "fx_unlink p i nxt t" t x] by simp

lemma fx_complete_step:
  assumes wf: "fx_wf (kept @ x # rest) t" and st: "st \<notin> {SFree, SWaiting}"
  defines "t' \<equiv> fx_complete (prev_of kept) x (fs_next (ft_slots t ! x)) st t"
  shows "fx_wf (kept @ rest) t'"
    and "fx_strips t' = (fx_strips t)[x := (fx_strips t ! x)\<lparr>fs_state := st, fs_deadline := None\<rparr>]"
    and "fs_next (ft_slots t ! x) = head_of rest" "x < length (ft_slots t)"
proof -
  let ?u = "fx_unlink (prev_of kept) x (fs_next (ft_slots t ! x)) t"
  let ?s = "(ft_slots ?u ! x)\<lparr>fs_state := st, fs_deadline := None, fs_next := None\<rparr>"
  note L = fx_links_unlink[OF fx_wfD(1)[OF wf]]
  show "fs_next (ft_slots t ! x) = head_of rest" "x < length (ft_slots t)" by (fact L)+
  have t': "t' = (fx_put x ?s ?u)\<lparr>ft_waiting := ft_waiting t - 1\<rparr>"
    by (simp add: t'_def fx_complete_def Let_def)
  have s: "fx_strip ?s = (fx_strips t ! x)\<lparr>fs_state := st, fs_deadline := None\<rparr>"
    using fx_unlink_strip[OF L(3)] by simp
  show "fx_wf (kept @ rest) t'"
    and "fx_strips t' = (fx_strips t)[x := (fx_strips t ! x)\<lparr>fs_state := st, fs_deadline := None\<rparr>]"
    unfolding t' by (fact fx_leave_step[OF wf st s])+
qed

section \<open>What the walks compute\<close>

text \<open>Taking the first \<open>m\<close> elements that satisfy a predicate, in order, and leaving the rest.\<close>

fun pick :: "('a \<Rightarrow> bool) \<Rightarrow> nat \<Rightarrow> 'a list \<Rightarrow> 'a list \<times> 'a list" where
  "pick P m [] = ([], [])"
| "pick P m (x # xs) =
     (if 0 < m \<and> P x then (let (w, r) = pick P (m - 1) xs in (x # w, r))
      else (let (w, r) = pick P m xs in (w, x # r)))"

lemma pick_cong: "(\<And>x. x \<in> set xs \<Longrightarrow> P x = Q x) \<Longrightarrow> pick P m xs = pick Q m xs"
  by (induction xs arbitrary: m) auto

lemma fst_pick: "fst (pick P m xs) = take m (filter P xs)"
proof (induction xs arbitrary: m)
  case (Cons x xs)
  then show ?case by (cases m) (simp_all add: case_prod_beta Let_def)
qed simp

lemma set_pick: "set (fst (pick P m xs)) \<subseteq> set xs" "set (snd (pick P m xs)) \<subseteq> set xs"
  by (induction xs arbitrary: m) (auto simp: case_prod_beta Let_def)

lemma snd_pick_all: "length xs \<le> m \<Longrightarrow> snd (pick P m xs) = filter (\<lambda>x. \<not> P x) xs"
  by (induction xs arbitrary: m) (auto simp: case_prod_beta Let_def)

text \<open>Waking as above, then retagging the next \<open>b\<close> that match, which stay in the queue.\<close>

fun pick2 :: "('a \<Rightarrow> bool) \<Rightarrow> nat \<Rightarrow> nat \<Rightarrow> 'a list \<Rightarrow> 'a list \<times> 'a list \<times> 'a list" where
  "pick2 P a b [] = ([], [], [])"
| "pick2 P a b (x # xs) =
     (if P x \<and> 0 < a then (let (w, m, r) = pick2 P (a - 1) b xs in (x # w, m, r))
      else if P x \<and> 0 < b then (let (w, m, r) = pick2 P a (b - 1) xs in (w, x # m, x # r))
      else (let (w, m, r) = pick2 P a b xs in (w, m, x # r)))"

lemma pick2_cong: "(\<And>x. x \<in> set xs \<Longrightarrow> P x = Q x) \<Longrightarrow> pick2 P a b xs = pick2 Q a b xs"
  by (induction xs arbitrary: a b) auto

lemma pick2_0: "fst (pick2 P 0 b xs) = []" "fst (snd (pick2 P 0 b xs)) = take b (filter P xs)"
proof (induction xs arbitrary: b)
  case (Cons x xs)
  {
    case 1
    from Cons show ?case by (simp add: case_prod_beta Let_def)
  next
    case 2
    from Cons show ?case by (cases b) (simp_all add: case_prod_beta Let_def)
  }
qed simp_all

lemma pick2_eq:
  "fst (pick2 P a b xs) = take a (filter P xs)"
  "fst (snd (pick2 P a b xs)) = take b (drop a (filter P xs))"
proof (induction xs arbitrary: a b)
  case (Cons x xs)
  {
    case 1
    from Cons show ?case by (cases a) (simp_all add: case_prod_beta Let_def pick2_0)
  next
    case 2
    from Cons show ?case
      by (cases a; cases b) (simp_all add: case_prod_beta Let_def pick2_0)
  }
qed simp_all

lemma set_pick2: "set (fst (pick2 P a b xs)) \<subseteq> set xs" "set (fst (snd (pick2 P a b xs))) \<subseteq> set xs"
  by (auto simp: pick2_eq dest!: in_set_takeD in_set_dropD)

text \<open>The net effect on the slots: \<open>w\<close> completed with state \<open>st\<close>, \<open>m\<close> retagged to \<open>key\<close>.\<close>

definition fx_apply ::
    "slot_state \<Rightarrow> nat list \<Rightarrow> futex_key \<Rightarrow> nat list \<Rightarrow> futex_slot list \<Rightarrow> futex_slot list" where
  "fx_apply st w key m S = map (\<lambda>i.
     if i \<in> set w then (S ! i)\<lparr>fs_state := st, fs_deadline := None\<rparr>
     else if i \<in> set m then (S ! i)\<lparr>fs_key := key\<rparr> else S ! i) [0..<length S]"

lemma fx_apply_simps:
  "fx_apply st [] key [] S = S"
  "x \<notin> set m \<Longrightarrow> fx_apply st (x # w) key m S
     = fx_apply st w key m (S[x := (S ! x)\<lparr>fs_state := st, fs_deadline := None\<rparr>])"
  "x \<notin> set w \<Longrightarrow> fx_apply st w key (x # m) S = fx_apply st w key m (S[x := (S ! x)\<lparr>fs_key := key\<rparr>])"
  by (auto simp: fx_apply_def nth_upd map_nth intro!: nth_equalityI)

lemma length_fx_apply [simp]: "length (fx_apply st w key m S) = length S"
  by (simp add: fx_apply_def)

lemma fx_apply_nth: "i < length S \<Longrightarrow> fx_apply st w key m S ! i =
  (if i \<in> set w then (S ! i)\<lparr>fs_state := st, fs_deadline := None\<rparr>
   else if i \<in> set m then (S ! i)\<lparr>fs_key := key\<rparr> else S ! i)"
  by (simp add: fx_apply_def)

definition fx_calls :: "futex_slot list \<Rightarrow> nat list \<Rightarrow> callbacks" where
  "fx_calls S w = map (\<lambda>i. (fs_task (S ! i), \<lparr>wh_slot = i, wh_generation = fs_generation (S ! i)\<rparr>)) w"

lemma fx_calls_update:
  "fs_task s = fs_task (S ! x) \<Longrightarrow> fs_generation s = fs_generation (S ! x) \<Longrightarrow>
   fx_calls (S[x := s]) w = fx_calls S w"
  by (auto simp: fx_calls_def nth_upd)

lemma fx_calls_Cons:
  "x < length (ft_slots t) \<Longrightarrow>
   fx_strips t' = (fx_strips t)[x := (fx_strips t ! x)\<lparr>fs_state := st, fs_deadline := None\<rparr>] \<Longrightarrow>
   (fs_task (ft_slots t' ! x), fx_handle t' x) # fx_calls (fx_strips t') w
     = fx_calls (fx_strips t) (x # w)"
proof -
  assume x: "x < length (ft_slots t)"
    and S: "fx_strips t' = (fx_strips t)[x := (fx_strips t ! x)\<lparr>fs_state := st, fs_deadline := None\<rparr>]"
  have "length (ft_slots t') = length (ft_slots t)" using arg_cong[OF S, of length] by simp
  then have "fx_strip (ft_slots t' ! x) = (fx_strips t ! x)\<lparr>fs_state := st, fs_deadline := None\<rparr>"
    using arg_cong[OF S, of "\<lambda>l. l ! x"] x by simp
  from arg_cong[OF this, of fs_task] arg_cong[OF this, of fs_generation] x
  have "fs_task (ft_slots t' ! x) = fs_task (ft_slots t ! x)"
    "fs_generation (ft_slots t' ! x) = fs_generation (ft_slots t ! x)" by simp_all
  with x show ?thesis
    unfolding S by (simp add: fx_calls_update) (simp add: fx_calls_def fx_handle_def)
qed

lemma fx_strips_upd_key:
  "fx_strips t' = (fx_strips t)[x := (fx_strips t ! x)\<lparr>fs_state := st, fs_deadline := None\<rparr>] \<Longrightarrow>
   fs_key (fx_strips t' ! y) = fs_key (fx_strips t ! y)"
  by (auto simp: nth_upd simp del: nth_map)

text \<open>The wake walk completes the first waiters on the key, in queue order, and nothing else.\<close>

lemma fx_wake_loop_eq:
  assumes "fx_wf (kept @ rest) t"
    and "(w, r) = pick (\<lambda>i. fs_key (fx_strips t ! i) = key) (maximum - count) rest"
  shows "\<exists>t'. fx_wake_loop key maximum count (prev_of kept) (head_of rest) out t
      = Some (count + length w, out @ fx_calls (fx_strips t) w, t')
    \<and> fx_wf (kept @ r) t' \<and> fx_strips t' = fx_apply SWoken w key [] (fx_strips t)"
  using assms
proof (induction rest arbitrary: kept count out t w r)
  case Nil
  then show ?case
    by (auto simp: fx_wake_loop.simps fx_calls_def fx_apply_simps)
next
  case (Cons x rest)
  note C = fx_complete_step[OF Cons.prems(1), of SWoken, simplified]
  let ?t = "fx_complete (prev_of kept) x (fs_next (ft_slots t ! x)) SWoken t"
  let ?P = "\<lambda>i. fs_key (fx_strips t ! i) = key"
  show ?case
  proof (cases "count < maximum \<and> ?P x")
    case True
    with Cons.prems(2) obtain w' where w': "w = x # w'" "(w', r) = pick ?P (maximum - Suc count) rest"
      by (auto simp: case_prod_beta Let_def prod_eq_iff)
    have "pick (\<lambda>i. fs_key (fx_strips ?t ! i) = key) (maximum - Suc count) rest = (w', r)"
      unfolding w'(2) by (rule pick_cong) (simp add: fx_strips_upd_key[OF C(2)] del: nth_map)
    from Cons.IH[OF C(1) this[symmetric]] obtain t' where t':
      "fx_wake_loop key maximum (Suc count) (prev_of kept) (head_of rest)
         (out @ [(fs_task (ft_slots ?t ! x), fx_handle ?t x)]) ?t
       = Some (Suc count + length w', (out @ [(fs_task (ft_slots ?t ! x), fx_handle ?t x)])
           @ fx_calls (fx_strips ?t) w', t')"
      "fx_wf (kept @ r) t'" "fx_strips t' = fx_apply SWoken w' key [] (fx_strips ?t)" by blast
    have "fx_wake_loop key maximum count (prev_of kept) (head_of (x # rest)) out t
      = Some (count + length w, out @ fx_calls (fx_strips t) w, t')"
      using t'(1) True C(3,4) fx_calls_Cons[OF C(4,2), of w']
      by (subst fx_wake_loop.simps) (simp add: w' Let_def)
    with t' show ?thesis by (simp add: w' fx_apply_simps C(2))
  next
    case False
    with Cons.prems(2) obtain r' where r': "r = x # r'" "(w, r') = pick ?P (maximum - count) rest"
      by (auto simp: case_prod_beta Let_def prod_eq_iff)
    have "fx_wf ((kept @ [x]) @ rest) t" using Cons.prems(1) by simp
    from Cons.IH[OF this r'(2), of out] False C(3,4) show ?thesis
      by (subst fx_wake_loop.simps) (auto simp: r' Let_def)
  qed
qed

text \<open>The expiry walk is the same with the deadline as the test and no limit.\<close>

definition fx_expired :: "nat \<Rightarrow> futex_slot \<Rightarrow> bool" where
  "fx_expired now s \<longleftrightarrow> (case fs_deadline s of None \<Rightarrow> False | Some d \<Rightarrow> d \<le> now)"

lemma fx_expired_strip [simp]: "fx_expired now (fx_strip s) = fx_expired now s"
  by (simp add: fx_expired_def)

lemma fx_expire_loop_eq:
  assumes "fx_wf (kept @ rest) t"
    and "(w, r) = pick (\<lambda>i. fx_expired now (fx_strips t ! i)) (length rest) rest"
  shows "\<exists>t'. fx_expire_loop now count (prev_of kept) (head_of rest) out t
      = Some (count + length w, out @ fx_calls (fx_strips t) w, t')
    \<and> fx_wf (kept @ r) t' \<and> fx_strips t' = fx_apply STimedOut w key [] (fx_strips t)"
  using assms
proof (induction rest arbitrary: kept count out t w r)
  case Nil
  then show ?case
    by (auto simp: fx_expire_loop.simps fx_calls_def fx_apply_simps)
next
  case (Cons x rest)
  note C = fx_complete_step[OF Cons.prems(1), of STimedOut, simplified]
  let ?t = "fx_complete (prev_of kept) x (fs_next (ft_slots t ! x)) STimedOut t"
  let ?P = "\<lambda>i. fx_expired now (fx_strips t ! i)"
  have dist: "x \<notin> set rest" using fx_wfD(2)[OF Cons.prems(1)] by simp
  have all: "pick Q (length (x # rest)) rest = pick Q (length rest) rest" for Q :: "nat \<Rightarrow> bool"
    by (simp add: prod_eq_iff fst_pick snd_pick_all le_SucI)
  show ?case
  proof (cases "?P x")
    case True
    with Cons.prems(2) obtain w' where w': "w = x # w'" "(w', r) = pick ?P (length rest) rest"
      by (auto simp: case_prod_beta Let_def prod_eq_iff)
    have "pick (\<lambda>i. fx_expired now (fx_strips ?t ! i)) (length rest) rest = (w', r)"
      unfolding w'(2) C(2) by (rule pick_cong) (use dist in \<open>auto simp: nth_upd simp del: nth_map\<close>)
    from Cons.IH[OF C(1) this[symmetric]] obtain t' where t':
      "fx_expire_loop now (Suc count) (prev_of kept) (head_of rest)
         (out @ [(fs_task (ft_slots ?t ! x), fx_handle ?t x)]) ?t
       = Some (Suc count + length w', (out @ [(fs_task (ft_slots ?t ! x), fx_handle ?t x)])
           @ fx_calls (fx_strips ?t) w', t')"
      "fx_wf (kept @ r) t'" "fx_strips t' = fx_apply STimedOut w' key [] (fx_strips ?t)" by blast
    have "fx_expire_loop now count (prev_of kept) (head_of (x # rest)) out t
      = Some (count + length w, out @ fx_calls (fx_strips t) w, t')"
      using t'(1) True C(3,4) fx_calls_Cons[OF C(4,2), of w']
      by (subst fx_expire_loop.simps) (simp add: w' Let_def fx_expired_def)
    with t' show ?thesis by (simp add: w' fx_apply_simps C(2))
  next
    case False
    with Cons.prems(2) obtain r' where r': "r = x # r'" "(w, r') = pick ?P (length rest) rest"
      unfolding pick.simps all by (auto simp: case_prod_beta Let_def prod_eq_iff)
    have "fx_wf ((kept @ [x]) @ rest) t" using Cons.prems(1) by simp
    from Cons.IH[OF this r'(2), of count out] False C(3,4) show ?thesis
      by (subst fx_expire_loop.simps) (auto simp: r' Let_def fx_expired_def)
  qed
qed

text \<open>The requeue walk.\<close>

lemma fx_retag_step:
  assumes "fx_wf q t" "x \<in> set q" "fk_is_aligned target"
  shows "fx_wf q (fx_put x ((ft_slots t ! x)\<lparr>fs_key := target\<rparr>) t)"
    and "fx_strips (fx_put x ((ft_slots t ! x)\<lparr>fs_key := target\<rparr>) t)
      = (fx_strips t)[x := (fx_strips t ! x)\<lparr>fs_key := target\<rparr>]"
proof -
  let ?u = "fx_put x ((ft_slots t ! x)\<lparr>fs_key := target\<rparr>) t"
  note D = fx_wfD[OF assms(1)]
  have x: "x < length (ft_slots t)" "fs_state (ft_slots t ! x) = SWaiting" using D(5) assms(2) by auto
  show S: "fx_strips ?u = (fx_strips t)[x := (fx_strips t ! x)\<lparr>fs_key := target\<rparr>]"
    using x by (simp add: map_update)
  have "fx_links q ?u" using D(1) by (simp add: fx_links_def fx_seg_same_next)
  moreover have "fx_slots_ok (fx_strips ?u)"
    unfolding S using D(6) x assms(3) fx_slots_okD[OF D(6), of x]
    by (intro fx_slots_ok_update) auto
  moreover have "count_if (\<lambda>s. fs_state s \<noteq> SFree) (fx_strips ?u) = ft_occupied t"
    unfolding S D(7) using count_if_update[of x "fx_strips t" "\<lambda>s. fs_state s \<noteq> SFree"
        "(fx_strips t ! x)\<lparr>fs_key := target\<rparr>"] x by simp
  moreover have "set q = {i. i < length (fx_strips ?u) \<and> fs_state (fx_strips ?u ! i) = SWaiting}"
  proof (rule set_eqI)
    fix i
    show "i \<in> set q \<longleftrightarrow> i \<in> {i. i < length (fx_strips ?u) \<and> fs_state (fx_strips ?u ! i) = SWaiting}"
      unfolding S D(5) using x by (cases "i = x") (simp_all cong: conj_cong)
  qed
  ultimately show "fx_wf q ?u" by (simp add: fx_wf_def fx_view_ok_def D(4))
qed

lemma fx_requeue_loop_eq:
  assumes "fx_wf (kept @ rest) t" "fk_is_aligned target" "source \<noteq> target"
    and "(w, m, r) = pick2 (\<lambda>i. fs_key (fx_strips t ! i) = source) (wl - woken) (rl - requeued) rest"
  shows "\<exists>t'. fx_requeue_loop source target wl rl woken requeued (prev_of kept) (head_of rest) out t
      = Some (woken + length w, requeued + length m, out @ fx_calls (fx_strips t) w, t')
    \<and> fx_wf (kept @ r) t' \<and> fx_strips t' = fx_apply SWoken w target m (fx_strips t)"
  using assms(1,4)
proof (induction rest arbitrary: kept woken requeued out t w m r)
  case Nil
  then show ?case
    by (auto simp: fx_requeue_loop.simps fx_calls_def fx_apply_simps)
next
  case (Cons x rest)
  note C = fx_complete_step[OF Cons.prems(1), of SWoken, simplified]
  let ?t = "fx_complete (prev_of kept) x (fs_next (ft_slots t ! x)) SWoken t"
  let ?P = "\<lambda>i. fs_key (fx_strips t ! i) = source"
  have dist: "x \<notin> set rest" using fx_wfD(2)[OF Cons.prems(1)] by simp
  have wm: "x \<notin> set w'" "x \<notin> set m'" if "(w', m', r') = pick2 ?P a b rest" for w' m' r' a b
    using set_pick2[of ?P a b rest] dist unfolding that[symmetric] by auto
  have wf': "fx_wf ((kept @ [x]) @ rest) t" using Cons.prems(1) by simp
  consider (wake) "?P x" "woken < wl" | (move) "?P x" "\<not> woken < wl" "requeued < rl"
    | (keep) "\<not> ?P x \<or> \<not> woken < wl \<and> \<not> requeued < rl" by blast
  then show ?case
  proof cases
    case wake
    with Cons.prems(2) obtain w' where w': "w = x # w'"
        "(w', m, r) = pick2 ?P (wl - Suc woken) (rl - requeued) rest"
      by (auto simp: case_prod_beta Let_def prod_eq_iff)
    have "pick2 (\<lambda>i. fs_key (fx_strips ?t ! i) = source) (wl - Suc woken) (rl - requeued) rest
        = (w', m, r)"
      unfolding w'(2) by (rule pick2_cong) (simp add: fx_strips_upd_key[OF C(2)] del: nth_map)
    from Cons.IH[OF C(1) this[symmetric]] obtain t' where t':
      "fx_requeue_loop source target wl rl (Suc woken) requeued (prev_of kept) (head_of rest)
         (out @ [(fs_task (ft_slots ?t ! x), fx_handle ?t x)]) ?t
       = Some (Suc woken + length w', requeued + length m,
           (out @ [(fs_task (ft_slots ?t ! x), fx_handle ?t x)]) @ fx_calls (fx_strips ?t) w', t')"
      "fx_wf (kept @ r) t'" "fx_strips t' = fx_apply SWoken w' target m (fx_strips ?t)" by blast
    have "fx_requeue_loop source target wl rl woken requeued (prev_of kept) (head_of (x # rest)) out t
      = Some (woken + length w, requeued + length m, out @ fx_calls (fx_strips t) w, t')"
      using t'(1) wake C(3,4) fx_calls_Cons[OF C(4,2), of w']
      by (subst fx_requeue_loop.simps) (simp add: w' Let_def)
    with t' wm[OF w'(2)] show ?thesis by (simp add: w' fx_apply_simps C(2))
  next
    case move
    let ?u = "fx_put x ((ft_slots t ! x)\<lparr>fs_key := target\<rparr>) t"
    from move Cons.prems(2) obtain m' r' where m': "m = x # m'" "r = x # r'"
        "(w, m', r') = pick2 ?P (wl - woken) (rl - Suc requeued) rest"
      by (auto simp: case_prod_beta Let_def prod_eq_iff)
    have "x \<in> set ((kept @ [x]) @ rest)" by simp
    note U = fx_retag_step[OF wf' this assms(2)]
    have "pick2 (\<lambda>i. fs_key (fx_strips ?u ! i) = source) (wl - woken) (rl - Suc requeued) rest
        = (w, m', r')"
      unfolding m'(3) U(2) by (rule pick2_cong) (use dist in \<open>auto simp: nth_upd simp del: nth_map\<close>)
    from Cons.IH[of "kept @ [x]" ?u, OF _ this[symmetric]] U(1) obtain t' where t':
      "fx_requeue_loop source target wl rl woken (Suc requeued) (Some x) (head_of rest) out ?u
       = Some (woken + length w, Suc requeued + length m', out @ fx_calls (fx_strips ?u) w, t')"
      "fx_wf (kept @ r) t'" "fx_strips t' = fx_apply SWoken w target m' (fx_strips ?u)"
      by (auto simp: m')
    have calls: "fx_calls (fx_strips ?u) w = fx_calls (fx_strips t) w"
      unfolding U(2) by (simp add: fx_calls_update)
    have "fx_requeue_loop source target wl rl woken requeued (prev_of kept) (head_of (x # rest)) out t
      = Some (woken + length w, requeued + length m, out @ fx_calls (fx_strips t) w, t')"
      using t'(1)[unfolded calls] move C(3,4)
      by (subst fx_requeue_loop.simps) (simp add: m' Let_def)
    with t'(2) t'(3)[unfolded U(2)] wm[OF m'(3)] show ?thesis by (simp add: m' fx_apply_simps)
  next
    case keep
    with Cons.prems(2) obtain r' where r': "r = x # r'"
        "(w, m, r') = pick2 ?P (wl - woken) (rl - requeued) rest"
      by (auto simp: case_prod_beta Let_def prod_eq_iff)
    from Cons.IH[OF wf' r'(2), of out] keep C(3,4) show ?thesis
      by (subst fx_requeue_loop.simps) (auto simp: r' Let_def)
  qed
qed

section \<open>Every operation returns and keeps the invariant\<close>

lemma fx_unlink_loop_eq:
  "fx_links (kept @ mid @ x # rest) t \<Longrightarrow>
   fx_unlink_loop x (prev_of kept) (head_of (mid @ x # rest)) t
     = Some (fx_unlink (prev_of (kept @ mid)) x (fs_next (ft_slots t ! x)) t)"
proof (induction mid arbitrary: kept)
  case Nil
  from fx_links_unlink(3)[of kept x rest t] Nil show ?case
    by (simp add: fx_unlink_loop.simps Let_def)
next
  case (Cons y mid)
  have L: "fx_links (kept @ y # (mid @ x # rest)) t" using Cons.prems by simp
  have "y \<noteq> x" using Cons.prems by (auto simp: fx_links_def)
  then have "fx_unlink_loop x (prev_of kept) (head_of ((y # mid) @ x # rest)) t
      = fx_unlink_loop x (prev_of (kept @ [y])) (head_of (mid @ x # rest)) t"
    using fx_links_unlink(2,3)[OF L] by (simp add: fx_unlink_loop.simps[of x _ "Some y"] Let_def)
  with Cons.IH[of "kept @ [y]"] Cons.prems show ?case by simp
qed

lemma fx_unlink_index_eq:
  assumes "fx_wf q t" "x \<in> set q"
  obtains kept rest where "q = kept @ x # rest"
    "fx_unlink_index x t = Some (fx_unlink (prev_of kept) x (fs_next (ft_slots t ! x)) t)"
proof -
  from assms(2) obtain kept rest where q: "q = kept @ x # rest" by (meson split_list)
  with fx_unlink_loop_eq[of "[]" kept x rest t] fx_wfD(1,3)[OF assms(1)] show ?thesis
    by (intro that[OF q]) (simp add: fx_unlink_index_def)
qed

lemma fx_release_wf:
  assumes wf: "fx_wf q t" and i: "i < length (ft_slots t)"
    and st: "fs_state (ft_slots t ! i) \<notin> {SFree, SWaiting}"
  shows "fx_wf q (fx_release i t)"
    and "fx_strips (fx_release i t)
      = (fx_strips t)[i := SLOT_EMPTY\<lparr>fs_generation := fs_generation (ft_slots t ! i)\<rparr>]"
proof -
  let ?e = "SLOT_EMPTY\<lparr>fs_generation := fs_generation (ft_slots t ! i)\<rparr>"
  note D = fx_wfD[OF wf]
  have strip: "fx_strip ?e = ?e" by (simp add: fx_strip_def SLOT_EMPTY_def)
  show S: "fx_strips (fx_release i t) = (fx_strips t)[i := ?e]"
    by (simp add: fx_release_def Let_def map_update strip)
  have free: "fs_state ?e = SFree" by (simp add: SLOT_EMPTY_def)
  have "i \<notin> set q" using D(5)[of i] st by auto
  then have "fx_links q (fx_release i t)"
    using D(1) by (simp add: fx_links_def fx_release_def Let_def fx_seg_frame)
  moreover have "fx_slots_ok (fx_strips (fx_release i t))"
    unfolding S using D(6) i free fx_slots_okD(1)[OF D(6), of i]
    by (intro fx_slots_ok_update) (auto simp: SLOT_EMPTY_def)
  moreover have "count_if (\<lambda>s. fs_state s \<noteq> SFree) (fx_strips (fx_release i t)) = ft_occupied t - 1"
    unfolding S D(7) using count_if_update[of i "fx_strips t" "\<lambda>s. fs_state s \<noteq> SFree" ?e] i st free
    by simp
  moreover have "set q = {j. j < length (fx_strips (fx_release i t))
      \<and> fs_state (fx_strips (fx_release i t) ! j) = SWaiting}"
  proof (rule set_eqI)
    fix j
    show "j \<in> set q \<longleftrightarrow> j \<in> {j. j < length (fx_strips (fx_release i t))
        \<and> fs_state (fx_strips (fx_release i t) ! j) = SWaiting}"
      unfolding S D(5) using i st free by (cases "j = i") (auto cong: conj_cong)
  qed
  ultimately show "fx_wf q (fx_release i t)"
    using D(4) by (simp add: fx_wf_def fx_view_ok_def fx_release_def Let_def)
qed

text \<open>Nothing but a new wait changes a generation or occupies a free slot.\<close>

definition fx_gens :: "futex_table \<Rightarrow> futex_table \<Rightarrow> bool" where
  "fx_gens t t' \<longleftrightarrow> length (ft_slots t') = length (ft_slots t)
     \<and> (\<forall>i < length (ft_slots t). fs_generation (ft_slots t' ! i) = fs_generation (ft_slots t ! i)
        \<and> (fs_state (ft_slots t ! i) = SFree \<longrightarrow> fs_state (ft_slots t' ! i) = SFree))"

lemma fx_gens_refl [simp]: "fx_gens t t"
  by (simp add: fx_gens_def)

lemma fx_gens_trans: "fx_gens t u \<Longrightarrow> fx_gens u v \<Longrightarrow> fx_gens t v"
  by (simp add: fx_gens_def)

lemma fx_gensI:
  assumes "fx_strips t' = S" "length S = length (ft_slots t)"
    and "\<And>i. i < length (ft_slots t) \<Longrightarrow> fs_generation (S ! i) = fs_generation (fx_strips t ! i)"
    and "\<And>i. i < length (ft_slots t) \<Longrightarrow> fs_state (fx_strips t ! i) = SFree \<Longrightarrow> fs_state (S ! i) = SFree"
  shows "fx_gens t t'"
proof -
  have len: "length (ft_slots t') = length (ft_slots t)" using assms(1,2) by (metis length_map)
  have "fs_generation (ft_slots t' ! i) = fs_generation (S ! i)" "fs_state (ft_slots t' ! i) = fs_state (S ! i)"
    if "i < length (ft_slots t)" for i
    using that len unfolding assms(1)[symmetric] by simp_all
  then show ?thesis unfolding fx_gens_def using len assms(3,4) by simp
qed

lemma fx_gens_put:
  assumes "fx_strips t' = (fx_strips t)[x := s]" "fs_generation s = fs_generation (fx_strips t ! x)"
    and "fs_state (fx_strips t ! x) \<noteq> SFree \<or> fs_state s = SFree"
  shows "fx_gens t t'"
  by (rule fx_gensI[OF assms(1)]) (use assms(2,3) in \<open>auto simp: nth_upd simp del: nth_map\<close>)

lemma fx_gens_apply:
  assumes "fx_strips t' = fx_apply st w key m (fx_strips t)"
    and "\<forall>i \<in> set w. fs_state (fx_strips t ! i) \<noteq> SFree"
  shows "fx_gens t t'"
  by (rule fx_gensI[OF assms(1)]) (use assms(2) in \<open>auto simp: fx_apply_nth simp del: nth_map\<close>)

lemma fx_inv_new: "fx_inv n (fx_new n)"
proof -
  have "fx_wf [] (fx_new n)"
    by (auto simp: fx_wf_def fx_links_def fx_new_def fx_view_ok_def fx_slots_ok_def SLOT_EMPTY_def
        count_if_replicate map_replicate fx_strip_def)
  then show ?thesis by (auto simp: fx_inv_def fx_new_def)
qed

lemma length_fx_strips_eq:
  "fx_strips t' = f (fx_strips t) \<Longrightarrow> length (f (fx_strips t)) = length (ft_slots t) \<Longrightarrow>
   length (ft_slots t') = length (ft_slots t)"
  by (metis length_map)

text \<open>\<open>fx_calls\<close> and the selected indices of the whole-queue operations.\<close>

lemma fx_wake_eq:
  assumes "fx_wf q t" "fk_is_aligned key"
    and "(w, r) = pick (\<lambda>i. fs_key (fx_strips t ! i) = key) maximum q"
  shows "\<exists>t'. fx_wake key maximum t = Some (Inr (length w), fx_calls (fx_strips t) w, t')
    \<and> fx_wf r t' \<and> fx_strips t' = fx_apply SWoken w key [] (fx_strips t)"
  using fx_wake_loop_eq[of "[]" q t w r key maximum 0 "[]"] assms fx_wfD(3)[OF assms(1)]
  by (auto simp: fx_wake_def)

lemma fx_expire_eq:
  assumes "fx_wf q t"
    and "w = filter (\<lambda>i. fx_expired now (fx_strips t ! i)) q"
    and "r = filter (\<lambda>i. \<not> fx_expired now (fx_strips t ! i)) q"
  shows "\<exists>t'. fx_expire now t = Some (length w, fx_calls (fx_strips t) w, t')
    \<and> fx_wf r t' \<and> fx_strips t' = fx_apply STimedOut w key [] (fx_strips t)"
proof -
  have "(w, r) = pick (\<lambda>i. fx_expired now (fx_strips t ! i)) (length q) q"
    unfolding assms(2,3) by (simp add: prod_eq_iff fst_pick snd_pick_all)
  from fx_expire_loop_eq[of "[]", OF _ this, of 0 "[]" key] assms(1) fx_wfD(3)[OF assms(1)]
  show ?thesis by (simp add: fx_expire_def)
qed

lemma fx_requeue_eq:
  assumes "fx_wf q t" "fk_is_aligned source" "fk_is_aligned target" "source \<noteq> target"
    and "(w, m, r) = pick2 (\<lambda>i. fs_key (fx_strips t ! i) = source) wl rl q"
  shows "\<exists>t'. fx_requeue source target wl rl t
      = Some (Inr (length w, length m), fx_calls (fx_strips t) w, t')
    \<and> fx_wf r t' \<and> fx_strips t' = fx_apply SWoken w target m (fx_strips t)"
  using fx_requeue_loop_eq[of "[]" q t target source w m r wl 0 rl 0 "[]"] assms
    fx_wfD(3)[OF assms(1)]
  by (auto simp: fx_requeue_def)

lemma fx_apply_length_eq:
  "fx_strips t' = fx_apply st w key m (fx_strips t) \<Longrightarrow> length (ft_slots t') = length (ft_slots t)"
  by (rule length_fx_strips_eq[where f = "fx_apply st w key m"]) simp_all

lemma fx_queued_busy: "fx_wf q t \<Longrightarrow> \<forall>i \<in> set q. fs_state (fx_strips t ! i) \<noteq> SFree"
  using fx_wfD(5)[of q t] by auto

lemma fx_wake_inv:
  assumes "fx_inv n t"
  shows "\<exists>r t'. fx_wake key maximum t = Some (r, t') \<and> fx_inv n (snd t') \<and> fx_gens t (snd t')"
proof (cases "fk_is_aligned key")
  case True
  from assms obtain q where q: "fx_wf q t" "length (ft_slots t) = n" by (auto simp: fx_inv_def)
  obtain w r where p: "(w, r) = pick (\<lambda>i. fs_key (fx_strips t ! i) = key) maximum q"
    by (metis surj_pair)
  have w: "\<forall>i \<in> set w. fs_state (fx_strips t ! i) \<noteq> SFree"
    using fx_queued_busy[OF q(1)] set_pick(1)[of "\<lambda>i. fs_key (fx_strips t ! i) = key" maximum q]
    unfolding p[symmetric] by auto
  from fx_wake_eq[OF q(1) True p] obtain t' where t':
    "fx_wake key maximum t = Some (Inr (length w), fx_calls (fx_strips t) w, t')" "fx_wf r t'"
    "fx_strips t' = fx_apply SWoken w key [] (fx_strips t)" by blast
  with fx_apply_length_eq[OF t'(3)] q(2) fx_gens_apply[OF t'(3) w] show ?thesis
    by (auto simp: fx_inv_def)
next
  case False
  with assms show ?thesis by (simp add: fx_wake_def)
qed

lemma fx_requeue_inv:
  assumes "fx_inv n t"
  shows "\<exists>r t'. fx_requeue source target wl rl t = Some (r, t') \<and> fx_inv n (snd t')
    \<and> fx_gens t (snd t')"
proof (cases "fk_is_aligned source \<and> fk_is_aligned target \<and> source \<noteq> target")
  case True
  from assms obtain q where q: "fx_wf q t" "length (ft_slots t) = n" by (auto simp: fx_inv_def)
  obtain w m r where p: "(w, m, r) = pick2 (\<lambda>i. fs_key (fx_strips t ! i) = source) wl rl q"
    by (metis surj_pair)
  have w: "\<forall>i \<in> set w. fs_state (fx_strips t ! i) \<noteq> SFree"
    using fx_queued_busy[OF q(1)] set_pick2(1)[of "\<lambda>i. fs_key (fx_strips t ! i) = source" wl rl q]
    unfolding p[symmetric] by auto
  from fx_requeue_eq[OF q(1) _ _ _ p] True obtain t' where t':
    "fx_requeue source target wl rl t = Some (Inr (length w, length m), fx_calls (fx_strips t) w, t')"
    "fx_wf r t'" "fx_strips t' = fx_apply SWoken w target m (fx_strips t)" by blast
  with fx_apply_length_eq[OF t'(3)] q(2) fx_gens_apply[OF t'(3) w] show ?thesis
    by (auto simp: fx_inv_def)
next
  case False
  with assms show ?thesis by (auto simp: fx_requeue_def)
qed

lemma fx_expire_inv:
  assumes "fx_inv n t"
  shows "\<exists>r t'. fx_expire now t = Some (r, t') \<and> fx_inv n (snd t') \<and> fx_gens t (snd t')"
proof -
  from assms obtain q where q: "fx_wf q t" "length (ft_slots t) = n" by (auto simp: fx_inv_def)
  let ?w = "filter (\<lambda>i. fx_expired now (fx_strips t ! i)) q"
  from fx_expire_eq[OF q(1) refl refl, of now] obtain t' r where t':
    "fx_expire now t = Some (length ?w, fx_calls (fx_strips t) ?w, t')" "fx_wf r t'"
    "fx_strips t' = fx_apply STimedOut ?w undefined [] (fx_strips t)" by blast
  have "\<forall>i \<in> set ?w. fs_state (fx_strips t ! i) \<noteq> SFree" using fx_queued_busy[OF q(1)] by simp
  from t' fx_apply_length_eq[OF t'(3)] q(2) fx_gens_apply[OF t'(3) this] show ?thesis
    by (auto simp: fx_inv_def)
qed

lemma fx_validate_InrD:
  "fx_validate t h = Inr i \<Longrightarrow> i = wh_slot h \<and> i < length (ft_slots t)
     \<and> fs_state (ft_slots t ! i) \<noteq> SFree \<and> fs_generation (ft_slots t ! i) = wh_generation h"
  by (auto simp: fx_validate_def split: if_splits)

lemma fx_cancel_inv:
  assumes "fx_inv n t"
  shows "\<exists>r t'. fx_cancel h t = Some (r, t') \<and> fx_inv n t' \<and> fx_gens t t'"
proof (cases "\<exists>i. fx_validate t h = Inr i \<and> fs_state (ft_slots t ! i) = SWaiting")
  case True
  then obtain i where v: "fx_validate t h = Inr i" "fs_state (ft_slots t ! i) = SWaiting" by blast
  from assms obtain q where q: "fx_wf q t" "length (ft_slots t) = n" by (auto simp: fx_inv_def)
  have "i \<in> set q" using fx_wfD(5)[OF q(1)] fx_validate_InrD[OF v(1)] v(2) by blast
  from fx_unlink_index_eq[OF q(1) this] obtain kept rest where k: "q = kept @ i # rest"
    "fx_unlink_index i t = Some (fx_unlink (prev_of kept) i (fs_next (ft_slots t ! i)) t)" by blast
  let ?u = "fx_unlink (prev_of kept) i (fs_next (ft_slots t ! i)) t"
  let ?s = "(ft_slots ?u ! i)\<lparr>fs_state := SCancelled, fs_deadline := None\<rparr>"
  have "fx_strip ?s = (fx_strips t ! i)\<lparr>fs_state := SCancelled, fs_deadline := None\<rparr>"
    using fx_unlink_strip[of i t] fx_validate_InrD[OF v(1)] by simp
  note L = fx_leave_step[OF q(1)[unfolded k(1)] _ this, simplified slot_state.simps, simplified]
  have "fx_gens t ((fx_put i ?s ?u)\<lparr>ft_waiting := ft_waiting t - 1\<rparr>)"
    using fx_validate_InrD[OF v(1)] fx_unlink_strip[of i t]
    by (intro fx_gens_put[of _ _ i "fx_strip ?s"]) (auto simp: map_update)
  with L v k(2) q(2) show ?thesis
    by (auto simp: fx_cancel_def fx_inv_def Let_def)
next
  case False
  with assms show ?thesis by (auto simp: fx_cancel_def split: sum.splits)
qed

lemma fx_cancel_task_inv:
  assumes "fx_inv n t"
  shows "\<exists>r t'. fx_cancel_task task t = Some (r, t') \<and> fx_inv n t' \<and> fx_gens t t'"
proof (cases "position (\<lambda>s. fs_state s = SWaiting \<and> fs_task s = task) (ft_slots t)")
  case None
  with assms show ?thesis by (simp add: fx_cancel_task_def)
next
  case (Some i)
  from fx_cancel_inv[OF assms, of "fx_handle t i"] obtain r t' where
    "fx_cancel (fx_handle t i) t = Some (r, t')" "fx_inv n t'" "fx_gens t t'" by blast
  with Some show ?thesis by (simp add: fx_cancel_task_def)
qed

lemma fx_release_gens:
  "i < length (ft_slots t) \<Longrightarrow> fx_gens t (fx_release i t)"
  by (rule fx_gens_put[of _ _ i "SLOT_EMPTY\<lparr>fs_generation := fs_generation (ft_slots t ! i)\<rparr>"])
    (simp_all add: fx_release_def Let_def map_update fx_strip_def SLOT_EMPTY_def)

lemma fx_take_outcome_inv:
  "fx_inv n t \<Longrightarrow> fx_inv n (snd (fx_take_outcome h t)) \<and> fx_gens t (snd (fx_take_outcome h t))"
proof (cases "fx_validate t h")
  case (Inr i)
  assume "fx_inv n t"
  then obtain q where q: "fx_wf q t" "length (ft_slots t) = n" by (auto simp: fx_inv_def)
  have "fx_inv n (fx_release i t) \<and> fx_gens t (fx_release i t)"
    if "fs_state (ft_slots t ! i) \<notin> {SFree, SWaiting}"
    using fx_release_wf(1)[OF q(1) _ that] fx_validate_InrD[OF Inr] q(2) fx_release_gens[of i t]
    by (auto simp: fx_inv_def fx_release_def Let_def)
  with Inr \<open>fx_inv n t\<close> show ?thesis
    by (auto simp: fx_take_outcome_def split: slot_state.splits)
qed (simp add: fx_take_outcome_def)

lemma fx_exit_slot_inv:
  assumes "fx_inv n t" "i < n"
  shows "\<exists>c t'. fx_exit_slot p i (k, t) = Some (c, t') \<and> fx_inv n t' \<and> fx_gens t t'"
proof (cases "fs_state (ft_slots t ! i) \<noteq> SFree \<and> tid_process (fs_task (ft_slots t ! i)) = p")
  case False
  with assms show ?thesis by (auto simp: fx_exit_slot_def)
next
  case True
  from assms obtain q where q: "fx_wf q t" "length (ft_slots t) = n" by (auto simp: fx_inv_def)
  show ?thesis
  proof (cases "fs_state (ft_slots t ! i) = SWaiting")
    case False
    with True fx_release_wf(1)[OF q(1), of i] q assms(2) fx_release_gens[of i t] show ?thesis
      by (auto simp: fx_exit_slot_def fx_inv_def fx_release_def Let_def)
  next
    case w: True
    have "i \<in> set q" using fx_wfD(5)[OF q(1)] q(2) assms(2) w by blast
    from fx_unlink_index_eq[OF q(1) this] obtain kept rest where kr: "q = kept @ i # rest"
      "fx_unlink_index i t = Some (fx_unlink (prev_of kept) i (fs_next (ft_slots t ! i)) t)" by blast
    let ?u = "fx_unlink (prev_of kept) i (fs_next (ft_slots t ! i)) t"
    let ?s = "(ft_slots ?u ! i)\<lparr>fs_state := SCancelled, fs_deadline := None\<rparr>"
    let ?v = "(fx_put i ?s ?u)\<lparr>ft_waiting := ft_waiting t - 1\<rparr>"
    have "fx_strip ?s = (fx_strips t ! i)\<lparr>fs_state := SCancelled, fs_deadline := None\<rparr>"
      using fx_unlink_strip[of i t] q(2) assms(2) by simp
    from fx_leave_step(1)[OF q(1)[unfolded kr(1)] _ this] have "fx_wf (kept @ rest) ?v" by simp
    then have "fx_wf (kept @ rest) (fx_release i ?v)"
      by (rule fx_release_wf(1)) (use q(2) assms(2) in auto)
    moreover have "fx_release i ?v = fx_release i (?u\<lparr>ft_waiting := ft_waiting ?u - 1\<rparr>)"
      using q(2) assms(2) by (simp add: fx_release_def fx_put_def Let_def)
    moreover have g: "fx_gens t (?u\<lparr>ft_waiting := ft_waiting ?u - 1\<rparr>)"
      by (rule fx_gensI[of _ "fx_strips t"]) simp_all
    have "fx_gens t (fx_release i (?u\<lparr>ft_waiting := ft_waiting ?u - 1\<rparr>))"
      by (rule fx_gens_trans[OF g fx_release_gens]) (use q(2) assms(2) in simp)
    ultimately show ?thesis
      using True w kr(2) q(2) by (auto simp: fx_exit_slot_def fx_inv_def fx_release_def Let_def)
  qed
qed

lemma fx_exit_run:
  "fx_inv n t \<Longrightarrow> set is \<subseteq> {..<n} \<Longrightarrow>
   \<exists>c t'. run_steps (fx_exit_slot p) is (k, t) = Some (c, t') \<and> fx_inv n t' \<and> fx_gens t t'"
proof (induction "is" arbitrary: k t)
  case (Cons i "is")
  with fx_exit_slot_inv[of n t i p k] obtain c u where
    "fx_exit_slot p i (k, t) = Some (c, u)" "fx_inv n u" "fx_gens t u" by auto
  with Cons.IH[of u c] Cons.prems(2) show ?case by (auto intro: fx_gens_trans)
qed simp

lemma fx_process_exit_inv:
  "fx_inv n t \<Longrightarrow> \<exists>c t'. fx_process_exit p t = Some (c, t') \<and> fx_inv n t' \<and> fx_gens t t'"
  unfolding fx_process_exit_def by (rule fx_exit_run) (auto simp: fx_inv_def)

text \<open>Enqueueing: a free slot is filled and linked at the tail.\<close>

lemma fx_enqueue_wf:
  assumes wf: "fx_wf q t" and i: "i < length (ft_slots t)" "fs_state (ft_slots t ! i) = SFree"
    and s: "fs_state s = SWaiting" "fs_next s = None" "fs_generation s < 2 ^ 64"
      "fk_is_aligned (fs_key s)"
    and new: "\<forall>j < length (ft_slots t). fs_state (ft_slots t ! j) \<noteq> SFree
      \<longrightarrow> fs_task (ft_slots t ! j) \<noteq> fs_task s"
  defines "t1 \<equiv> fx_put i s t"
  defines "t2 \<equiv> (case ft_tail t1 of
      Some tail \<Rightarrow> fx_put tail ((ft_slots t1 ! tail)\<lparr>fs_next := Some i\<rparr>) t1
    | None \<Rightarrow> t1\<lparr>ft_head := Some i\<rparr>)"
  defines "t3 \<equiv> t2\<lparr>ft_tail := Some i, ft_occupied := ft_occupied t2 + 1, ft_waiting := ft_waiting t2 + 1\<rparr>"
  shows "fx_wf (q @ [i]) t3" and "fx_strips t3 = (fx_strips t)[i := fx_strip s]"
proof -
  note D = fx_wfD[OF wf]
  have iq: "i \<notin> set q" using D(5)[of i] i by simp
  have len: "length (ft_slots t3) = length (ft_slots t)"
    by (simp add: t3_def t2_def t1_def split: option.splits)
  show S: "fx_strips t3 = (fx_strips t)[i := fx_strip s]"
    by (rule nth_equalityI)
      (auto simp: t3_def t2_def t1_def nth_upd split: option.splits)
  have links: "fx_links (q @ [i]) t3"
  proof (cases q rule: rev_cases)
    case Nil
    with D(1) i s show ?thesis
      by (simp add: fx_links_def t3_def t2_def t1_def prev_of_def)
  next
    case (snoc ks l)
    have li: "l \<noteq> i" "l \<notin> set ks" using iq D(2) snoc by auto
    let ?s = "(ft_slots t1 ! l)\<lparr>fs_next := Some i\<rparr>"
    have "fx_seg (ft_slots t1) (ft_head t) (ks @ [l]) None"
      using D(1) iq snoc by (simp add: fx_links_def t1_def fx_seg_frame)
    then have "fx_seg ((ft_slots t1)[l := ?s]) (ft_head t) (ks @ [l]) (Some i)"
      by (rule fx_seg_relink) (use li in auto)
    moreover have "fx_seg ((ft_slots t1)[l := ?s]) (Some i) [i] None"
      using i s li by (simp add: t1_def)
    ultimately have "fx_seg ((ft_slots t1)[l := ?s]) (ft_head t) (q @ [i]) None"
      unfolding snoc by (subst fx_seg_append) blast
    moreover have "ft_tail t = Some l" using D(1) snoc by (simp add: fx_links_def)
    ultimately show ?thesis
      using D(2) iq by (simp add: fx_links_def t3_def t2_def) (simp add: t1_def)
  qed
  have ok: "fx_slots_ok (fx_strips t3)"
    using D(6) new i s unfolding fx_slots_ok_def S
    by (auto simp: nth_list_update)
  have cnt: "count_if (\<lambda>s. fs_state s \<noteq> SFree) (fx_strips t3) = ft_occupied t + 1"
    unfolding S D(7) using count_if_update[of i "fx_strips t" "\<lambda>s. fs_state s \<noteq> SFree" "fx_strip s"] i s
    by simp
  have "set (q @ [i]) = {j. j < length (fx_strips t3) \<and> fs_state (fx_strips t3 ! j) = SWaiting}"
  proof (rule set_eqI)
    fix j
    show "j \<in> set (q @ [i]) \<longleftrightarrow> j \<in> {j. j < length (fx_strips t3) \<and> fs_state (fx_strips t3 ! j) = SWaiting}"
      unfolding S using D(5)[of j] i s by (cases "j = i") (auto cong: conj_cong)
  qed
  moreover have "ft_waiting t3 = length (q @ [i])" "ft_occupied t3 = ft_occupied t + 1"
    using D(4) by (simp_all add: t3_def t2_def t1_def split: option.splits)
  ultimately show "fx_wf (q @ [i]) t3"
    using links ok cnt by (simp add: fx_wf_def fx_view_ok_def)
qed

lemma fx_wait_ok:
  assumes wf: "fx_wf q t" and w: "fx_wait key task obs ex now dl t = (Inr h, t')"
  shows "fx_wf (q @ [wh_slot h]) t'" "wh_slot h < length (ft_slots t)"
    "fs_state (ft_slots t ! wh_slot h) = SFree"
    "wh_generation h = wrapping_add (fs_generation (ft_slots t ! wh_slot h)) 1"
    "fx_strips t' = (fx_strips t)[wh_slot h := \<lparr>fs_generation = wh_generation h, fs_state = SWaiting,
       fs_key = key, fs_task = task, fs_deadline = dl, fs_next = None\<rparr>]"
    "fk_is_aligned key" "obs = ex" "length (ft_slots t') = length (ft_slots t)"
proof -
  let ?s = "\<lambda>g. \<lparr>fs_generation = g, fs_state = SWaiting, fs_key = key, fs_task = task,
    fs_deadline = dl, fs_next = None\<rparr>"
  from w obtain i where i: "position (\<lambda>s. fs_state s = SFree) (ft_slots t) = Some i"
    and al: "fk_is_aligned key" and oe: "obs = ex"
    and new: "\<not> list_ex (\<lambda>s. fs_state s \<noteq> SFree \<and> fs_task s = task) (ft_slots t)"
    and h: "h = \<lparr>wh_slot = i, wh_generation = wrapping_add (fs_generation (ft_slots t ! i)) 1\<rparr>"
    by (auto simp: fx_wait_def Let_def split: if_splits option.splits)
  note P = position_SomeD[OF i]
  have s: "fs_generation (?s (wh_generation h)) < 2 ^ 64" by (simp add: h wrapping_add_def)
  have new': "\<forall>j < length (ft_slots t). fs_state (ft_slots t ! j) \<noteq> SFree \<longrightarrow>
      fs_task (ft_slots t ! j) \<noteq> fs_task (?s (wh_generation h))"
    using new by (auto simp: list_ex_length)
  note E = fx_enqueue_wf[OF wf _ _ _ _ s _ new', of i]
  from w i h have t': "t' = (let t1 = fx_put i (?s (wh_generation h)) t;
      t2 = (case ft_tail t1 of
              Some tail \<Rightarrow> fx_put tail ((ft_slots t1 ! tail)\<lparr>fs_next := Some i\<rparr>) t1
            | None \<Rightarrow> t1\<lparr>ft_head := Some i\<rparr>)
      in t2\<lparr>ft_tail := Some i, ft_occupied := ft_occupied t2 + 1, ft_waiting := ft_waiting t2 + 1\<rparr>)"
    by (auto simp: fx_wait_def Let_def split: if_splits)
  have "fx_wf (q @ [i]) t'" and S: "fx_strips t' = (fx_strips t)[i := fx_strip (?s (wh_generation h))]"
    unfolding t' Let_def using E P al by auto
  then show "fx_wf (q @ [wh_slot h]) t'" by (simp add: h)
  show "fx_strips t' = (fx_strips t)[wh_slot h := ?s (wh_generation h)]"
    using S by (simp add: h fx_strip_def)
  then show "length (ft_slots t') = length (ft_slots t)" by (metis length_list_update length_map)
  show "wh_slot h < length (ft_slots t)" "fs_state (ft_slots t ! wh_slot h) = SFree"
    "wh_generation h = wrapping_add (fs_generation (ft_slots t ! wh_slot h)) 1"
    using P by (simp_all add: h)
  show "fk_is_aligned key" "obs = ex" by fact+
qed

lemma fx_wait_inv: "fx_inv n t \<Longrightarrow> fx_inv n (snd (fx_wait key task obs ex now dl t))"
proof (cases "fx_wait key task obs ex now dl t")
  case (Pair r t')
  assume inv: "fx_inv n t"
  show ?thesis
  proof (cases r)
    case (Inl e)
    with Pair inv show ?thesis
      by (auto simp: fx_wait_def Let_def split: if_splits option.splits)
  next
    case (Inr h)
    from inv obtain q where "fx_wf q t" "length (ft_slots t) = n" by (auto simp: fx_inv_def)
    with fx_wait_ok(1,8)[of q t key task obs ex now dl h t'] Pair Inr show ?thesis
      by (auto simp: fx_inv_def)
  qed
qed

section \<open>Runs of the table\<close>

datatype fx_op =
    FxWait futex_key task_id nat nat nat "nat option"
  | FxWake futex_key nat
  | FxRequeue futex_key futex_key nat nat
  | FxExpire nat
  | FxCancel wait_handle
  | FxCancelTask task_id
  | FxProcessExit nat
  | FxTakeOutcome wait_handle

fun fx_step :: "fx_op \<Rightarrow> futex_table \<Rightarrow> futex_table option" where
  "fx_step (FxWait key task obs ex now dl) t = Some (snd (fx_wait key task obs ex now dl t))"
| "fx_step (FxWake key m) t = map_option (snd \<circ> snd) (fx_wake key m t)"
| "fx_step (FxRequeue source target wl rl) t
     = map_option (snd \<circ> snd) (fx_requeue source target wl rl t)"
| "fx_step (FxExpire now) t = map_option (snd \<circ> snd) (fx_expire now t)"
| "fx_step (FxCancel h) t = map_option snd (fx_cancel h t)"
| "fx_step (FxCancelTask task) t = map_option snd (fx_cancel_task task t)"
| "fx_step (FxProcessExit p) t = map_option snd (fx_process_exit p t)"
| "fx_step (FxTakeOutcome h) t = Some (snd (fx_take_outcome h t))"

lemma fx_step_total: "fx_inv n t \<Longrightarrow> \<exists>t'. fx_step a t = Some t' \<and> fx_inv n t'"
proof (cases a)
  case (FxWake key m)
  assume "fx_inv n t"
  from fx_wake_inv[OF this, of key m] FxWake show ?thesis by force
next
  case (FxRequeue source target wl rl)
  assume "fx_inv n t"
  from fx_requeue_inv[OF this, of source target wl rl] FxRequeue show ?thesis by force
next
  case (FxExpire now)
  assume "fx_inv n t"
  from fx_expire_inv[OF this, of now] FxExpire show ?thesis by force
next
  case (FxCancel h)
  assume "fx_inv n t"
  from fx_cancel_inv[OF this, of h] FxCancel show ?thesis by force
next
  case (FxCancelTask task)
  assume "fx_inv n t"
  from fx_cancel_task_inv[OF this, of task] FxCancelTask show ?thesis by force
next
  case (FxProcessExit p)
  assume "fx_inv n t"
  from fx_process_exit_inv[OF this, of p] FxProcessExit show ?thesis by force
qed (simp_all add: fx_wait_inv fx_take_outcome_inv)

interpretation futex: partial_transition_system "fx_new n" fx_step "fx_inv n" for n
  by unfold_locales (simp_all add: fx_inv_new fx_step_total)

section \<open>The abstract queue\<close>

text \<open>The specification sees a FIFO of waiters; the abstraction reads it off the links.\<close>

record waiter =
  fw_handle :: wait_handle
  fw_key :: futex_key
  fw_task :: task_id
  fw_deadline :: "nat option"

fun fx_follow :: "nat \<Rightarrow> futex_slot list \<Rightarrow> nat option \<Rightarrow> nat list" where
  "fx_follow 0 ss h = []"
| "fx_follow (Suc k) ss h = (case h of None \<Rightarrow> [] | Some i \<Rightarrow> i # fx_follow k ss (fs_next (ss ! i)))"

definition fx_queue :: "futex_table \<Rightarrow> nat list" where
  "fx_queue t = fx_follow (length (ft_slots t)) (ft_slots t) (ft_head t)"

definition fx_waiter :: "futex_slot list \<Rightarrow> nat \<Rightarrow> waiter" where
  "fx_waiter S i = \<lparr>fw_handle = \<lparr>wh_slot = i, wh_generation = fs_generation (S ! i)\<rparr>,
     fw_key = fs_key (S ! i), fw_task = fs_task (S ! i), fw_deadline = fs_deadline (S ! i)\<rparr>"

definition fx_waiters :: "futex_table \<Rightarrow> waiter list" where
  "fx_waiters t = map (fx_waiter (ft_slots t)) (fx_queue t)"

definition fx_notify :: "waiter list \<Rightarrow> callbacks" where
  "fx_notify ws = map (\<lambda>w. (fw_task w, fw_handle w)) ws"

lemma fx_follow_seg: "fx_seg ss h q None \<Longrightarrow> length q \<le> k \<Longrightarrow> fx_follow k ss h = q"
proof (induction q arbitrary: h k)
  case Nil
  then show ?case by (cases k) simp_all
next
  case (Cons x q)
  then show ?case by (cases k) auto
qed

lemma fx_queue_eq:
  assumes "fx_wf q t"
  shows "fx_queue t = q"
proof -
  note D = fx_wfD[OF assms]
  from D(1) have seg: "fx_seg (ft_slots t) (ft_head t) q None" by (simp add: fx_links_def)
  have "length q = card (set q)" using D(2) by (simp add: distinct_card)
  also have "\<dots> \<le> card {..<length (ft_slots t)}"
    using fx_seg_range[OF seg] by (intro card_mono) auto
  finally show ?thesis using seg by (simp add: fx_queue_def fx_follow_seg)
qed

lemma fx_waiters_eq:
  assumes "fx_wf q t"
  shows "fx_waiters t = map (fx_waiter (fx_strips t)) q"
  unfolding fx_waiters_def fx_queue_eq[OF assms] using fx_wfD(5)[OF assms]
  by (simp add: fx_waiter_def)

lemma pick_map: "pick P m (map f xs) = map_prod (map f) (map f) (pick (P \<circ> f) m xs)"
  by (induction xs arbitrary: m) (auto simp: case_prod_beta Let_def)

lemma fx_calls_notify: "fx_calls S w = fx_notify (map (fx_waiter S) w)"
  by (simp add: fx_calls_def fx_notify_def fx_waiter_def)

lemma fx_state_of:
  "i < length (ft_slots t) \<Longrightarrow> fs_state (ft_slots t ! i) \<noteq> SFree \<Longrightarrow>
   fx_state \<lparr>wh_slot = i, wh_generation = fs_generation (ft_slots t ! i)\<rparr> t
     = Inr (case fs_state (ft_slots t ! i) of SWoken \<Rightarrow> WaiterWoken | STimedOut \<Rightarrow> WaiterTimedOut
         | SCancelled \<Rightarrow> WaiterCancelled | _ \<Rightarrow> WaiterWaiting)"
  by (simp add: fx_state_def fx_validate_def split: slot_state.splits)

text \<open>After a walk, the selected waiters' handles read the terminal state.\<close>

lemma fx_apply_state:
  assumes S: "fx_strips t' = fx_apply st w key m (fx_strips t)" and "i \<in> set w"
    and i: "i < length (ft_slots t)" and st: "st \<noteq> SFree"
  shows "fx_state (fw_handle (fx_waiter (fx_strips t) i)) t'
    = Inr (case st of SWoken \<Rightarrow> WaiterWoken | STimedOut \<Rightarrow> WaiterTimedOut
         | SCancelled \<Rightarrow> WaiterCancelled | _ \<Rightarrow> WaiterWaiting)"
proof -
  have len: "length (ft_slots t') = length (ft_slots t)" by (rule fx_apply_length_eq[OF S])
  have "fx_strip (ft_slots t' ! i) = (fx_strips t ! i)\<lparr>fs_state := st, fs_deadline := None\<rparr>"
    using arg_cong[OF S, of "\<lambda>l. l ! i"] assms(2) i len by (simp add: fx_apply_nth)
  from arg_cong[OF this, of fs_state] arg_cong[OF this, of fs_generation] i
  have "fs_state (ft_slots t' ! i) = st"
    "fs_generation (ft_slots t' ! i) = fs_generation (fx_strips t ! i)" by simp_all
  with fx_state_of[of i t'] i len st show ?thesis by (simp add: fx_waiter_def)
qed

lemma fx_apply_waiter:
  assumes "fx_strips t' = fx_apply st w key m (fx_strips t)" "i \<notin> set w" "i < length (ft_slots t)"
  shows "fx_waiter (fx_strips t') i = (if i \<in> set m then (fx_waiter (fx_strips t) i)\<lparr>fw_key := key\<rparr>
    else fx_waiter (fx_strips t) i)"
  using assms(2,3) unfolding assms(1) fx_waiter_def by (simp add: fx_apply_nth)

lemma pick_disjoint: "distinct xs \<Longrightarrow> set (fst (pick P m xs)) \<inter> set (snd (pick P m xs)) = {}"
proof (induction xs arbitrary: m)
  case (Cons x xs)
  then show ?case using set_pick[of P "m - 1" xs] set_pick[of P m xs]
    by (auto simp: case_prod_beta Let_def)
qed simp

lemma snd_pick_filter:
  "distinct xs \<Longrightarrow> snd (pick P m xs) = filter (\<lambda>x. x \<notin> set (fst (pick P m xs))) xs"
proof (induction xs arbitrary: m)
  case (Cons x xs)
  then have "x \<notin> set (fst (pick P m xs))" "x \<notin> set (fst (pick P (m - 1) xs))"
    using set_pick(1)[of P _ xs] by auto
  with Cons show ?case by (auto simp: case_prod_beta Let_def intro!: filter_cong)
qed simp

lemma snd_pick2_filter:
  "distinct xs \<Longrightarrow> snd (snd (pick2 P a b xs)) = filter (\<lambda>x. x \<notin> set (fst (pick2 P a b xs))) xs"
proof (induction xs arbitrary: a b)
  case (Cons x xs)
  then have "x \<notin> set (fst (pick2 P a' b' xs))" for a' b'
    using set_pick2(1)[of P a' b' xs] by auto
  with Cons show ?case by (auto simp: case_prod_beta Let_def intro!: filter_cong)
qed simp

lemma fx_waiter_inj: "fx_waiter S i = fx_waiter S j \<longleftrightarrow> i = j"
  by (auto simp: fx_waiter_def)

lemma fx_waiter_mem: "fx_waiter S i \<in> set (map (fx_waiter S) w) \<longleftrightarrow> i \<in> set w"
  by (auto simp: fx_waiter_inj)

lemma fx_wf_range: "fx_wf q t \<Longrightarrow> set q \<subseteq> {..<length (ft_slots t)}"
  using fx_wfD(5)[of q t] by blast

lemma fx_waiters_frame:
  assumes q: "fx_wf q t" and r: "fx_wf r t'"
    and S: "fx_strips t' = fx_apply st w key m (fx_strips t)"
    and rw: "r = filter (\<lambda>i. i \<notin> set w) q"
  shows "fx_waiters t' = map (\<lambda>x. if x \<in> set (map (fx_waiter (fx_strips t)) m) then x\<lparr>fw_key := key\<rparr> else x)
      (filter (\<lambda>x. x \<notin> set (map (fx_waiter (fx_strips t)) w)) (fx_waiters t))"
proof -
  have "fx_waiter (fx_strips t') i = (if i \<in> set m then (fx_waiter (fx_strips t) i)\<lparr>fw_key := key\<rparr>
      else fx_waiter (fx_strips t) i)" if "i \<in> set r" for i
    using that fx_apply_waiter[OF S] fx_wfD(5)[OF q] by (auto simp: rw)
  then show ?thesis
    unfolding fx_waiters_eq[OF q] fx_waiters_eq[OF r] filter_map rw comp_def fx_waiter_mem
    by (simp add: fx_waiter_inj image_iff)
qed

section \<open>Properties\<close>

text \<open>C4: No sequence of futex operations on a new table of any capacity ever panics or walks the
  queue forever, and afterwards the linked queue holds exactly the waiting slots, the counters
  are exact, and no task occupies two slots.\<close>

theorem fx_never_stuck: "\<exists>t. run_steps fx_step ops (fx_new n) = Some t \<and> fx_inv n t"
  by (rule futex.run_reach)

text \<open>C8: Waking is FIFO per key: a wake returns, notifies in enqueue order the first waiters on the
  key up to the limit, their handles then read woken, and every other waiter keeps its place.\<close>

theorem fx_wake_fifo:
  fixes maximum :: nat
  assumes inv: "fx_inv n t" and al: "fk_is_aligned key"
  defines "W \<equiv> take maximum (filter (\<lambda>x. fw_key x = key) (fx_waiters t))"
  shows "\<exists>t'. fx_wake key maximum t = Some (Inr (length W), fx_notify W, t') \<and> fx_inv n t'
    \<and> fx_waiters t' = filter (\<lambda>x. x \<notin> set W) (fx_waiters t)
    \<and> (\<forall>x \<in> set W. fx_state (fw_handle x) t' = Inr WaiterWoken)"
proof -
  from inv obtain q where q: "fx_wf q t" "length (ft_slots t) = n" by (auto simp: fx_inv_def)
  let ?P = "\<lambda>i. fs_key (fx_strips t ! i) = key"
  obtain w r where p: "(w, r) = pick ?P maximum q" by (metis surj_pair)
  from fx_wake_eq[OF q(1) al p] obtain t' where t':
    "fx_wake key maximum t = Some (Inr (length w), fx_calls (fx_strips t) w, t')" "fx_wf r t'"
    "fx_strips t' = fx_apply SWoken w key [] (fx_strips t)" by blast
  have w: "w = take maximum (filter ?P q)" using arg_cong[OF p, of fst] by (simp add: fst_pick)
  have W: "W = map (fx_waiter (fx_strips t)) w"
    unfolding W_def w fx_waiters_eq[OF q(1)]
    by (simp add: filter_map take_map comp_def fx_waiter_def del: nth_map)
  have sub: "set w \<subseteq> {..<length (ft_slots t)}"
    using set_pick(1)[of ?P maximum q] fx_wf_range[OF q(1)] unfolding p[symmetric] by simp
  have "r = filter (\<lambda>i. i \<notin> set w) q"
    using snd_pick_filter[OF fx_wfD(2)[OF q(1)], of ?P maximum] unfolding p[symmetric] by simp
  from fx_waiters_frame[OF q(1) t'(2,3) this] have "fx_waiters t' = filter (\<lambda>x. x \<notin> set W) (fx_waiters t)"
    by (simp add: W)
  moreover have "fx_state (fw_handle x) t' = Inr WaiterWoken" if "x \<in> set W" for x
    using that fx_apply_state[OF t'(3)] sub by (auto simp: W)
  moreover have "fx_inv n t'" using t'(2) fx_apply_length_eq[OF t'(3)] q(2) by (auto simp: fx_inv_def)
  ultimately show ?thesis using t'(1) by (simp add: W fx_calls_notify)
qed

text \<open>Requeueing wakes the first waiters on the source key up to the wake limit, moves the next
  ones up to the requeue limit to the target key keeping handle, deadline and queue place, and
  leaves everyone else alone.\<close>

theorem fx_requeue_spec:
  fixes wl rl :: nat
  assumes inv: "fx_inv n t" and al: "fk_is_aligned source" "fk_is_aligned target" "source \<noteq> target"
  defines "W \<equiv> take wl (filter (\<lambda>x. fw_key x = source) (fx_waiters t))"
    and "M \<equiv> take rl (drop wl (filter (\<lambda>x. fw_key x = source) (fx_waiters t)))"
  shows "\<exists>t'. fx_requeue source target wl rl t = Some (Inr (length W, length M), fx_notify W, t')
    \<and> fx_inv n t'
    \<and> fx_waiters t' = map (\<lambda>x. if x \<in> set M then x\<lparr>fw_key := target\<rparr> else x)
        (filter (\<lambda>x. x \<notin> set W) (fx_waiters t))
    \<and> (\<forall>x \<in> set W. fx_state (fw_handle x) t' = Inr WaiterWoken)"
proof -
  from inv obtain q where q: "fx_wf q t" "length (ft_slots t) = n" by (auto simp: fx_inv_def)
  let ?P = "\<lambda>i. fs_key (fx_strips t ! i) = source"
  obtain w m r where p: "(w, m, r) = pick2 ?P wl rl q" by (metis surj_pair)
  from fx_requeue_eq[OF q(1) al p] obtain t' where t':
    "fx_requeue source target wl rl t = Some (Inr (length w, length m), fx_calls (fx_strips t) w, t')"
    "fx_wf r t'" "fx_strips t' = fx_apply SWoken w target m (fx_strips t)" by blast
  have w: "w = take wl (filter ?P q)" "m = take rl (drop wl (filter ?P q))"
    using arg_cong[OF p, of fst] arg_cong[OF p, of "fst \<circ> snd"] by (simp_all add: pick2_eq)
  have W: "W = map (fx_waiter (fx_strips t)) w" "M = map (fx_waiter (fx_strips t)) m"
    unfolding W_def M_def w fx_waiters_eq[OF q(1)]
    by (simp_all add: filter_map take_map drop_map comp_def fx_waiter_def del: nth_map)
  have sub: "set w \<subseteq> {..<length (ft_slots t)}"
    using set_pick2(1)[of ?P wl rl q] fx_wf_range[OF q(1)] unfolding p[symmetric] by simp
  have "r = filter (\<lambda>i. i \<notin> set w) q"
    using snd_pick2_filter[OF fx_wfD(2)[OF q(1)], of ?P wl rl] unfolding p[symmetric] by simp
  note F = fx_waiters_frame[OF q(1) t'(2,3) this, folded W]
  moreover have "fx_state (fw_handle x) t' = Inr WaiterWoken" if "x \<in> set W" for x
    using that fx_apply_state[OF t'(3)] sub by (auto simp: W)
  moreover have "fx_inv n t'" using t'(2) fx_apply_length_eq[OF t'(3)] q(2) by (auto simp: fx_inv_def)
  moreover have "fx_requeue source target wl rl t = Some (Inr (length W, length M), fx_notify W, t')"
    using t'(1) by (simp add: W fx_calls_notify)
  ultimately show ?thesis by blast
qed

text \<open>Expiry times out exactly the waiters whose deadline is at or before now, in enqueue order,
  and keeps all others in place.\<close>

theorem fx_expire_spec:
  fixes now :: nat
  assumes inv: "fx_inv n t"
  defines "late \<equiv> \<lambda>x. case fw_deadline x of None \<Rightarrow> False | Some d \<Rightarrow> d \<le> now"
  shows "\<exists>t'. fx_expire now t = Some (length (filter late (fx_waiters t)),
        fx_notify (filter late (fx_waiters t)), t')
    \<and> fx_inv n t' \<and> fx_waiters t' = filter (\<lambda>x. \<not> late x) (fx_waiters t)
    \<and> (\<forall>x \<in> set (filter late (fx_waiters t)). fx_state (fw_handle x) t' = Inr WaiterTimedOut)"
proof -
  from inv obtain q where q: "fx_wf q t" "length (ft_slots t) = n" by (auto simp: fx_inv_def)
  let ?P = "\<lambda>i. fx_expired now (fx_strips t ! i)"
  let ?w = "filter ?P q" and ?r = "filter (\<lambda>i. \<not> ?P i) q"
  from fx_expire_eq[OF q(1) refl refl] obtain t' where t':
    "fx_expire now t = Some (length ?w, fx_calls (fx_strips t) ?w, t')" "fx_wf ?r t'"
    "fx_strips t' = fx_apply STimedOut ?w undefined [] (fx_strips t)" by blast
  have late: "late (fx_waiter (fx_strips t) i) = ?P i" for i
    by (simp add: late_def fx_waiter_def fx_expired_def)
  have W: "filter late (fx_waiters t) = map (fx_waiter (fx_strips t)) ?w"
    unfolding fx_waiters_eq[OF q(1)] by (simp add: filter_map comp_def late del: nth_map)
  have "?r = filter (\<lambda>i. i \<notin> set ?w) q" by (auto intro: filter_cong)
  from fx_waiters_frame[OF q(1) t'(2,3) this]
  have "fx_waiters t' = filter (\<lambda>x. x \<notin> set (filter late (fx_waiters t))) (fx_waiters t)"
    by (simp add: W)
  then have "fx_waiters t' = filter (\<lambda>x. \<not> late x) (fx_waiters t)" by (auto intro: filter_cong)
  moreover have "fx_state (fw_handle x) t' = Inr WaiterTimedOut"
    if "x \<in> set (filter late (fx_waiters t))" for x
    using that fx_apply_state[OF t'(3)] fx_wfD(5)[OF q(1)] unfolding W by auto
  moreover have "fx_inv n t'" using t'(2) fx_apply_length_eq[OF t'(3)] q(2) by (auto simp: fx_inv_def)
  ultimately show ?thesis using t'(1) unfolding W fx_calls_notify by auto
qed

text \<open>How far a slot's generation has moved on after \<open>k\<close> steps from a released handle.\<close>

definition fx_past :: "nat \<Rightarrow> wait_handle \<Rightarrow> futex_table \<Rightarrow> bool" where
  "fx_past k h t \<longleftrightarrow> wh_slot h < length (ft_slots t) \<and> (\<exists>j \<le> k.
     fs_generation (ft_slots t ! wh_slot h) = (wh_generation h + j) mod 2 ^ 64
     \<and> (j = 0 \<longrightarrow> fs_state (ft_slots t ! wh_slot h) = SFree))"

lemma fx_past_gens: "fx_past k h t \<Longrightarrow> fx_gens t t' \<Longrightarrow> fx_past (Suc k) h t'"
  unfolding fx_past_def fx_gens_def by (auto intro: le_SucI)

lemma fx_past_wait:
  assumes "fx_past k h t" "fx_wf q t"
  shows "fx_past (Suc k) h (snd (fx_wait key task obs ex now dl t))"
proof (cases "fx_wait key task obs ex now dl t")
  case (Pair r t')
  show ?thesis
  proof (cases r)
    case (Inl e)
    then have "t' = t" using Pair by (auto simp: fx_wait_def Let_def split: if_splits option.splits)
    with Pair fx_past_gens[OF assms(1), of t] show ?thesis by simp
  next
    case (Inr h')
    note K = fx_wait_ok[OF assms(2) Pair[unfolded Inr]]
    from assms(1) obtain j where j: "j \<le> k" "wh_slot h < length (ft_slots t)"
      "fs_generation (ft_slots t ! wh_slot h) = (wh_generation h + j) mod 2 ^ 64"
      "j = 0 \<longrightarrow> fs_state (ft_slots t ! wh_slot h) = SFree" by (auto simp: fx_past_def)
    have strip: "fx_strip (ft_slots t' ! wh_slot h) = fx_strips t' ! wh_slot h" using j(2) K(8) by simp
    show ?thesis
    proof (cases "wh_slot h' = wh_slot h")
      case True
      then have "fs_generation (fx_strip (ft_slots t' ! wh_slot h)) = wh_generation h'"
        unfolding strip K(5) using j(2) by simp
      then have "fs_generation (ft_slots t' ! wh_slot h) = (wh_generation h + Suc j) mod 2 ^ 64"
        using K(4) True j(3) by (simp add: wrapping_add_def mod_simps)
      with j(1,2) K(8) Pair show ?thesis
        unfolding fx_past_def by (auto intro!: exI[of _ "Suc j"])
    next
      case False
      then have "fx_strip (ft_slots t' ! wh_slot h) = fx_strip (ft_slots t ! wh_slot h)"
        unfolding strip K(5) using j(2) by simp
      note E = fx_strip_eqD(1,2)[OF this]
      show ?thesis unfolding fx_past_def Pair snd_conv E using j K(8) by (auto intro: le_SucI)
    qed
  qed
qed

lemma fx_past_step:
  assumes "fx_past k h t" "fx_inv n t" "fx_step a t = Some t'"
  shows "fx_past (Suc k) h t'"
proof (cases a)
  case (FxWait key task obs ex now dl)
  from assms(2) obtain q where "fx_wf q t" by (auto simp: fx_inv_def)
  with fx_past_wait[OF assms(1), of q] assms(3) FxWait show ?thesis by auto
next
  case (FxWake key m)
  with assms(3) fx_wake_inv[OF assms(2), of key m] have "fx_gens t t'" by auto
  with assms(1) show ?thesis by (rule fx_past_gens)
next
  case (FxRequeue so ta wl rl)
  with assms(3) fx_requeue_inv[OF assms(2), of so ta wl rl] have "fx_gens t t'" by auto
  with assms(1) show ?thesis by (rule fx_past_gens)
next
  case (FxExpire now)
  with assms(3) fx_expire_inv[OF assms(2), of now] have "fx_gens t t'" by auto
  with assms(1) show ?thesis by (rule fx_past_gens)
next
  case (FxCancel h)
  with assms(3) fx_cancel_inv[OF assms(2), of h] have "fx_gens t t'" by auto
  with assms(1) show ?thesis by (rule fx_past_gens)
next
  case (FxCancelTask task)
  with assms(3) fx_cancel_task_inv[OF assms(2), of task] have "fx_gens t t'" by auto
  with assms(1) show ?thesis by (rule fx_past_gens)
next
  case (FxProcessExit p)
  with assms(3) fx_process_exit_inv[OF assms(2), of p] have "fx_gens t t'" by auto
  with assms(1) show ?thesis by (rule fx_past_gens)
next
  case (FxTakeOutcome h)
  with assms(3) fx_take_outcome_inv[OF assms(2), of h] have "fx_gens t t'" by auto
  with assms(1) show ?thesis by (rule fx_past_gens)
qed

lemma fx_past_run:
  "fx_past k h t \<Longrightarrow> fx_inv n t \<Longrightarrow> run_steps fx_step ops t = Some u \<Longrightarrow> fx_past (k + length ops) h u"
proof (induction ops arbitrary: k t)
  case (Cons a ops)
  from Cons.prems(3) obtain t' where t': "fx_step a t = Some t'" "run_steps fx_step ops t' = Some u"
    by (auto simp: bind_eq_Some_conv)
  have "fx_inv n t'" using fx_step_total[OF Cons.prems(2), of a] t'(1) by auto
  with Cons.IH[of "Suc k" t'] fx_past_step[OF Cons.prems(1,2) t'(1)] t'(2) show ?case by simp
qed simp

lemma fx_past_stale:
  assumes "fx_past k h t" "k < 2 ^ 64" "wh_generation h < 2 ^ 64"
  shows "fx_validate t h = Inl InvalidOrStale"
proof -
  from assms(1) obtain j where j: "j \<le> k"
    "fs_generation (ft_slots t ! wh_slot h) = (wh_generation h + j) mod 2 ^ 64"
    "j = 0 \<longrightarrow> fs_state (ft_slots t ! wh_slot h) = SFree" by (auto simp: fx_past_def)
  have "(wh_generation h + j) mod 2 ^ 64 \<noteq> wh_generation h" if "j \<noteq> 0"
  proof
    assume eq: "(wh_generation h + j) mod 2 ^ 64 = wh_generation h"
    show False
    proof (cases "wh_generation h + j < 2 ^ 64")
      case True
      with eq that show False by simp
    next
      case False
      then have "(wh_generation h + j) mod 2 ^ 64 = wh_generation h + j - 2 ^ 64"
        using j(1) assms(2,3) by (simp add: mod_if)
      with eq that j(1) assms(2) False show False by linarith
    qed
  qed
  with j show ?thesis by (cases "j = 0") (auto simp: fx_validate_def)
qed

text \<open>C30: A handle whose outcome was taken is dead: through fewer than \<open>2^64 - 1\<close> further operations,
  however its slot is reused, every use of the handle is rejected as stale.\<close>

theorem fx_taken_handle_stale:
  assumes inv: "fx_inv n t" and taken: "fx_take_outcome h t = (Inr (Some oc), t')"
    and run: "run_steps fx_step ops t' = Some u" and few: "length ops < 2 ^ 64 - 1"
  shows "fx_state h u = Inl InvalidOrStale \<and> fx_key h u = Inl InvalidOrStale
    \<and> fx_take_outcome h u = (Inl InvalidOrStale, u) \<and> fx_cancel h u = Some (Inl InvalidOrStale, u)"
proof -
  from taken obtain i where v: "fx_validate t h = Inr i" and t': "t' = fx_release i t"
    by (auto simp: fx_take_outcome_def split: sum.splits slot_state.splits)
  note V = fx_validate_InrD[OF v]
  from inv obtain q where q: "fx_wf q t" by (auto simp: fx_inv_def)
  have gen: "wh_generation h < 2 ^ 64"
    using fx_slots_okD(1)[OF fx_wfD(6)[OF q], of i] V by auto
  have inv': "fx_inv n t'" using fx_take_outcome_inv[OF inv, of h] taken by simp
  have "fx_past 0 h t'"
    using V gen by (auto simp: fx_past_def t' fx_release_def Let_def SLOT_EMPTY_def)
  from fx_past_run[OF this inv' run] have "fx_validate u h = Inl InvalidOrStale"
    using few gen by (intro fx_past_stale[of "length ops"]) simp_all
  then show ?thesis
    by (simp add: fx_state_def fx_key_def fx_take_outcome_def fx_cancel_def)
qed

section \<open>Witnesses\<close>

definition fx_k1 :: futex_key where
  "fx_k1 = \<lparr>fk_address_space = 1, fk_address = 4096\<rparr>"

definition fx_k2 :: futex_key where
  "fx_k2 = \<lparr>fk_address_space = 1, fk_address = 4100\<rparr>"

definition fx_task :: "nat \<Rightarrow> task_id" where
  "fx_task k = \<lparr>tid_process = 1, tid_thread = k\<rparr>"

definition fx_sample :: futex_table where
  "fx_sample = snd (fx_wait fx_k1 (fx_task 1) 0 0 0 (Some 50)
     (snd (fx_wait fx_k1 (fx_task 2) 0 0 0 None (fx_new 2))))"

lemma fx_sample_keys: "fk_is_aligned fx_k1" "fk_is_aligned fx_k2" "fx_k1 \<noteq> fx_k2"
  by (simp_all add: fk_is_aligned_def fx_k1_def fx_k2_def)

lemma fx_sample_inv: "fx_inv 2 fx_sample"
  unfolding fx_sample_def by (intro fx_wait_inv fx_inv_new)

lemma fx_sample_eq: "fx_sample = \<lparr>ft_slots =
   [\<lparr>fs_generation = 1, fs_state = SWaiting, fs_key = fx_k1, fs_task = fx_task 2,
     fs_deadline = None, fs_next = Some 1\<rparr>,
    \<lparr>fs_generation = 1, fs_state = SWaiting, fs_key = fx_k1, fs_task = fx_task 1,
     fs_deadline = Some 50, fs_next = None\<rparr>],
   ft_head = Some 0, ft_tail = Some 1, ft_occupied = 2, ft_waiting = 2\<rparr>"
proof -
  have 1: "snd (fx_wait fx_k1 (fx_task 2) 0 0 0 None (fx_new 2)) = \<lparr>ft_slots =
     [\<lparr>fs_generation = 1, fs_state = SWaiting, fs_key = fx_k1, fs_task = fx_task 2,
       fs_deadline = None, fs_next = None\<rparr>, SLOT_EMPTY],
     ft_head = Some 0, ft_tail = Some 0, ft_occupied = 1, ft_waiting = 1\<rparr>"
    using fx_sample_keys(1)
    by (simp add: fx_wait_def fx_new_def numeral_2_eq_2 wrapping_add_def fx_put_def SLOT_EMPTY_def)
  show ?thesis
    unfolding fx_sample_def 1 using fx_sample_keys(1)
    by (simp add: fx_wait_def wrapping_add_def fx_put_def SLOT_EMPTY_def fx_task_def)
qed

lemma fx_sample_waiters: "map fw_task (fx_waiters fx_sample) = [fx_task 2, fx_task 1]"
  "map fw_key (fx_waiters fx_sample) = [fx_k1, fx_k1]"
  "map fw_deadline (fx_waiters fx_sample) = [None, Some 50]"
  by (simp_all add: fx_waiters_def fx_queue_def fx_sample_eq fx_waiter_def numeral_2_eq_2)

theorem fx_wake_fifo_witness:
  "\<exists>t'. fx_wake fx_k1 1 fx_sample = Some (Inr 1, [(fx_task 2, \<lparr>wh_slot = 0, wh_generation = 1\<rparr>)], t')"
  using fx_wake_fifo[OF fx_sample_inv fx_sample_keys(1), of 1]
  by (auto simp: fx_waiters_def fx_queue_def fx_sample_eq fx_waiter_def fx_notify_def numeral_2_eq_2)

theorem fx_requeue_spec_witness:
  "\<exists>t'. fx_requeue fx_k1 fx_k2 1 1 fx_sample
     = Some (Inr (1, 1), [(fx_task 2, \<lparr>wh_slot = 0, wh_generation = 1\<rparr>)], t')"
  using fx_requeue_spec[OF fx_sample_inv fx_sample_keys, of 1 1]
  by (auto simp: fx_waiters_def fx_queue_def fx_sample_eq fx_waiter_def fx_notify_def numeral_2_eq_2)

theorem fx_expire_spec_witness:
  "\<exists>t'. fx_expire 60 fx_sample = Some (1, [(fx_task 1, \<lparr>wh_slot = 1, wh_generation = 1\<rparr>)], t')"
  using fx_expire_spec[OF fx_sample_inv, of 60]
  by (auto simp: fx_waiters_def fx_queue_def fx_sample_eq fx_waiter_def fx_notify_def numeral_2_eq_2)

theorem fx_taken_handle_stale_witness:
  "\<exists>t t' h. fx_inv 2 t \<and> fx_take_outcome h t = (Inr (Some OutcomeCancelled), t')
     \<and> fx_state h t' = Inl InvalidOrStale"
proof -
  let ?h = "\<lparr>wh_slot = 1, wh_generation = 1\<rparr>"
  obtain r t where c: "fx_cancel ?h fx_sample = Some (r, t)" and inv: "fx_inv 2 t"
    using fx_cancel_inv[OF fx_sample_inv, of ?h] by blast
  from c have t: "fs_state (ft_slots t ! 1) = SCancelled" "fs_generation (ft_slots t ! 1) = 1"
    "length (ft_slots t) = 2"
    by (auto simp: fx_cancel_def fx_validate_def fx_sample_eq fx_unlink_index_def
        fx_unlink_loop.simps fx_unlink_def fx_put_def Let_def)
  then obtain t' where "fx_take_outcome ?h t = (Inr (Some OutcomeCancelled), t')"
    by (simp add: fx_take_outcome_def fx_validate_def)
  with fx_taken_handle_stale[OF inv this, of "[]"] inv show ?thesis by auto
qed

end
