(* ===== verification/Vm_Space.thy ===== *)
theory Vm_Space
  imports Prelude "HOL-Library.Multiset" "HOL-Library.Product_Lexorder"
begin

text \<open>
  The address-space region table of \<open>src/crates/vm-space/src/lib.rs\<close>: a fixed array of
  regions (owner, base, page count, protection) with first-fit and fixed placement, removal
  and re-protection of page ranges with region splitting, lookup, and cloning for fork.

  Addresses and sizes are \<^typ>\<open>nat\<close> below $2^{64}$; \<open>checked_mul\<close>/\<open>checked_add\<close> of the
  source are the checked operations of the prelude, an unchecked product is \<^const>\<open>wrapping_mul\<close>.
  \<open>sort_unstable_by_key\<close> is any function that permutes the table into key order
  (locale \<open>region_sort\<close>).
\<close>

unbundle bit_operations_syntax

section \<open>Model\<close>

record region =
  rg_owner :: nat
  rg_base :: nat
  rg_pages :: nat
  rg_protection :: nat

type_synonym region_table = "region list"

definition REGION_EMPTY :: region where
  "REGION_EMPTY = \<lparr>rg_owner = 0, rg_base = 0, rg_pages = 0, rg_protection = 0\<rparr>"

definition rg_used :: "region \<Rightarrow> bool" where
  "rg_used r \<longleftrightarrow> rg_owner r \<noteq> 0"

definition rg_end :: "region \<Rightarrow> nat \<Rightarrow> nat option" where
  "rg_end r page_size =
     (case checked_mul (rg_pages r) page_size of
        None \<Rightarrow> None
      | Some bytes \<Rightarrow> checked_add (rg_base r) bytes)"

definition unwrap_or :: "'a option \<Rightarrow> 'a \<Rightarrow> 'a" where
  "unwrap_or x d = (case x of None \<Rightarrow> d | Some y \<Rightarrow> y)"

definition is_power_of_two :: "nat \<Rightarrow> bool" where
  "is_power_of_two x \<longleftrightarrow> list_ex (\<lambda>k. x = 2 ^ k) [0..<64]"

text \<open>Bitwise complement of a \<open>u64\<close>.\<close>

definition u64_not :: "nat \<Rightarrow> nat" where
  "u64_not x = u64_max - x"

definition vm_new :: "nat \<Rightarrow> region_table" where
  "vm_new n = replicate n REGION_EMPTY"

definition vm_clear :: "region_table \<Rightarrow> region_table" where
  "vm_clear t = map (\<lambda>_. REGION_EMPTY) t"

definition vm_align_up :: "nat \<Rightarrow> nat \<Rightarrow> nat option" where
  "vm_align_up v alignment =
     map_option (\<lambda>w. w AND u64_not (alignment - 1)) (checked_add v (alignment - 1))"

text \<open>The gap walk over the sorted table, with the loop variable \<open>candidate\<close>.\<close>

fun vm_first_fit_base ::
  "region list \<Rightarrow> nat \<Rightarrow> nat \<Rightarrow> nat \<Rightarrow> nat \<Rightarrow> nat \<Rightarrow> nat option" where
  "vm_first_fit_base [] owner bytes candidate arena_limit page_size =
     (case checked_add candidate bytes of
        None \<Rightarrow> None
      | Some e \<Rightarrow> if e \<le> arena_limit then Some candidate else None)"
| "vm_first_fit_base (entry # entries) owner bytes candidate arena_limit page_size =
     (case checked_add candidate bytes of
        None \<Rightarrow> None
      | Some e \<Rightarrow>
          if arena_limit < e then None
          else if \<not> rg_used entry then
            vm_first_fit_base [] owner bytes candidate arena_limit page_size
          else if rg_owner entry \<noteq> owner then
            vm_first_fit_base entries owner bytes candidate arena_limit page_size
          else if e \<le> rg_base entry then
            vm_first_fit_base [] owner bytes candidate arena_limit page_size
          else if candidate < unwrap_or (rg_end entry page_size) u64_max then
            (case rg_end entry page_size of
               None \<Rightarrow> None
             | Some x \<Rightarrow>
                 (case vm_align_up x page_size of
                    None \<Rightarrow> None
                  | Some c \<Rightarrow> vm_first_fit_base entries owner bytes c arena_limit page_size))
          else vm_first_fit_base entries owner bytes candidate arena_limit page_size)"

definition rg_key :: "region \<Rightarrow> bool \<times> nat" where
  "rg_key r = (\<not> rg_used r, rg_base r)"

definition vm_allocate_first_fit ::
  "(region list \<Rightarrow> region list) \<Rightarrow> region_table \<Rightarrow> nat \<Rightarrow> nat \<Rightarrow> nat \<Rightarrow> nat \<Rightarrow> nat \<Rightarrow> nat
   \<Rightarrow> nat option \<times> region_table" where
  "vm_allocate_first_fit sort_unstable t owner pages protection arena_base arena_limit page_size =
     (if owner = 0 \<or> pages = 0 \<or> page_size = 0 \<or> \<not> is_power_of_two page_size
         \<or> arena_base AND (page_size - 1) \<noteq> 0 \<or> arena_limit \<le> arena_base
      then (None, t)
      else case checked_mul pages page_size of
        None \<Rightarrow> (None, t)
      | Some bytes \<Rightarrow>
          (case position (\<lambda>e. \<not> rg_used e) t of
             None \<Rightarrow> (None, t)
           | Some _ \<Rightarrow>
               (let t1 = sort_unstable t
                in case vm_first_fit_base t1 owner bytes arena_base arena_limit page_size of
                     None \<Rightarrow> (None, t1)
                   | Some base \<Rightarrow>
                       (case position (\<lambda>e. \<not> rg_used e) t1 of
                          None \<Rightarrow> (None, t1)
                        | Some slot \<Rightarrow>
                            (Some base,
                             t1[slot := \<lparr>rg_owner = owner, rg_base = base, rg_pages = pages,
                                         rg_protection = protection\<rparr>])))))"

definition vm_allocate_fixed ::
  "region_table \<Rightarrow> nat \<Rightarrow> nat \<Rightarrow> nat \<Rightarrow> nat \<Rightarrow> nat \<Rightarrow> nat \<Rightarrow> nat \<Rightarrow> bool \<times> region_table" where
  "vm_allocate_fixed t owner base pages protection arena_base arena_limit page_size =
     (if owner = 0 \<or> pages = 0 \<or> page_size = 0 \<or> \<not> is_power_of_two page_size
         \<or> base AND (page_size - 1) \<noteq> 0 \<or> base < arena_base
      then (False, t)
      else case checked_add base (wrapping_mul pages page_size) of
        None \<Rightarrow> (False, t)
      | Some e \<Rightarrow>
          if arena_limit < e
             \<or> list_ex (\<lambda>entry. rg_used entry \<and> rg_owner entry = owner
                         \<and> base < unwrap_or (rg_end entry page_size) u64_max
                         \<and> rg_base entry < e) t
          then (False, t)
          else (case position (\<lambda>entry. \<not> rg_used entry) t of
                  None \<Rightarrow> (False, t)
                | Some slot \<Rightarrow>
                    (True, t[slot := \<lparr>rg_owner = owner, rg_base = base, rg_pages = pages,
                                      rg_protection = protection\<rparr>])))"

text \<open>\<open>containing\<close>: slot, region, first page and page after the range within that region.\<close>

definition vm_containing ::
  "region_table \<Rightarrow> nat \<Rightarrow> nat \<Rightarrow> nat \<Rightarrow> nat \<Rightarrow> (nat \<times> region \<times> nat \<times> nat) option" where
  "vm_containing t owner base pages page_size =
     (if owner = 0 \<or> pages = 0 \<or> page_size = 0 \<or> base AND (page_size - 1) \<noteq> 0 then None
      else case checked_mul pages page_size of
        None \<Rightarrow> None
      | Some bytes \<Rightarrow>
          (case checked_add base bytes of
             None \<Rightarrow> None
           | Some e \<Rightarrow>
               (case position (\<lambda>entry. rg_used entry \<and> rg_owner entry = owner
                        \<and> rg_base entry \<le> base
                        \<and> e \<le> unwrap_or (rg_end entry page_size) (rg_base entry)) t of
                  None \<Rightarrow> None
                | Some index \<Rightarrow>
                    (let region = t ! index;
                         first = (base - rg_base region) div page_size
                     in Some (index, region, first, first + pages)))))"

definition vm_other_free :: "region_table \<Rightarrow> nat \<Rightarrow> nat list" where
  "vm_other_free t index =
     filter (\<lambda>candidate. candidate \<noteq> index \<and> \<not> rg_used (t ! candidate)) [0..<length t]"

definition vm_remove :: "region_table \<Rightarrow> nat \<Rightarrow> nat \<Rightarrow> nat \<Rightarrow> nat \<Rightarrow> bool \<times> region_table" where
  "vm_remove t owner base pages page_size =
     (case vm_containing t owner base pages page_size of
        None \<Rightarrow> (False, t)
      | Some (index, region, first, after) \<Rightarrow>
          (let left_pages = first;
               right_pages = rg_pages region - after;
               right_slot =
                 (if left_pages \<noteq> 0 \<and> right_pages \<noteq> 0
                  then (case vm_other_free t index of [] \<Rightarrow> None | c # _ \<Rightarrow> Some c)
                  else Some index)
           in case right_slot of
                None \<Rightarrow> (False, t)
              | Some slot \<Rightarrow>
                  (let t1 = t[index := if left_pages = 0 then REGION_EMPTY
                                       else region\<lparr>rg_pages := left_pages\<rparr>]
                   in (True,
                       if right_pages \<noteq> 0
                       then t1[slot := region\<lparr>rg_base := base + pages * page_size,
                                             rg_pages := right_pages\<rparr>]
                       else t1))))"

definition vm_protect ::
  "region_table \<Rightarrow> nat \<Rightarrow> nat \<Rightarrow> nat \<Rightarrow> nat \<Rightarrow> nat \<Rightarrow> bool \<times> region_table" where
  "vm_protect t owner base pages protection page_size =
     (case vm_containing t owner base pages page_size of
        None \<Rightarrow> (False, t)
      | Some (index, region, first, after) \<Rightarrow>
          (let left_pages = first;
               right_pages = rg_pages region - after;
               extras = (if left_pages \<noteq> 0 then 1 else 0) + (if right_pages \<noteq> 0 then 1 else 0);
               free = take extras (vm_other_free t index)
           in if length free \<noteq> extras then (False, t)
              else
                (let t1 = t[index := \<lparr>rg_owner = owner, rg_base = base, rg_pages = pages,
                                      rg_protection = protection\<rparr>];
                     t2 = (if left_pages \<noteq> 0
                           then t1[free ! 0 := region\<lparr>rg_pages := left_pages\<rparr>] else t1);
                     next_free = (if left_pages \<noteq> 0 then 1 else 0)
                 in (True,
                     if right_pages \<noteq> 0
                     then t2[free ! next_free :=
                               region\<lparr>rg_base := base + pages * page_size,
                                      rg_pages := right_pages\<rparr>]
                     else t2))))"

definition vm_find :: "region_table \<Rightarrow> nat \<Rightarrow> nat \<Rightarrow> nat \<Rightarrow> region option" where
  "vm_find t owner address page_size =
     List.find (\<lambda>entry. rg_used entry \<and> rg_owner entry = owner \<and> rg_base entry \<le> address
                  \<and> address < unwrap_or (rg_end entry page_size) (rg_base entry)) t"

fun vm_forget :: "region_table \<Rightarrow> nat \<Rightarrow> (nat \<times> nat) \<times> region_table" where
  "vm_forget [] owner = ((0, 0), [])"
| "vm_forget (entry # t) owner =
     (let ((regions, pages), t') = vm_forget t owner
      in if rg_used entry \<and> rg_owner entry = owner
         then ((regions + 1, wrapping_add pages (rg_pages entry)), REGION_EMPTY # t')
         else ((regions, pages), entry # t'))"

definition vm_count :: "region_table \<Rightarrow> nat \<Rightarrow> nat" where
  "vm_count t owner = count_if (\<lambda>entry. rg_used entry \<and> rg_owner entry = owner) t"

definition vm_free_slots :: "region_table \<Rightarrow> nat" where
  "vm_free_slots t = count_if (\<lambda>entry. \<not> rg_used entry) t"

text \<open>One turn of the copying loop; \<^const>\<open>None\<close> is the panic of \<open>expect\<close>.\<close>

definition vm_clone_turn :: "nat \<Rightarrow> nat \<Rightarrow> nat \<Rightarrow> region_table \<Rightarrow> region_table option" where
  "vm_clone_turn source destination index t =
     (let source_entry = t ! index
      in if \<not> rg_used source_entry \<or> rg_owner source_entry \<noteq> source then Some t
         else case position (\<lambda>entry. \<not> rg_used entry) t of
                None \<Rightarrow> None
              | Some slot \<Rightarrow> Some (t[slot := source_entry\<lparr>rg_owner := destination\<rparr>]))"

definition vm_clone_owner :: "region_table \<Rightarrow> nat \<Rightarrow> nat \<Rightarrow> (bool \<times> region_table) option" where
  "vm_clone_owner t source destination =
     (if source = 0 \<or> destination = 0 \<or> source = destination
         \<or> list_ex (\<lambda>entry. rg_owner entry = destination) t
      then Some (False, t)
      else if vm_free_slots t < vm_count t source then Some (False, t)
      else map_option (Pair True)
             (run_steps (vm_clone_turn source destination) [0..<length t] t))"

section \<open>Powers of two and alignment\<close>

lemma is_power_of_two_iff: "is_power_of_two x \<longleftrightarrow> (\<exists>k < 64. x = 2 ^ k)"
  by (auto simp: is_power_of_two_def list_ex_iff)

lemma and_mask_dvd:
  assumes "is_power_of_two ps"
  shows "b AND (ps - 1) = 0 \<longleftrightarrow> ps dvd b"
proof -
  obtain k where k: "ps = 2 ^ k" using assms by (auto simp: is_power_of_two_iff)
  have "b AND (ps - 1) = b mod ps"
    by (simp only: k take_bit_eq_mod [symmetric] take_bit_eq_mask mask_eq_exp_minus_1)
  then show ?thesis by (simp add: dvd_eq_mod_eq_0)
qed

lemma and_high_mask:
  fixes v :: nat
  assumes "k < 64" "v < 2 ^ 64"
  shows "v AND u64_not (2 ^ k - 1) = 2 ^ k * (v div 2 ^ k)"
proof -
  have m: "u64_not (2 ^ k - 1) = push_bit k (mask (64 - k))"
    using assms(1)
    by (simp add: u64_not_def u64_max_def push_bit_eq_mult mask_eq_exp_minus_1
        diff_mult_distrib flip: power_add)
  have "v AND push_bit k (mask (64 - k)) = push_bit k (drop_bit k v)"
  proof (rule bit_eqI)
    fix n
    have "bit v n \<Longrightarrow> n < 64"
      using assms(2) by (metis bit_take_bit_iff take_bit_nat_eq_self_iff)
    then show "bit (v AND push_bit k (mask (64 - k))) n = bit (push_bit k (drop_bit k v)) n"
      by (auto simp: bit_and_iff bit_push_bit_iff bit_mask_iff bit_drop_bit_eq)
  qed
  then show ?thesis using m by (simp add: push_bit_eq_mult drop_bit_eq_div mult.commute)
qed

lemma vm_align_up_id:
  assumes "is_power_of_two ps" "ps dvd v" "v + (ps - 1) < 2 ^ 64"
  shows "vm_align_up v ps = Some v"
proof -
  obtain k where k: "k < 64" "ps = 2 ^ k" using assms(1) by (auto simp: is_power_of_two_iff)
  have "(v + (ps - 1)) AND u64_not (ps - 1) = ps * ((v + (ps - 1)) div ps)"
    using and_high_mask[OF k(1), of "v + (ps - 1)"] assms(3) k(2) by simp
  also have "\<dots> = v"
  proof -
    obtain q where q: "v = ps * q" using assms(2) by (rule dvdE)
    have "0 < ps" using k(2) by simp
    then have "(ps * q + (ps - 1)) div ps = q" by (intro div_nat_eqI) (simp_all add: mult.commute)
    then show ?thesis using q by simp
  qed
  finally show ?thesis using assms(3) by (simp add: vm_align_up_def checked_add_def)
qed

section \<open>Invariant\<close>

text \<open>
  Every used region has pages, is page aligned and ends below the address limit; regions of
  one owner do not overlap.
\<close>

definition rg_stop :: "nat \<Rightarrow> region \<Rightarrow> nat" where
  "rg_stop ps r = rg_base r + rg_pages r * ps"

definition rg_ok :: "nat \<Rightarrow> region \<Rightarrow> bool" where
  "rg_ok ps r \<longleftrightarrow>
     (rg_used r \<longrightarrow> is_power_of_two ps \<and> 0 < rg_pages r \<and> ps dvd rg_base r \<and> rg_stop ps r < 2 ^ 64)"

definition rg_apart :: "nat \<Rightarrow> region \<Rightarrow> region \<Rightarrow> bool" where
  "rg_apart ps r s \<longleftrightarrow>
     (rg_used r \<and> rg_used s \<and> rg_owner r = rg_owner s
      \<longrightarrow> rg_stop ps r \<le> rg_base s \<or> rg_stop ps s \<le> rg_base r)"

definition vm_inv :: "nat \<Rightarrow> nat \<Rightarrow> region_table \<Rightarrow> bool" where
  "vm_inv n ps t \<longleftrightarrow> length t = n \<and> list_all (rg_ok ps) t \<and> sorted_wrt (rg_apart ps) t"

lemma is_power_of_two_pos: "is_power_of_two ps \<Longrightarrow> 0 < ps"
  by (auto simp: is_power_of_two_iff)

lemma rg_apart_sym: "rg_apart ps r s \<longleftrightarrow> rg_apart ps s r"
  by (auto simp: rg_apart_def)

lemma rg_EMPTY [simp]:
  "\<not> rg_used REGION_EMPTY" "rg_owner REGION_EMPTY = 0" "rg_ok ps REGION_EMPTY"
  "rg_apart ps REGION_EMPTY r" "rg_apart ps r REGION_EMPTY"
  by (simp_all add: rg_used_def REGION_EMPTY_def rg_ok_def rg_apart_def)

lemma rg_unused [simp]:
  "\<not> rg_used r \<Longrightarrow> rg_ok ps r" "\<not> rg_used r \<Longrightarrow> rg_apart ps r s" "\<not> rg_used s \<Longrightarrow> rg_apart ps r s"
  by (simp_all add: rg_ok_def rg_apart_def)

lemma rg_end_ok: "rg_ok ps r \<Longrightarrow> rg_used r \<Longrightarrow> rg_end r ps = Some (rg_stop ps r)"
  by (auto simp: rg_ok_def rg_end_def rg_stop_def checked_mul_def checked_add_def)

lemma rg_stop_dvd: "rg_ok ps r \<Longrightarrow> rg_used r \<Longrightarrow> ps dvd rg_stop ps r"
  by (auto simp: rg_ok_def rg_stop_def)

lemma unwrap_or_Some [simp]: "unwrap_or (Some x) d = x"
  by (simp add: unwrap_or_def)

lemma sorted_wrt_perm:
  assumes "\<And>x y. R x y \<longleftrightarrow> R y x" "mset xs = mset ys" "sorted_wrt R xs"
  shows "sorted_wrt R ys"
  using assms(2,3)
proof (induction xs arbitrary: ys)
  case Nil
  then show ?case by simp
next
  case (Cons x xs)
  from Cons.prems(1) have "x \<in> set ys" by (metis list.set_intros(1) set_mset_mset)
  then obtain as bs where ys: "ys = as @ x # bs" by (meson split_list)
  have m: "mset xs = mset (as @ bs)" using Cons.prems(1) ys by simp
  have s: "sorted_wrt R (as @ bs)" using Cons.IH[OF m] Cons.prems(2) by simp
  have "set xs = set (as @ bs)" using m by (metis set_mset_mset)
  then have "\<forall>y \<in> set (as @ bs). R x y" using Cons.prems(2) by simp
  with s show ?case unfolding ys using assms(1) by (auto simp: sorted_wrt_append)
qed

lemma sorted_wrt_filter_trivial:
  assumes "\<And>x y. \<not> P x \<Longrightarrow> R x y" "\<And>x y. \<not> P y \<Longrightarrow> R x y"
  shows "sorted_wrt R (filter P xs) \<longleftrightarrow> sorted_wrt R xs"
  by (induction xs) (auto intro: assms)

text \<open>
  The invariant and the lookups depend only on the multiset of used regions, which is what
  the slot bookkeeping of every operation moves.
\<close>

definition vm_used :: "region_table \<Rightarrow> region multiset" where
  "vm_used t = mset (filter rg_used t)"

definition vm_ok :: "nat \<Rightarrow> region multiset \<Rightarrow> bool" where
  "vm_ok ps M \<longleftrightarrow> (\<exists>xs. mset xs = M \<and> list_all (rg_ok ps) xs \<and> sorted_wrt (rg_apart ps) xs)"

lemma vm_ok_mset: "vm_ok ps (mset xs) \<longleftrightarrow> list_all (rg_ok ps) xs \<and> sorted_wrt (rg_apart ps) xs"
proof
  assume "vm_ok ps (mset xs)"
  then obtain ys where ys: "mset ys = mset xs" "list_all (rg_ok ps) ys" "sorted_wrt (rg_apart ps) ys"
    by (auto simp: vm_ok_def)
  from sorted_wrt_perm[OF rg_apart_sym ys(1,3)] ys(2) mset_eq_setD[OF ys(1)]
  show "list_all (rg_ok ps) xs \<and> sorted_wrt (rg_apart ps) xs" by (simp add: list_all_iff)
qed (auto simp: vm_ok_def)

lemma vm_ok_empty [simp]: "vm_ok ps {#}"
  using vm_ok_mset[of ps "[]"] by simp

lemma vm_ok_add [simp]:
  "vm_ok ps (add_mset r M) \<longleftrightarrow> rg_ok ps r \<and> (\<forall>s \<in># M. rg_apart ps r s) \<and> vm_ok ps M"
proof -
  obtain xs where "M = mset xs" using ex_mset by metis
  then show ?thesis using vm_ok_mset[of ps "r # xs"] vm_ok_mset[of ps xs] by auto
qed

lemma vm_inv_iff: "vm_inv n ps t \<longleftrightarrow> length t = n \<and> vm_ok ps (vm_used t)"
proof -
  have "list_all (rg_ok ps) (filter rg_used t) \<longleftrightarrow> list_all (rg_ok ps) t"
    by (induction t) auto
  then show ?thesis
    by (simp add: vm_inv_def vm_used_def vm_ok_mset sorted_wrt_filter_trivial
        del: mset_filter)
qed

lemma vm_used_add:
  assumes "i < length t" "\<not> rg_used (t ! i)" "rg_used r"
  shows "vm_used (t[i := r]) = add_mset r (vm_used t)"
proof -
  have t: "t = take i t @ t ! i # drop (Suc i) t" using assms(1) by (rule id_take_nth_drop)
  have "vm_used t = vm_used (take i t) + vm_used (drop (Suc i) t)"
    by (subst t) (simp add: vm_used_def assms(2))
  moreover have "vm_used (t[i := r]) = add_mset r (vm_used (take i t) + vm_used (drop (Suc i) t))"
    using assms(1,3) by (simp add: vm_used_def upd_conv_take_nth_drop)
  ultimately show ?thesis by simp
qed

lemma vm_used_take:
  assumes "i < length t" "rg_used (t ! i)"
  obtains M where "vm_used t = add_mset (t ! i) M"
    and "\<And>r. vm_used (t[i := r]) = (if rg_used r then add_mset r M else M)"
proof
  have t: "t = take i t @ t ! i # drop (Suc i) t" using assms(1) by (rule id_take_nth_drop)
  show "vm_used t = add_mset (t ! i) (vm_used (take i t) + vm_used (drop (Suc i) t))"
    by (subst t) (simp add: vm_used_def assms(2))
  show "vm_used (t[i := r]) = (if rg_used r
      then add_mset r (vm_used (take i t) + vm_used (drop (Suc i) t))
      else vm_used (take i t) + vm_used (drop (Suc i) t))" for r
    using assms(1) by (simp add: vm_used_def upd_conv_take_nth_drop)
qed

lemma vm_used_perm: "mset t = mset t' \<Longrightarrow> vm_used t = vm_used t'"
  by (simp add: vm_used_def)

lemma vm_used_nth: "i < length t \<Longrightarrow> rg_used (t ! i) \<Longrightarrow> t ! i \<in># vm_used t"
  by (simp add: vm_used_def)

section \<open>First fit\<close>

text \<open>\<open>vm_fits\<close>: an aligned placement in \<open>[lo, hi)\<close> clear of the owner's regions.\<close>

definition vm_fits :: "nat \<Rightarrow> region list \<Rightarrow> nat \<Rightarrow> nat \<Rightarrow> nat \<Rightarrow> nat \<Rightarrow> nat \<Rightarrow> bool" where
  "vm_fits ps t owner bytes lo hi b \<longleftrightarrow>
     lo \<le> b \<and> b + bytes \<le> hi \<and> ps dvd b
     \<and> (\<forall>r \<in> set t. rg_used r \<and> rg_owner r = owner
          \<longrightarrow> b + bytes \<le> rg_base r \<or> rg_stop ps r \<le> b)"

definition least_or_none :: "(nat \<Rightarrow> bool) \<Rightarrow> nat option \<Rightarrow> bool" where
  "least_or_none P r \<longleftrightarrow>
     (case r of None \<Rightarrow> \<forall>b. \<not> P b | Some b \<Rightarrow> P b \<and> (\<forall>b'. P b' \<longrightarrow> b \<le> b'))"

lemma vm_fits_skip:
  "\<not> rg_used x \<or> rg_owner x \<noteq> owner \<Longrightarrow>
   vm_fits ps (x # xs) owner bytes lo hi b \<longleftrightarrow> vm_fits ps xs owner bytes lo hi b"
  by (auto simp: vm_fits_def)

lemma vm_fits_past:
  "rg_used x \<Longrightarrow> rg_owner x = owner \<Longrightarrow> rg_base x < lo + bytes \<Longrightarrow>
   vm_fits ps (x # xs) owner bytes lo hi b \<longleftrightarrow>
   vm_fits ps xs owner bytes (max lo (rg_stop ps x)) hi b"
  by (auto simp: vm_fits_def)

lemma vm_fits_here:
  assumes "sorted (map rg_key (x # xs))" "\<not> rg_used x \<or> lo + bytes \<le> rg_base x"
    and "lo + bytes \<le> hi" "ps dvd lo"
  shows "vm_fits ps (x # xs) owner bytes lo hi lo"
proof -
  have "rg_used r \<Longrightarrow> lo + bytes \<le> rg_base r" if "r \<in> set (x # xs)" for r
  proof -
    assume r: "rg_used r"
    have "rg_key x \<le> rg_key r" using assms(1) that by auto
    then have "rg_used x \<and> rg_base x \<le> rg_base r"
      using r by (cases "rg_used x") (simp_all add: rg_key_def)
    then show "lo + bytes \<le> rg_base r" using assms(2) by simp
  qed
  then show ?thesis using assms(3,4) by (auto simp: vm_fits_def)
qed

lemma vm_first_fit_base_least:
  assumes "is_power_of_two ps" "ps \<le> bytes" "hi < 2 ^ 64"
  shows "sorted (map rg_key xs) \<Longrightarrow> list_all (rg_ok ps) xs \<Longrightarrow> ps dvd c \<Longrightarrow>
    least_or_none (vm_fits ps xs owner bytes c hi) (vm_first_fit_base xs owner bytes c hi ps)"
proof (induction xs arbitrary: c)
  case Nil
  then show ?case using assms(3)
    by (auto simp: least_or_none_def vm_fits_def checked_add_def)
next
  case (Cons x xs)
  let ?F = "vm_fits ps (x # xs) owner bytes c hi"
  have IH: "ps dvd c' \<Longrightarrow> least_or_none (vm_fits ps xs owner bytes c' hi)
      (vm_first_fit_base xs owner bytes c' hi ps)" for c'
    using Cons.IH Cons.prems by simp
  show ?case
  proof (cases "c + bytes \<le> hi")
    case False
    then have "\<not> ?F b" for b by (auto simp: vm_fits_def)
    then show ?thesis using False by (auto simp: least_or_none_def checked_add_def)
  next
    case fit: True
    then have ca: "c + bytes < 2 ^ 64" using assms(3) by simp
    show ?thesis
    proof (cases "\<not> rg_used x \<or> rg_owner x = owner \<and> c + bytes \<le> rg_base x")
      case True
      then have "?F c" using vm_fits_here[OF Cons.prems(1)] fit Cons.prems(3) by auto
      moreover have "vm_first_fit_base (x # xs) owner bytes c hi ps = Some c"
        using True fit ca by (auto simp: checked_add_def)
      ultimately show ?thesis by (simp add: least_or_none_def vm_fits_def)
    next
      case False
      then have used: "rg_used x" by simp
      show ?thesis
      proof (cases "rg_owner x = owner")
        case other: False
        have "vm_first_fit_base (x # xs) owner bytes c hi ps
            = vm_first_fit_base xs owner bytes c hi ps"
          using other used fit ca by (simp add: checked_add_def)
        moreover have "?F = vm_fits ps xs owner bytes c hi"
          using other by (auto simp: vm_fits_skip)
        ultimately show ?thesis using IH[OF Cons.prems(3)] by simp
      next
        case owner: True
        let ?e = "rg_stop ps x"
        have ok: "rg_ok ps x" using Cons.prems(2) by simp
        have e: "rg_end x ps = Some ?e" "ps dvd ?e"
          using rg_end_ok[OF ok used] rg_stop_dvd[OF ok used] by simp_all
        have F: "?F = vm_fits ps xs owner bytes (max c ?e) hi"
          using vm_fits_past[OF used owner] False owner by (auto simp: not_le)
        show ?thesis
        proof (cases "c < ?e \<and> 2 ^ 64 \<le> ?e + (ps - 1)")
          case True
          then have "vm_align_up ?e ps = None" by (simp add: vm_align_up_def)
          then have "vm_first_fit_base (x # xs) owner bytes c hi ps = None"
            using True e used owner fit ca False by (simp add: checked_add_def)
          moreover have "\<not> ?F b" for b
            using F True assms is_power_of_two_pos[OF assms(1)] by (auto simp: vm_fits_def)
          ultimately show ?thesis by (simp add: least_or_none_def)
        next
          case al: False
          have "vm_first_fit_base (x # xs) owner bytes c hi ps
              = vm_first_fit_base xs owner bytes (max c ?e) hi ps"
            using al e used owner fit ca False vm_align_up_id[OF assms(1) e(2)]
            by (cases "c < ?e") (simp_all add: checked_add_def)
          then show ?thesis using IH[of "max c ?e"] Cons.prems(3) e(2) F by (simp add: max_def)
        qed
      qed
    qed
  qed
qed

text \<open>The contract of \<open>sort_unstable_by_key\<close>: some permutation in key order.\<close>

locale region_sort =
  fixes sort_unstable :: "region list \<Rightarrow> region list"
  assumes sort_mset: "mset (sort_unstable t) = mset t"
    and sort_sorted: "sorted (map rg_key (sort_unstable t))"
begin

lemma sort_length [simp]: "length (sort_unstable t) = length t"
  using sort_mset by (metis size_mset)

lemma sort_set [simp]: "set (sort_unstable t) = set t"
  using sort_mset by (metis set_mset_mset)

lemma sort_used [simp]: "vm_used (sort_unstable t) = vm_used t"
  by (rule vm_used_perm) (rule sort_mset)

lemma sort_fits [simp]: "vm_fits ps (sort_unstable t) = vm_fits ps t"
  by (simp add: vm_fits_def fun_eq_iff)

text \<open>The whole of \<open>allocate_first_fit\<close>: arguments, table space, placement and new table.\<close>

lemma allocate_first_fit:
  assumes inv: "vm_inv n ps t" and hi: "hi < 2 ^ 64"
    and call: "vm_allocate_first_fit sort_unstable t owner pages prot lo hi ps = (res, t')"
  defines "valid \<equiv> owner \<noteq> 0 \<and> pages \<noteq> 0 \<and> is_power_of_two ps \<and> ps dvd lo
      \<and> pages * ps < 2 ^ 64 \<and> \<not> list_all rg_used t"
  shows "case res of
      None \<Rightarrow> (\<not> valid \<or> (\<forall>b. \<not> vm_fits ps t owner (pages * ps) lo hi b)) \<and> vm_used t' = vm_used t
        \<and> length t' = n
    | Some b \<Rightarrow> valid \<and> vm_fits ps t owner (pages * ps) lo hi b
        \<and> (\<forall>b'. vm_fits ps t owner (pages * ps) lo hi b' \<longrightarrow> b \<le> b') \<and> length t' = n
        \<and> vm_used t' = add_mset \<lparr>rg_owner = owner, rg_base = b, rg_pages = pages,
                                  rg_protection = prot\<rparr> (vm_used t)"
proof -
  have len: "length t = n" and ok: "list_all (rg_ok ps) t" using inv by (auto simp: vm_inv_def)
  show ?thesis
  proof (cases "valid \<and> lo < hi")
    case False
    have "res = None \<and> t' = t"
    proof (cases "owner = 0 \<or> pages = 0 \<or> \<not> is_power_of_two ps \<or> \<not> ps dvd lo \<or> hi \<le> lo")
      case True
      then show ?thesis using call and_mask_dvd[of ps lo]
        by (auto simp: vm_allocate_first_fit_def)
    next
      case args: False
      then have "2 ^ 64 \<le> pages * ps \<or> list_all rg_used t" using False by (auto simp: valid_def)
      then have "checked_mul pages ps = None \<or> position (\<lambda>e. \<not> rg_used e) t = None"
        by (auto simp: position_None_iff list_all_iff)
      then show ?thesis using call
        by (auto simp: vm_allocate_first_fit_def simp del: checked_mul_None split: if_splits option.splits)
    qed
    moreover have "\<not> vm_fits ps t owner (pages * ps) lo hi b" if valid "hi \<le> lo" for b
    proof -
      have "0 < pages * ps" using that by (auto simp: valid_def dest: is_power_of_two_pos)
      then show ?thesis using that(2) unfolding vm_fits_def by linarith
    qed
    ultimately show ?thesis using False len by auto
  next
    case True
    let ?s = "sort_unstable t"
    from True have pos: "0 < ps" by (auto simp: valid_def dest: is_power_of_two_pos)
    have "\<exists>x \<in> set t. \<not> rg_used x" using True by (auto simp: valid_def list_all_iff)
    then obtain i j where ij: "position (\<lambda>e. \<not> rg_used e) t = Some i"
        "position (\<lambda>e. \<not> rg_used e) ?s = Some j"
      by (metis not_None_eq position_None_iff sort_set)
    have call': "vm_allocate_first_fit sort_unstable t owner pages prot lo hi ps = (case vm_first_fit_base ?s owner (pages * ps) lo hi ps of
          None \<Rightarrow> (None, ?s)
        | Some b \<Rightarrow> (Some b, ?s[j := \<lparr>rg_owner = owner, rg_base = b, rg_pages = pages,
                                        rg_protection = prot\<rparr>]))"
      using True pos ij and_mask_dvd[of ps lo]
      by (cases "vm_first_fit_base ?s owner (pages * ps) lo hi ps")
        (simp_all add: vm_allocate_first_fit_def valid_def checked_mul_def Let_def)
    have least: "least_or_none (vm_fits ps ?s owner (pages * ps) lo hi)
        (vm_first_fit_base ?s owner (pages * ps) lo hi ps)"
      using True ok hi
      by (intro vm_first_fit_base_least sort_sorted) (auto simp: valid_def list_all_iff)
    have "vm_used (?s[j := r]) = add_mset r (vm_used t)" if "rg_used r" for r
      using vm_used_add[OF position_less[OF ij(2)] position_nth[OF ij(2)] that] by simp
    then show ?thesis using least call' call len True
      by (cases "vm_first_fit_base ?s owner (pages * ps) lo hi ps")
        (auto simp: least_or_none_def valid_def rg_used_def)
  qed
qed

end

interpretation stable_sort: region_sort "sort_key rg_key"
  by unfold_locales simp_all

section \<open>Lookups as a page map\<close>

text \<open>The protection an address has for an owner, as \<open>find\<close> reports it.\<close>

definition vm_prot :: "nat \<Rightarrow> region_table \<Rightarrow> nat \<Rightarrow> nat \<Rightarrow> nat option" where
  "vm_prot ps t owner a = map_option rg_protection (vm_find t owner a ps)"

definition rg_covers :: "nat \<Rightarrow> nat \<Rightarrow> nat \<Rightarrow> region \<Rightarrow> bool" where
  "rg_covers ps owner a r \<longleftrightarrow> rg_used r \<and> rg_owner r = owner \<and> rg_base r \<le> a \<and> a < rg_stop ps r"

lemma rg_covers_unique:
  "rg_apart ps r s \<Longrightarrow> rg_covers ps owner a r \<Longrightarrow> \<not> rg_covers ps owner a s"
  by (auto simp: rg_apart_def rg_covers_def)

lemma vm_ok_unique:
  "vm_ok ps M \<Longrightarrow> r \<in># M \<Longrightarrow> s \<in># M \<Longrightarrow> rg_covers ps owner a r \<Longrightarrow> rg_covers ps owner a s \<Longrightarrow> r = s"
  by (induction M) (auto dest: rg_covers_unique)

lemma find_None: "List.find P xs = None \<longleftrightarrow> (\<forall>x \<in> set xs. \<not> P x)"
  by (auto simp: find_None_iff)

lemma vm_prot_iff:
  assumes "vm_inv n ps t"
  shows "vm_prot ps t owner a = Some p \<longleftrightarrow>
    (\<exists>r \<in># vm_used t. rg_covers ps owner a r \<and> rg_protection r = p)"
proof -
  have ok: "\<forall>r \<in> set t. rg_ok ps r" using assms by (simp add: vm_inv_def list_all_iff)
  have find: "vm_find t owner a ps = List.find (rg_covers ps owner a) t"
    unfolding vm_find_def using ok
    by (intro find_cong refl) (auto simp: rg_covers_def rg_end_ok)
  have mem: "r \<in> set t \<Longrightarrow> rg_covers ps owner a r \<Longrightarrow> r \<in># vm_used t" for r
    by (auto simp: vm_used_def rg_covers_def)
  show ?thesis
  proof (cases "List.find (rg_covers ps owner a) t")
    case None
    then have "\<forall>r \<in> set t. \<not> rg_covers ps owner a r" by (simp add: find_None)
    then show ?thesis using find None by (simp add: vm_prot_def vm_used_def)
  next
    case (Some r)
    then have "r \<in> set t" "rg_covers ps owner a r" by (auto simp: find_Some_iff)
    then have "r \<in># vm_used t" "rg_covers ps owner a r" by (auto intro: mem)
    then show ?thesis using Some find assms
      by (auto simp: vm_prot_def vm_inv_iff dest: vm_ok_unique)
  qed
qed

lemma vm_prot_used_cong:
  assumes "vm_inv n ps t" "vm_inv m ps t'"
    and "\<And>p. (\<exists>r \<in># vm_used t. rg_covers ps owner a r \<and> rg_protection r = p) \<longleftrightarrow>
             (\<exists>r \<in># vm_used t'. rg_covers ps owner' a' r \<and> rg_protection r = p)"
  shows "vm_prot ps t owner a = vm_prot ps t' owner' a'"
  by (rule option_ext) (simp add: vm_prot_iff[OF assms(1)] vm_prot_iff[OF assms(2)] assms(3))

section \<open>Splitting operations\<close>

lemma vm_containing_Some:
  assumes inv: "vm_inv n ps t" and c: "vm_containing t owner base pages ps = Some (i, r, first, after)"
  shows "i < n" "r = t ! i" "rg_used r" "rg_owner r = owner" "0 < pages" "after = first + pages"
    "base = rg_base r + first * ps" "after \<le> rg_pages r"
    "rg_stop ps r = base + pages * ps + (rg_pages r - after) * ps"
proof -
  from c have pg: "0 < pages" "0 < ps" and sz: "pages * ps + base < 2 ^ 64"
    by (auto simp: vm_containing_def checked_mul_def checked_add_def split: if_splits)
  let ?P = "\<lambda>entry. rg_used entry \<and> rg_owner entry = owner \<and> rg_base entry \<le> base
      \<and> base + pages * ps \<le> unwrap_or (rg_end entry ps) (rg_base entry)"
  from c have pos: "position ?P t = Some i" and r: "r = t ! i"
    and f: "first = (base - rg_base r) div ps" and a: "after = first + pages"
    and al: "base AND (ps - 1) = 0"
    by (auto simp: vm_containing_def Let_def checked_mul_def checked_add_def
        split: if_splits option.splits)
  from position_SomeD[OF pos] have i: "i < n" "?P r" using inv r by (auto simp: vm_inv_def)
  then have ok: "rg_ok ps r" "rg_used r" using inv r by (auto simp: vm_inv_def list_all_length)
  then have "is_power_of_two ps" "ps dvd rg_base r" by (auto simp: rg_ok_def)
  then have "ps dvd base - rg_base r" using al and_mask_dvd[of ps base] by (simp add: dvd_diff_nat)
  then have b: "base = rg_base r + first * ps" using i(2) f by auto
  have "base + pages * ps \<le> rg_stop ps r" using i(2) rg_end_ok[OF ok] by simp
  then have "after * ps \<le> rg_pages r * ps" using b a by (simp add: rg_stop_def algebra_simps)
  then have le: "after \<le> rg_pages r" using pg by simp
  then obtain d where d: "rg_pages r = after + d" by (metis le_iff_add)
  have "rg_stop ps r = base + pages * ps + (rg_pages r - after) * ps"
    unfolding rg_stop_def d a b by (simp add: algebra_simps)
  with i b le r a pg ok show "i < n" "r = t ! i" "rg_used r" "rg_owner r = owner" "0 < pages"
    "after = first + pages" "base = rg_base r + first * ps" "after \<le> rg_pages r"
    "rg_stop ps r = base + pages * ps + (rg_pages r - after) * ps" by simp_all
qed

text \<open>The pieces of a split region: left, middle (the page range) and right.\<close>

definition vm_pieces :: "region \<Rightarrow> nat \<Rightarrow> nat \<Rightarrow> nat \<Rightarrow> nat \<Rightarrow> region multiset" where
  "vm_pieces r first base pages ps =
     (if first \<noteq> 0 then {#r\<lparr>rg_pages := first\<rparr>#} else {#})
     + (if rg_pages r - (first + pages) \<noteq> 0
        then {#r\<lparr>rg_base := base + pages * ps, rg_pages := rg_pages r - (first + pages)\<rparr>#} else {#})"

lemma vm_other_free_mem:
  "c \<in> set (vm_other_free t i) \<Longrightarrow> c < length t \<and> c \<noteq> i \<and> \<not> rg_used (t ! c)"
  by (auto simp: vm_other_free_def)

lemma vm_remove_used:
  assumes inv: "vm_inv n ps t" and call: "vm_remove t owner base pages ps = (True, t')"
  obtains i r first M where "vm_containing t owner base pages ps = Some (i, r, first, first + pages)"
    "vm_used t = add_mset r M" "vm_used t' = vm_pieces r first base pages ps + M" "length t' = n"
proof -
  from call obtain i r first after where
    c: "vm_containing t owner base pages ps = Some (i, r, first, after)"
    by (auto simp: vm_remove_def split: option.splits)
  note cs = vm_containing_Some[OF inv c]
  have len: "length t = n" using inv by (simp add: vm_inv_def)
  obtain M where M: "vm_used t = add_mset r M"
    "\<And>x. vm_used (t[i := x]) = (if rg_used x then add_mset x M else M)"
    using vm_used_take[of i t] cs(1,2,3) len by metis
  have u: "rg_used (r\<lparr>rg_pages := k\<rparr>)" "rg_used (r\<lparr>rg_base := b, rg_pages := k\<rparr>)" for b k
    using cs(3) by (simp_all add: rg_used_def)
  let ?l = "r\<lparr>rg_pages := first\<rparr>"
  let ?rt = "r\<lparr>rg_base := base + pages * ps, rg_pages := rg_pages r - after\<rparr>"
  have "vm_used t' = vm_pieces r first base pages ps + M \<and> length t' = n"
  proof (cases "first \<noteq> 0 \<and> rg_pages r - after \<noteq> 0")
    case True
    then obtain s rest where s: "vm_other_free t i = s # rest"
      and t': "t' = t[i := ?l, s := ?rt]"
      using call c by (auto simp: vm_remove_def Let_def split: list.splits)
    have "s < length t" "s \<noteq> i" "\<not> rg_used (t ! s)" using vm_other_free_mem[of s t i] s by auto
    then show ?thesis using True t' M(2)[of ?l] u len cs(6) vm_used_add[of s "t[i := ?l]" ?rt]
      by (simp add: vm_pieces_def)
  next
    case False
    then have "t' = (if rg_pages r - after \<noteq> 0 then t[i := ?rt]
        else t[i := if first = 0 then REGION_EMPTY else ?l])"
      using call c by (auto simp: vm_remove_def Let_def)
    then show ?thesis using False M(2)[of ?l] M(2)[of ?rt] M(2)[of REGION_EMPTY] u len cs(6)
      by (auto simp: vm_pieces_def)
  qed
  with that[OF _ M(1)] c cs(6) show thesis by blast
qed

lemma vm_protect_used:
  assumes inv: "vm_inv n ps t" and call: "vm_protect t owner base pages prot ps = (True, t')"
  obtains i r first M where "vm_containing t owner base pages ps = Some (i, r, first, first + pages)"
    "vm_used t = add_mset r M" "length t' = n"
    "vm_used t' = add_mset \<lparr>rg_owner = owner, rg_base = base, rg_pages = pages,
                            rg_protection = prot\<rparr> (vm_pieces r first base pages ps + M)"
proof -
  from call obtain i r first after where
    c: "vm_containing t owner base pages ps = Some (i, r, first, after)"
    by (auto simp: vm_protect_def split: option.splits)
  note cs = vm_containing_Some[OF inv c]
  have len: "length t = n" using inv by (simp add: vm_inv_def)
  obtain M where M: "vm_used t = add_mset r M"
    "\<And>x. vm_used (t[i := x]) = (if rg_used x then add_mset x M else M)"
    using vm_used_take[of i t] cs(1,2,3) len by metis
  have u: "rg_used (r\<lparr>rg_pages := k\<rparr>)" "rg_used (r\<lparr>rg_base := b, rg_pages := k\<rparr>)" for b k
    using cs(3) by (simp_all add: rg_used_def)
  let ?m = "\<lparr>rg_owner = owner, rg_base = base, rg_pages = pages, rg_protection = prot\<rparr>"
  let ?l = "r\<lparr>rg_pages := first\<rparr>"
  let ?rt = "r\<lparr>rg_base := base + pages * ps, rg_pages := rg_pages r - after\<rparr>"
  have m: "rg_used ?m" "vm_used (t[i := ?m]) = add_mset ?m M"
    using cs(3,4) M(2)[of ?m] by (simp_all add: rg_used_def)
  let ?free = "vm_other_free t i"
  have dist: "distinct ?free" by (simp add: vm_other_free_def)
  have fr: "?free ! k < length t \<and> ?free ! k \<noteq> i \<and> \<not> rg_used (t ! (?free ! k))"
    if "k < length ?free" for k
    by (rule vm_other_free_mem) (rule nth_mem[OF that])
  have add1: "vm_used (t[i := ?m, ?free ! 0 := x]) = add_mset x (add_mset ?m M)"
    if "0 < length ?free" "rg_used x" for x
    using vm_used_add[of "?free ! 0" "t[i := ?m]" x] fr[OF that(1)] that(2) m(2) by simp
  have add2: "vm_used (t[i := ?m, ?free ! 0 := x, ?free ! 1 := y]) = add_mset y (add_mset x (add_mset ?m M))"
    if "1 < length ?free" "rg_used x" "rg_used y" for x y
  proof -
    have "?free ! 0 \<noteq> ?free ! 1" using dist that(1) by (subst nth_eq_iff_index_eq) auto
    then show ?thesis
      using vm_used_add[of "?free ! 1" "t[i := ?m, ?free ! 0 := x]" y] fr[OF that(1)] that
        add1[OF order_less_trans[OF zero_less_one that(1)] that(2)]
      by simp
  qed
  have "vm_used t' = add_mset ?m (vm_pieces r first base pages ps + M) \<and> length t' = n"
  proof (cases "first \<noteq> 0"; cases "rg_pages r - after \<noteq> 0")
    assume a: "first \<noteq> 0" "rg_pages r - after \<noteq> 0"
    then have "t' = t[i := ?m, ?free ! 0 := ?l, ?free ! 1 := ?rt]" "2 \<le> length ?free"
      using call c by (auto simp: vm_protect_def Let_def split: if_splits)
    then show ?thesis using a add2[OF _ u(1) u(2)] len cs(6) by (simp add: vm_pieces_def)
  next
    assume a: "first \<noteq> 0" "\<not> rg_pages r - after \<noteq> 0"
    then have "t' = t[i := ?m, ?free ! 0 := ?l]" "0 < length ?free"
      using call c by (auto simp: vm_protect_def Let_def split: if_splits)
    then show ?thesis using a add1[OF _ u(1)] len cs(6) by (simp add: vm_pieces_def)
  next
    assume a: "\<not> first \<noteq> 0" "rg_pages r - after \<noteq> 0"
    then have "t' = t[i := ?m, ?free ! 0 := ?rt]" "0 < length ?free"
      using call c by (auto simp: vm_protect_def Let_def split: if_splits)
    then show ?thesis using a add1[OF _ u(2)] len cs(6) by (simp add: vm_pieces_def)
  next
    assume a: "\<not> first \<noteq> 0" "\<not> rg_pages r - after \<noteq> 0"
    then have "t' = t[i := ?m]" using call c by (auto simp: vm_protect_def Let_def)
    then show ?thesis using a m len cs(6) by (simp add: vm_pieces_def)
  qed
  with that[OF _ M(1)] c cs(6) show thesis by blast
qed

text \<open>The pieces stay inside the region they come from and cover all of it but the range.\<close>

lemma rg_apart_inside:
  assumes "rg_apart ps r s" "rg_used r" "rg_owner x = rg_owner r"
    and "rg_base r \<le> rg_base x" "rg_stop ps x \<le> rg_stop ps r"
  shows "rg_apart ps x s"
  using assms by (auto simp: rg_apart_def)

lemma vm_pieces_ok:
  assumes inv: "vm_inv n ps t" and c: "vm_containing t owner base pages ps = Some (i, r, first, first + pages)"
    and M: "vm_used t = add_mset r M"
  shows "vm_ok ps (add_mset \<lparr>rg_owner = owner, rg_base = base, rg_pages = pages,
                            rg_protection = prot\<rparr> (vm_pieces r first base pages ps + M))"
proof -
  note cs = vm_containing_Some[OF inv c]
  let ?m = "\<lparr>rg_owner = owner, rg_base = base, rg_pages = pages, rg_protection = prot\<rparr>"
  let ?l = "r\<lparr>rg_pages := first\<rparr>"
  let ?rt = "r\<lparr>rg_base := base + pages * ps, rg_pages := rg_pages r - (first + pages)\<rparr>"
  have okM: "rg_ok ps r" "vm_ok ps M" "\<And>s. s \<in># M \<Longrightarrow> rg_apart ps r s"
    using inv M by (auto simp: vm_inv_iff)
  have okr: "is_power_of_two ps" "ps dvd rg_base r" "rg_stop ps r < 2 ^ 64"
    using okM(1) cs(3) by (auto simp: rg_ok_def)
  have stop: "rg_stop ps ?m = base + pages * ps" "rg_stop ps ?l = base"
    "rg_stop ps ?rt = rg_stop ps r"
    using cs(7,9) by (simp_all add: rg_stop_def)
  have b: "rg_base r \<le> base" "base + pages * ps \<le> rg_stop ps r" using cs(7,9) by simp_all
  have d: "ps dvd base" using cs(7) okr(2) by simp
  have ok: "rg_ok ps ?m" "first \<noteq> 0 \<Longrightarrow> rg_ok ps ?l"
    "rg_pages r - (first + pages) \<noteq> 0 \<Longrightarrow> rg_ok ps ?rt"
    using okr d b cs(5) stop by (simp_all add: rg_ok_def)
  have ap: "rg_apart ps ?m s" "rg_apart ps ?l s" "rg_apart ps ?rt s" if "s \<in># M" for s
    using stop b cs(4) by (auto intro!: rg_apart_inside[OF okM(3)[OF that] cs(3)])
  have in3: "rg_apart ps ?m ?l" "rg_apart ps ?m ?rt" "rg_apart ps ?l ?rt"
    using cs(7) by (simp_all add: rg_apart_def rg_stop_def)
  show ?thesis
  proof (cases "first = 0"; cases "rg_pages r - (first + pages) = 0")
    assume "first = 0" "rg_pages r - (first + pages) = 0"
    then show ?thesis using ok(1) ap(1) okM(2) by (auto simp: vm_pieces_def)
  next
    assume "first = 0" "rg_pages r - (first + pages) \<noteq> 0"
    then show ?thesis using ok(1,3) ap(1,3) in3(2) okM(2) unfolding vm_pieces_def by auto
  next
    assume "first \<noteq> 0" "rg_pages r - (first + pages) = 0"
    then show ?thesis using ok(1,2) ap(1,2) in3(1) okM(2) unfolding vm_pieces_def by auto
  next
    assume "first \<noteq> 0" "rg_pages r - (first + pages) \<noteq> 0"
    then show ?thesis using ok ap in3 okM(2) rg_apart_sym[THEN iffD1, OF in3(3)]
      unfolding vm_pieces_def by auto
  qed
qed

lemma vm_pieces_covers:
  assumes inv: "vm_inv n ps t" and c: "vm_containing t owner base pages ps = Some (i, r, first, first + pages)"
  shows "(\<exists>x \<in># vm_pieces r first base pages ps. rg_covers ps o' a x \<and> rg_protection x = p) \<longleftrightarrow>
    rg_covers ps o' a r \<and> rg_protection r = p \<and> \<not> (base \<le> a \<and> a < base + pages * ps)"
proof -
  note cs = vm_containing_Some[OF inv c]
  have l: "rg_covers ps o' a (r\<lparr>rg_pages := first\<rparr>) \<longleftrightarrow> rg_covers ps o' a r \<and> a < base"
    using cs(3,7,9) by (auto simp: rg_covers_def rg_stop_def rg_used_def)
  have r: "rg_covers ps o' a (r\<lparr>rg_base := base + pages * ps, rg_pages := rg_pages r - (first + pages)\<rparr>)
      \<longleftrightarrow> rg_covers ps o' a r \<and> base + pages * ps \<le> a"
    using cs(3,7,9) by (auto simp: rg_covers_def rg_stop_def rg_used_def)
  have "first = 0 \<Longrightarrow> rg_covers ps o' a r \<Longrightarrow> base \<le> a" using cs(7) by (simp add: rg_covers_def)
  moreover have "rg_pages r - (first + pages) = 0 \<Longrightarrow> rg_covers ps o' a r \<Longrightarrow> a < base + pages * ps"
    using cs(9) by (simp add: rg_covers_def)
  ultimately show ?thesis using l r by (auto simp: vm_pieces_def not_less)
qed

lemma vm_containing_covers:
  assumes inv: "vm_inv n ps t" and c: "vm_containing t owner base pages ps = Some (i, r, first, after)"
    and "base \<le> a" "a < base + pages * ps"
  shows "rg_covers ps owner a r"
  using vm_containing_Some[OF inv c] assms(3,4) by (simp add: rg_covers_def)

text \<open>When a range can be split out: one region holds it and slots remain for the new pieces.\<close>

definition vm_holds :: "nat \<Rightarrow> region_table \<Rightarrow> nat \<Rightarrow> nat \<Rightarrow> nat \<Rightarrow> region \<Rightarrow> bool" where
  "vm_holds ps t owner base pages r \<longleftrightarrow>
     r \<in># vm_used t \<and> rg_owner r = owner \<and> rg_base r \<le> base \<and> base + pages * ps \<le> rg_stop ps r
     \<and> ps dvd base \<and> 0 < pages"

lemma vm_used_mem: "r \<in># vm_used t \<longleftrightarrow> r \<in> set t \<and> rg_used r"
  by (auto simp: vm_used_def)

lemma vm_containing_iff:
  assumes inv: "vm_inv n ps t"
  shows "vm_containing t owner base pages ps = None \<longleftrightarrow> (\<forall>r. \<not> vm_holds ps t owner base pages r)"
proof
  assume N: "vm_containing t owner base pages ps = None"
  show "\<forall>r. \<not> vm_holds ps t owner base pages r"
  proof (rule allI, rule notI)
    fix r assume h: "vm_holds ps t owner base pages r"
    then have r: "r \<in> set t" "rg_used r" "rg_ok ps r" using inv
      by (auto simp: vm_holds_def vm_used_mem vm_inv_def list_all_iff)
    let ?P = "\<lambda>entry. rg_used entry \<and> rg_owner entry = owner \<and> rg_base entry \<le> base
      \<and> base + pages * ps \<le> unwrap_or (rg_end entry ps) (rg_base entry)"
    have "?P r" using h r rg_end_ok[OF r(3,2)] by (auto simp: vm_holds_def)
    then have "position ?P t \<noteq> None" using r(1) unfolding position_None_iff by blast
    then obtain i where i: "position ?P t = Some i" by blast
    have p2: "is_power_of_two ps" "0 < ps" "owner \<noteq> 0" "0 < pages" "ps dvd base"
      using r h by (auto simp: rg_ok_def vm_holds_def rg_used_def dest: is_power_of_two_pos)
    have "base + pages * ps < 2 ^ 64" using r(2,3) h by (auto simp: rg_ok_def vm_holds_def)
    then have "vm_containing t owner base pages ps \<noteq> None"
      using i p2 and_mask_dvd[OF p2(1), of base]
      by (simp add: vm_containing_def checked_mul_def checked_add_def Let_def)
    with N show False by simp
  qed
next
  assume h: "\<forall>r. \<not> vm_holds ps t owner base pages r"
  show "vm_containing t owner base pages ps = None"
  proof (rule ccontr)
    assume "vm_containing t owner base pages ps \<noteq> None"
    then obtain i r f a where c: "vm_containing t owner base pages ps = Some (i, r, f, a)" by auto
    note cs = vm_containing_Some[OF inv c]
    have "r \<in># vm_used t" using cs(1,2,3) inv vm_used_nth[of i t] by (auto simp: vm_inv_def)
    moreover have "ps dvd base"
      using cs(2,3,7) inv cs(1) by (auto simp: vm_inv_def list_all_length rg_ok_def)
    ultimately have "vm_holds ps t owner base pages r" using cs by (simp add: vm_holds_def)
    with h show False by simp
  qed
qed

lemma vm_containing_unique:
  assumes inv: "vm_inv n ps t" and c: "vm_containing t owner base pages ps = Some (i, r, f, a)"
    and h: "vm_holds ps t owner base pages s"
  shows "s = r"
proof -
  note cs = vm_containing_Some[OF inv c]
  have "0 < ps" using inv cs(1,2,3)
    by (auto simp: vm_inv_def list_all_length rg_ok_def dest: is_power_of_two_pos)
  then have p: "0 < pages * ps" using cs(5) by simp
  have "r \<in># vm_used t" using cs(1,2,3) inv vm_used_nth[of i t] by (auto simp: vm_inv_def)
  moreover have "rg_covers ps owner base r"
    by (rule vm_containing_covers[OF inv c]) (use p in simp_all)
  moreover have "rg_covers ps owner base s"
    using h p unfolding vm_holds_def rg_covers_def vm_used_mem by linarith
  ultimately show ?thesis using inv h by (auto simp: vm_inv_iff vm_holds_def dest: vm_ok_unique)
qed

lemma count_if_upt: "count_if P t = length (filter (\<lambda>c. P (t ! c)) [0..<length t])"
proof -
  have "count_if P t = length (filter P (map ((!) t) [0..<length t]))"
    unfolding map_nth by (simp add: count_if_def)
  then show ?thesis by (simp add: filter_map comp_def)
qed

lemma vm_other_free_length:
  assumes "rg_used (t ! i)"
  shows "length (vm_other_free t i) = vm_free_slots t"
proof -
  have "filter (\<lambda>c. c \<noteq> i \<and> \<not> rg_used (t ! c)) [0..<length t] =
      filter (\<lambda>c. \<not> rg_used (t ! c)) [0..<length t]"
    using assms by (intro filter_cong) auto
  then show ?thesis by (simp add: vm_other_free_def vm_free_slots_def count_if_upt)
qed

text \<open>Extra slots a split needs.\<close>

definition vm_extras :: "nat \<Rightarrow> nat \<Rightarrow> nat \<Rightarrow> region \<Rightarrow> nat" where
  "vm_extras ps base pages r =
     (if rg_base r = base then 0 else 1) + (if rg_stop ps r = base + pages * ps then 0 else 1)"

lemma vm_extras_pieces:
  assumes inv: "vm_inv n ps t" and c: "vm_containing t owner base pages ps = Some (i, r, first, after)"
  shows "first \<noteq> 0 \<longleftrightarrow> rg_base r \<noteq> base"
    "rg_pages r - after \<noteq> 0 \<longleftrightarrow> rg_stop ps r \<noteq> base + pages * ps"
proof -
  note cs = vm_containing_Some[OF inv c]
  have "0 < ps" using inv cs(1,2,3)
    by (auto simp: vm_inv_def list_all_length rg_ok_def dest: is_power_of_two_pos)
  then show "first \<noteq> 0 \<longleftrightarrow> rg_base r \<noteq> base"
    "rg_pages r - after \<noteq> 0 \<longleftrightarrow> rg_stop ps r \<noteq> base + pages * ps"
    using cs(7,9) by auto
qed

lemma vm_remove_iff:
  assumes inv: "vm_inv n ps t"
  shows "fst (vm_remove t owner base pages ps) \<longleftrightarrow>
    (\<exists>r. vm_holds ps t owner base pages r \<and> vm_extras ps base pages r \<le> vm_free_slots t + 1)"
proof (cases "vm_containing t owner base pages ps")
  case None
  then show ?thesis using vm_containing_iff[OF inv, of owner base pages] by (simp add: vm_remove_def)
next
  case (Some c)
  then obtain i r f a where c: "vm_containing t owner base pages ps = Some (i, r, f, a)"
    by (cases c) auto
  have ex: "vm_holds ps t owner base pages r"
    using vm_containing_iff[OF inv, of owner base pages] vm_containing_unique[OF inv c] c by auto
  have "length (vm_other_free t i) = vm_free_slots t"
    using vm_containing_Some[OF inv c] by (intro vm_other_free_length) simp
  then have "fst (vm_remove t owner base pages ps) \<longleftrightarrow>
      (f \<noteq> 0 \<and> rg_pages r - a \<noteq> 0 \<longrightarrow> 0 < vm_free_slots t)"
    using c by (cases "vm_other_free t i") (auto simp: vm_remove_def Let_def)
  also have "\<dots> \<longleftrightarrow> vm_extras ps base pages r \<le> vm_free_slots t + 1"
    unfolding vm_extras_pieces[OF inv c] vm_extras_def by auto
  finally show ?thesis using ex vm_containing_unique[OF inv c] by blast
qed

lemma vm_protect_iff:
  assumes inv: "vm_inv n ps t"
  shows "fst (vm_protect t owner base pages prot ps) \<longleftrightarrow>
    (\<exists>r. vm_holds ps t owner base pages r \<and> vm_extras ps base pages r \<le> vm_free_slots t)"
proof (cases "vm_containing t owner base pages ps")
  case None
  then show ?thesis using vm_containing_iff[OF inv, of owner base pages] by (simp add: vm_protect_def)
next
  case (Some c)
  then obtain i r f a where c: "vm_containing t owner base pages ps = Some (i, r, f, a)"
    by (cases c) auto
  have ex: "vm_holds ps t owner base pages r"
    using vm_containing_iff[OF inv, of owner base pages] vm_containing_unique[OF inv c] c by auto
  have l: "length (vm_other_free t i) = vm_free_slots t"
    using vm_containing_Some[OF inv c] by (intro vm_other_free_length) simp
  have "fst (vm_protect t owner base pages prot ps) \<longleftrightarrow>
      (if f \<noteq> 0 then 1 else 0) + (if rg_pages r - a \<noteq> 0 then 1 else 0) \<le> vm_free_slots t"
    using c l by (auto simp: vm_protect_def Let_def min_def)
  also have "\<dots> \<longleftrightarrow> vm_extras ps base pages r \<le> vm_free_slots t"
    unfolding vm_extras_pieces[OF inv c] vm_extras_def by auto
  finally show ?thesis using ex vm_containing_unique[OF inv c] by blast
qed

lemma vm_free_slots_used: "vm_free_slots t + size (vm_used t) = length t"
  by (induction t) (auto simp: vm_free_slots_def vm_used_def simp del: mset_filter)

section \<open>Fixed placement, forgetting, cloning\<close>

lemma vm_allocate_fixed_used:
  assumes inv: "vm_inv n ps t" and small: "pages * ps < 2 ^ 64"
    and call: "vm_allocate_fixed t owner base pages prot lo hi ps = (True, t')"
  shows "vm_inv n ps t' \<and> vm_used t' = add_mset \<lparr>rg_owner = owner, rg_base = base, rg_pages = pages,
                                  rg_protection = prot\<rparr> (vm_used t)"
proof -
  let ?r = "\<lparr>rg_owner = owner, rg_base = base, rg_pages = pages, rg_protection = prot\<rparr>"
  have w: "wrapping_mul pages ps = pages * ps" using small by (simp add: wrapping_mul_def)
  from call have args: "owner \<noteq> 0" "pages \<noteq> 0" "is_power_of_two ps" "base AND (ps - 1) = 0"
    "base + pages * ps < 2 ^ 64"
    by (auto simp: vm_allocate_fixed_def w checked_add_def split: if_splits)
  from call obtain slot where slot: "position (\<lambda>e. \<not> rg_used e) t = Some slot" "t' = t[slot := ?r]"
    and clear: "\<not> list_ex (\<lambda>e. rg_used e \<and> rg_owner e = owner
        \<and> base < unwrap_or (rg_end e ps) u64_max \<and> rg_base e < base + pages * ps) t"
    by (auto simp: vm_allocate_fixed_def w checked_add_def split: if_splits option.splits)
  have used: "vm_used t' = add_mset ?r (vm_used t)"
    using vm_used_add[OF position_less[OF slot(1)] position_nth[OF slot(1)], of ?r] slot(2) args(1)
    by (simp add: rg_used_def)
  have "rg_ok ps ?r" using args and_mask_dvd[of ps base] by (simp add: rg_ok_def rg_stop_def)
  moreover have "rg_apart ps ?r s" if "s \<in># vm_used t" for s
  proof -
    have s: "s \<in> set t" "rg_used s" "rg_ok ps s" using that inv
      by (auto simp: vm_used_mem vm_inv_def list_all_iff)
    then show ?thesis using clear rg_end_ok[OF s(3,2)]
      by (auto simp: rg_apart_def rg_stop_def list_ex_iff not_less)
  qed
  ultimately show ?thesis using inv used slot by (simp add: vm_inv_iff)
qed

lemma vm_ok_filter: "vm_ok ps M \<Longrightarrow> vm_ok ps (filter_mset P M)"
  by (induction M) auto

lemma vm_forget_table:
  "snd (vm_forget t owner) = map (\<lambda>e. if rg_used e \<and> rg_owner e = owner then REGION_EMPTY else e) t"
  by (induction t) (auto split: prod.splits)

lemma vm_forget_used:
  "vm_used (snd (vm_forget t owner)) = filter_mset (\<lambda>r. rg_owner r \<noteq> owner) (vm_used t)"
  unfolding vm_forget_table by (induction t) (auto simp: vm_used_def)

text \<open>The copying loop: what the table holds after the turns below \<open>i\<close>.\<close>

definition vm_clone_rel :: "nat \<Rightarrow> nat \<Rightarrow> region_table \<Rightarrow> nat \<Rightarrow> region_table \<Rightarrow> bool" where
  "vm_clone_rel source destination t i cur \<longleftrightarrow>
     length cur = length t
     \<and> (\<forall>j < length t. if rg_used (t ! j) then cur ! j = t ! j
          else \<not> rg_used (cur ! j) \<or> rg_owner (cur ! j) = destination)
     \<and> vm_used cur = vm_used t + image_mset (rg_owner_update (\<lambda>_. destination))
          (mset (filter (\<lambda>e. rg_used e \<and> rg_owner e = source) (take i t)))"

lemma vm_clone_turn_rel:
  assumes rel: "vm_clone_rel source destination t i cur" and i: "i < length t"
    and neq: "source \<noteq> destination" "destination \<noteq> 0" and enough: "vm_count t source \<le> vm_free_slots t"
  shows "\<exists>cur'. vm_clone_turn source destination i cur = Some cur'
    \<and> vm_clone_rel source destination t (Suc i) cur'"
proof (cases "rg_used (t ! i) \<and> rg_owner (t ! i) = source")
  case False
  then have "\<not> (rg_used (cur ! i) \<and> rg_owner (cur ! i) = source)"
    using rel i neq by (cases "rg_used (t ! i)") (auto simp: vm_clone_rel_def)
  then have "vm_clone_turn source destination i cur = Some cur"
    by (auto simp: vm_clone_turn_def)
  moreover have "vm_clone_rel source destination t (Suc i) cur"
    using rel i False by (auto simp: vm_clone_rel_def take_Suc_conv_app_nth)
  ultimately show ?thesis by blast
next
  case True
  let ?src = "\<lambda>e. rg_used e \<and> rg_owner e = source"
  have ci: "cur ! i = t ! i" and len: "length cur = length t"
    using rel i True by (auto simp: vm_clone_rel_def)
  have "count_if ?src t = count_if ?src (take i t) + count_if ?src (drop i t)"
    by (simp add: count_if_def flip: length_append filter_append)
  moreover have "0 < count_if ?src (drop i t)"
    using count_if_pos[of 0 "drop i t" ?src] i True by simp
  ultimately have "length (filter ?src (take i t)) < vm_free_slots t"
    using enough unfolding vm_count_def count_if_def by linarith
  moreover have "size (vm_used cur) = size (vm_used t) + length (filter ?src (take i t))"
    using rel by (simp add: vm_clone_rel_def del: mset_filter)
  ultimately have "0 < vm_free_slots cur"
    using vm_free_slots_used[of cur] vm_free_slots_used[of t] len by linarith
  then obtain slot where s: "position (\<lambda>e. \<not> rg_used e) cur = Some slot"
    unfolding vm_free_slots_def using count_if_position by blast
  let ?r = "(t ! i)\<lparr>rg_owner := destination\<rparr>"
  have turn: "vm_clone_turn source destination i cur = Some (cur[slot := ?r])"
    using ci True s by (simp add: vm_clone_turn_def)
  have sl: "slot < length t" "\<not> rg_used (cur ! slot)"
    using position_SomeD[OF s] len by auto
  have "vm_used (cur[slot := ?r]) = add_mset ?r (vm_used cur)"
    using sl len neq(2) by (intro vm_used_add) (auto simp: rg_used_def)
  then have "vm_clone_rel source destination t (Suc i) (cur[slot := ?r])"
    using rel i True sl
    by (auto simp: vm_clone_rel_def take_Suc_conv_app_nth nth_upd)
  with turn show ?thesis by blast
qed

lemma vm_clone_loop:
  assumes neq: "source \<noteq> destination" "destination \<noteq> 0" and enough: "vm_count t source \<le> vm_free_slots t"
  shows "i \<le> length t \<Longrightarrow> vm_clone_rel source destination t i cur \<Longrightarrow>
    \<exists>cur'. run_steps (vm_clone_turn source destination) [i..<length t] cur = Some cur'
      \<and> vm_clone_rel source destination t (length t) cur'"
proof (induction "length t - i" arbitrary: i cur)
  case 0
  then show ?case by simp
next
  case (Suc k)
  then have i: "i < length t" by simp
  obtain u where u: "vm_clone_turn source destination i cur = Some u"
    "vm_clone_rel source destination t (Suc i) u"
    using vm_clone_turn_rel[OF Suc.prems(2) i neq enough] by blast
  have "k = length t - Suc i" "Suc i \<le> length t" using Suc.hyps(2) i by simp_all
  from Suc.hyps(1)[OF this u(2)] show ?case using u(1) i by (simp add: upt_conv_Cons)
qed

lemma vm_clone_owner_used:
  "\<exists>ok t'. vm_clone_owner t source destination = Some (ok, t') \<and> (\<not> ok \<longrightarrow> t' = t)
    \<and> (ok \<longleftrightarrow> source \<noteq> 0 \<and> destination \<noteq> 0 \<and> source \<noteq> destination
          \<and> (\<forall>r \<in> set t. rg_owner r \<noteq> destination) \<and> vm_count t source \<le> vm_free_slots t)
    \<and> (ok \<longrightarrow> length t' = length t
          \<and> vm_used t' = vm_used t + image_mset (rg_owner_update (\<lambda>_. destination))
               (filter_mset (\<lambda>r. rg_owner r = source) (vm_used t)))"
proof (cases "source \<noteq> 0 \<and> destination \<noteq> 0 \<and> source \<noteq> destination
          \<and> (\<forall>r \<in> set t. rg_owner r \<noteq> destination) \<and> vm_count t source \<le> vm_free_slots t")
  case False
  then show ?thesis by (auto simp: vm_clone_owner_def list_ex_iff not_le)
next
  case True
  have "vm_clone_rel source destination t 0 t" by (simp add: vm_clone_rel_def)
  then obtain t' where t': "run_steps (vm_clone_turn source destination) [0..<length t] t = Some t'"
      "vm_clone_rel source destination t (length t) t'"
    using vm_clone_loop[of source destination t 0 t] True by auto
  have "vm_clone_owner t source destination = Some (True, t')"
    using True t'(1) by (auto simp: vm_clone_owner_def list_ex_iff)
  moreover have "vm_used t' = vm_used t + image_mset (rg_owner_update (\<lambda>_. destination))
      (filter_mset (\<lambda>r. rg_owner r = source) (vm_used t))" "length t' = length t"
    using t'(2) by (simp_all add: vm_clone_rel_def vm_used_def filter_filter_mset conj_commute)
  ultimately show ?thesis using True by (intro exI[of _ True] exI[of _ t']) simp
qed

lemma vm_ok_copies:
  assumes "vm_ok ps M" "destination \<noteq> 0" "\<forall>r \<in># M. rg_used r \<and> rg_owner r \<noteq> destination"
  shows "vm_ok ps (M + image_mset (rg_owner_update (\<lambda>_. destination))
    (filter_mset (\<lambda>r. rg_owner r = source) M))"
proof -
  obtain xs where xs: "M = mset xs" using ex_mset by metis
  let ?c = "rg_owner_update (\<lambda>_. destination)" and ?ys = "filter (\<lambda>r. rg_owner r = source) xs"
  have ok: "list_all (rg_ok ps) xs" "sorted_wrt (rg_apart ps) xs"
    using assms(1) by (simp_all add: xs vm_ok_mset)
  have "sorted_wrt (rg_apart ps) ?ys" using ok(2) by (rule sorted_wrt_filter)
  then have "sorted_wrt (\<lambda>x y. rg_apart ps (?c x) (?c y)) ?ys"
    by (rule sorted_wrt_mono_rel[rotated])
      (use assms(3) in \<open>auto simp: xs rg_apart_def rg_stop_def rg_used_def\<close>)
  then have "vm_ok ps (mset (xs @ map ?c ?ys))"
    unfolding vm_ok_mset using ok assms(2,3)
    by (auto simp: sorted_wrt_append sorted_wrt_map list_all_iff xs rg_ok_def rg_apart_def
        rg_stop_def rg_used_def)
  then show ?thesis by (simp add: xs)
qed

section \<open>The operations as a system\<close>

datatype vm_op =
    VmAllocateFirstFit nat nat nat nat nat
  | VmAllocateFixed nat nat nat nat nat nat
  | VmRemove nat nat nat
  | VmProtect nat nat nat nat
  | VmForget nat
  | VmCloneOwner nat nat
  | VmClear

fun vm_step ::
  "(region list \<Rightarrow> region list) \<Rightarrow> nat \<Rightarrow> vm_op \<Rightarrow> region_table \<Rightarrow> region_table option" where
  "vm_step srt ps (VmAllocateFirstFit owner pages prot lo hi) t =
     Some (snd (vm_allocate_first_fit srt t owner pages prot lo hi ps))"
| "vm_step srt ps (VmAllocateFixed owner base pages prot lo hi) t =
     Some (snd (vm_allocate_fixed t owner base pages prot lo hi ps))"
| "vm_step srt ps (VmRemove owner base pages) t = Some (snd (vm_remove t owner base pages ps))"
| "vm_step srt ps (VmProtect owner base pages prot) t =
     Some (snd (vm_protect t owner base pages prot ps))"
| "vm_step srt ps (VmForget owner) t = Some (snd (vm_forget t owner))"
| "vm_step srt ps (VmCloneOwner source destination) t =
     map_option snd (vm_clone_owner t source destination)"
| "vm_step srt ps VmClear t = Some (vm_clear t)"

text \<open>
  What callers provide: \<open>arena_limit\<close> is a 64-bit value, and the size given to
  \<open>allocate_fixed\<close> does not wrap (the kernel caps pages per call).
\<close>

fun vm_op_ok :: "nat \<Rightarrow> vm_op \<Rightarrow> bool" where
  "vm_op_ok ps (VmAllocateFirstFit owner pages prot lo hi) \<longleftrightarrow> hi < 2 ^ 64"
| "vm_op_ok ps (VmAllocateFixed owner base pages prot lo hi) \<longleftrightarrow> pages * ps < 2 ^ 64"
| "vm_op_ok ps _ \<longleftrightarrow> True"

lemma vm_failed [simp]:
  "\<not> fst (vm_remove t owner base pages ps) \<Longrightarrow> snd (vm_remove t owner base pages ps) = t"
  "\<not> fst (vm_protect t owner base pages prot ps) \<Longrightarrow> snd (vm_protect t owner base pages prot ps) = t"
  "\<not> fst (vm_allocate_fixed t owner base pages prot lo hi ps) \<Longrightarrow>
     snd (vm_allocate_fixed t owner base pages prot lo hi ps) = t"
  by (auto simp: vm_remove_def vm_protect_def vm_allocate_fixed_def Let_def split: option.splits)

lemma vm_inv_new: "vm_inv n ps (vm_new n)"
  by (induction n) (auto simp: vm_inv_def vm_new_def)

lemma vm_inv_clear: "vm_inv n ps t \<Longrightarrow> vm_inv n ps (vm_clear t)"
  using vm_inv_new[of n ps] by (simp add: vm_clear_def map_replicate_const vm_new_def vm_inv_def)

lemma vm_remove_inv: "vm_inv n ps t \<Longrightarrow> vm_inv n ps (snd (vm_remove t owner base pages ps))"
proof (cases "fst (vm_remove t owner base pages ps)")
  case True
  assume inv: "vm_inv n ps t"
  from True obtain t' where t': "vm_remove t owner base pages ps = (True, t')"
    by (metis prod.collapse)
  from vm_remove_used[OF inv t'] obtain i r first M where
    "vm_containing t owner base pages ps = Some (i, r, first, first + pages)"
    "vm_used t = add_mset r M" "vm_used t' = vm_pieces r first base pages ps + M" "length t' = n" .
  then show ?thesis using vm_pieces_ok[OF inv, of owner base pages i r first M] t'
    by (simp add: vm_inv_iff)
qed simp

lemma vm_protect_inv: "vm_inv n ps t \<Longrightarrow> vm_inv n ps (snd (vm_protect t owner base pages prot ps))"
proof (cases "fst (vm_protect t owner base pages prot ps)")
  case True
  assume inv: "vm_inv n ps t"
  from True obtain t' where t': "vm_protect t owner base pages prot ps = (True, t')"
    by (metis prod.collapse)
  from vm_protect_used[OF inv t'] obtain i r first M where
    "vm_containing t owner base pages ps = Some (i, r, first, first + pages)"
    "vm_used t = add_mset r M" "length t' = n"
    "vm_used t' = add_mset \<lparr>rg_owner = owner, rg_base = base, rg_pages = pages,
                            rg_protection = prot\<rparr> (vm_pieces r first base pages ps + M)" .
  then show ?thesis using vm_pieces_ok[OF inv, of owner base pages i r first M] t'
    by (simp add: vm_inv_iff)
qed simp

lemma vm_allocate_fixed_inv:
  "vm_inv n ps t \<Longrightarrow> pages * ps < 2 ^ 64 \<Longrightarrow>
   vm_inv n ps (snd (vm_allocate_fixed t owner base pages prot lo hi ps))"
  using vm_allocate_fixed_used[of n ps t pages owner base prot lo hi
      "snd (vm_allocate_fixed t owner base pages prot lo hi ps)"]
    vm_failed(3)[of t owner base pages prot lo hi ps]
  by (cases "vm_allocate_fixed t owner base pages prot lo hi ps") auto

lemma vm_clone_inv:
  assumes inv: "vm_inv n ps t"
  shows "\<exists>ok t'. vm_clone_owner t source destination = Some (ok, t') \<and> vm_inv n ps t'"
proof -
  from vm_clone_owner_used[of t source destination] obtain ok t' where
    c: "vm_clone_owner t source destination = Some (ok, t')" "\<not> ok \<longrightarrow> t' = t"
    "ok \<longleftrightarrow> source \<noteq> 0 \<and> destination \<noteq> 0 \<and> source \<noteq> destination
      \<and> (\<forall>r \<in> set t. rg_owner r \<noteq> destination) \<and> vm_count t source \<le> vm_free_slots t"
    "ok \<longrightarrow> length t' = length t \<and> vm_used t' = vm_used t +
       image_mset (rg_owner_update (\<lambda>_. destination)) (filter_mset (\<lambda>r. rg_owner r = source) (vm_used t))"
    by (elim exE conjE) (rule that)
  have "vm_inv n ps t'" if ok
    using c(3,4) that inv vm_ok_copies[of ps "vm_used t" destination source]
    by (auto simp: vm_inv_iff vm_used_mem)
  then show ?thesis using c inv by (cases ok) auto
qed

context region_sort
begin

lemma allocate_first_fit_inv:
  assumes inv: "vm_inv n ps t" and hi: "hi < 2 ^ 64"
  shows "vm_inv n ps (snd (vm_allocate_first_fit sort_unstable t owner pages prot lo hi ps))"
proof -
  obtain res t' where c: "vm_allocate_first_fit sort_unstable t owner pages prot lo hi ps = (res, t')"
    by fastforce
  note spec = allocate_first_fit[OF inv hi c]
  show ?thesis
  proof (cases res)
    case None
    then show ?thesis using spec inv c by (auto simp: vm_inv_iff)
  next
    case (Some b)
    let ?r = "\<lparr>rg_owner = owner, rg_base = b, rg_pages = pages, rg_protection = prot\<rparr>"
    have s: "owner \<noteq> 0" "pages \<noteq> 0" "is_power_of_two ps" "vm_fits ps t owner (pages * ps) lo hi b"
      "length t' = n" "vm_used t' = add_mset ?r (vm_used t)" using spec Some by auto
    have "rg_ok ps ?r" using s(2-4) hi by (auto simp: rg_ok_def rg_stop_def vm_fits_def)
    moreover have "\<forall>x \<in># vm_used t. rg_apart ps ?r x"
      using s(4) by (auto simp: vm_fits_def rg_apart_def rg_stop_def vm_used_mem)
    ultimately show ?thesis using s(5,6) c inv by (simp add: vm_inv_iff)
  qed
qed

lemma vm_guarded: "guarded_system (vm_new n) (vm_step sort_unstable ps) (vm_inv n ps) (vm_op_ok ps)"
proof
  show "vm_inv n ps (vm_new n)" by (rule vm_inv_new)
  show "\<exists>s'. vm_step sort_unstable ps a s = Some s' \<and> vm_inv n ps s'"
    if inv: "vm_inv n ps s" and ok: "vm_op_ok ps a" for s a
  proof (cases a)
    case (VmCloneOwner source destination)
    then show ?thesis using vm_clone_inv[OF inv, of source destination] by auto
  next
    case (VmForget owner)
    have "length (snd (vm_forget s owner)) = length s" by (simp add: vm_forget_table)
    then show ?thesis using VmForget inv vm_ok_filter[of ps "vm_used s"]
      by (simp add: vm_inv_iff vm_forget_used)
  qed (use inv ok in \<open>auto intro: allocate_first_fit_inv vm_allocate_fixed_inv vm_remove_inv
      vm_protect_inv vm_inv_clear\<close>)
qed

end

interpretation vm_space:
  guarded_system "vm_new n" "vm_step (sort_key rg_key) ps" "vm_inv n ps" "vm_op_ok ps"
  by (rule stable_sort.vm_guarded)

section \<open>Properties\<close>

text \<open>The bound on sizes is needed: a size that wraps, once accepted, is a region that breaks the invariant.\<close>

lemma vm_allocate_fixed_exact:
  assumes "vm_inv n ps t" "fst (vm_allocate_fixed t owner base pages prot lo hi ps)"
  shows "vm_inv n ps (snd (vm_allocate_fixed t owner base pages prot lo hi ps)) \<longleftrightarrow> pages * ps < 2 ^ 64"
proof
  let ?r = "\<lparr>rg_owner = owner, rg_base = base, rg_pages = pages, rg_protection = prot\<rparr>"
  obtain slot where "position (\<lambda>entry. \<not> rg_used entry) t = Some slot" "owner \<noteq> 0"
    and t': "snd (vm_allocate_fixed t owner base pages prot lo hi ps) = t[slot := ?r]"
    using assms(2) by (auto simp: vm_allocate_fixed_def split: if_splits option.splits)
  then have "?r \<in> set (t[slot := ?r])" "rg_used ?r"
    using position_SomeD by (auto intro: set_update_memI simp: rg_used_def)
  moreover assume "vm_inv n ps (snd (vm_allocate_fixed t owner base pages prot lo hi ps))"
  ultimately have "rg_ok ps ?r" unfolding t' by (auto simp: vm_inv_def list_all_iff)
  with \<open>rg_used ?r\<close> show "pages * ps < 2 ^ 64" by (simp add: rg_ok_def rg_stop_def)
next
  assume "pages * ps < 2 ^ 64"
  with assms(1) show "vm_inv n ps (snd (vm_allocate_fixed t owner base pages prot lo hi ps))" by (rule vm_allocate_fixed_inv)
qed

text \<open>C10: Take any sequence of region-table operations that all use one page size and in which no
  size given to \<open>allocate_fixed\<close> reaches $2^{64}$ bytes, where its unchecked product would wrap.
  However \<open>sort_unstable_by_key\<close> orders equal keys, the \<open>expect\<close> of \<open>clone_owner\<close> does not panic,
  and after the sequence every region is aligned, non-empty and below the address limit, no two
  regions of one owner overlap, and the subtraction of pages in \<open>remove\<close> and \<open>protect\<close> cannot
  underflow. The bound on sizes is exact: accepting a fixed region keeps this state exactly when
  its size is below $2^{64}$ bytes.\<close>

theorem vm_regions_disjoint:
  assumes "region_sort srt" and "list_all (vm_op_ok ps) ops"
  shows "\<exists>t. run_steps (vm_step srt ps) ops (vm_new n) = Some t \<and> vm_inv n ps t
    \<and> (\<forall>owner base pages i r first after. vm_containing t owner base pages ps = Some (i, r, first, after) \<longrightarrow>
         i < n \<and> after \<le> rg_pages r)
    \<and> (\<forall>owner base pages prot lo hi. fst (vm_allocate_fixed t owner base pages prot lo hi ps) \<longrightarrow>
         (vm_inv n ps (snd (vm_allocate_fixed t owner base pages prot lo hi ps)) \<longleftrightarrow> pages * ps < 2 ^ 64))"
proof -
  obtain t where t: "run_steps (vm_step srt ps) ops (vm_new n) = Some t" and inv: "vm_inv n ps t"
    using guarded_system.guarded_reach[OF region_sort.vm_guarded[OF assms(1)] assms(2)] by blast
  then show ?thesis using vm_containing_Some(1,8)[OF inv] vm_allocate_fixed_exact[OF inv] by blast
qed

theorem vm_regions_disjoint_witness:
  "\<exists>t. run_steps (vm_step (sort_key rg_key) 4096)
     [VmAllocateFixed 1 4096 4 3 0 65536, VmRemove 1 8192 1, VmAllocateFirstFit 1 1 7 4096 65536,
      VmProtect 1 12288 1 1, VmCloneOwner 1 2, VmForget 1] (vm_new 8) = Some t \<and> vm_inv 8 4096 t"
proof -
  have "list_all (vm_op_ok 4096) [VmAllocateFixed 1 4096 4 3 0 65536, VmRemove 1 8192 1, VmAllocateFirstFit 1 1 7 4096 65536,
      VmProtect 1 12288 1 1, VmCloneOwner 1 2, VmForget 1]" by simp
  from vm_regions_disjoint[OF stable_sort.region_sort_axioms this, of 8] show ?thesis by blast
qed

text \<open>C12: \<open>allocate_first_fit\<close> is first fit: when it succeeds the returned base is the lowest
  page-aligned address in the arena whose range avoids every region of the owner, and exactly
  that region is added; when it fails on good arguments with a free slot, no such address exists.\<close>

theorem vm_first_fit_lowest:
  assumes "region_sort srt" "vm_inv n ps t" "hi < 2 ^ 64"
    and "owner \<noteq> 0" "pages \<noteq> 0" "is_power_of_two ps" "ps dvd lo" "pages * ps < 2 ^ 64"
    and "\<exists>r \<in> set t. \<not> rg_used r"
  shows "case vm_allocate_first_fit srt t owner pages prot lo hi ps of
      (None, t') \<Rightarrow> (\<forall>b. \<not> vm_fits ps t owner (pages * ps) lo hi b) \<and> vm_used t' = vm_used t
    | (Some b, t') \<Rightarrow> vm_fits ps t owner (pages * ps) lo hi b
        \<and> (\<forall>b'. vm_fits ps t owner (pages * ps) lo hi b' \<longrightarrow> b \<le> b')
        \<and> vm_used t' = add_mset \<lparr>rg_owner = owner, rg_base = b, rg_pages = pages,
                                  rg_protection = prot\<rparr> (vm_used t)"
proof -
  obtain res t' where c: "vm_allocate_first_fit srt t owner pages prot lo hi ps = (res, t')"
    by fastforce
  show ?thesis
    using region_sort.allocate_first_fit[OF assms(1-3) c] assms(4-9)
    by (cases res) (auto simp: c list_all_iff)
qed

definition vm_sample :: region_table where
  "vm_sample =
    [\<lparr>rg_owner = 1, rg_base = 4096, rg_pages = 1, rg_protection = 3\<rparr>,
     REGION_EMPTY,
     \<lparr>rg_owner = 1, rg_base = 12288, rg_pages = 3, rg_protection = 1\<rparr>,
     \<lparr>rg_owner = 2, rg_base = 4096, rg_pages = 1, rg_protection = 1\<rparr>,
     REGION_EMPTY, REGION_EMPTY]"

lemma is_power_of_two_4096: "is_power_of_two 4096"
  unfolding is_power_of_two_iff by (rule exI[of _ 12]) simp

lemma vm_sample_inv: "vm_inv 6 4096 vm_sample"
  by (simp add: vm_inv_def vm_sample_def rg_ok_def rg_apart_def rg_stop_def rg_used_def
      is_power_of_two_4096)

theorem vm_first_fit_lowest_witness:
  "fst (vm_allocate_first_fit (sort_key rg_key) vm_sample 1 1 7 4096 65536 4096) = Some 8192
   \<and> vm_fits 4096 vm_sample 1 4096 4096 65536 8192
   \<and> \<not> vm_fits 4096 vm_sample 1 4096 4096 65536 4096"
proof -
  have "fst (vm_allocate_first_fit (sort_key rg_key) vm_sample 1 1 7 4096 65536 4096) = Some 8192"
    by (simp add: vm_allocate_first_fit_def vm_sample_def rg_key_def rg_used_def REGION_EMPTY_def
        is_power_of_two_4096 checked_mul_def checked_add_def rg_end_def unwrap_or_def vm_align_up_def
        u64_not_def u64_max_def sort_key_def Let_def)
  with vm_first_fit_lowest[OF stable_sort.region_sort_axioms vm_sample_inv, of 65536 1 1 4096 7]
  show ?thesis
    by (force simp: is_power_of_two_4096 vm_sample_def rg_used_def split: prod.splits)
qed

text \<open>C32: \<open>remove\<close> as a change of the page map that \<open>find\<close> reports: it succeeds exactly when
  one region of the owner holds the page range and, if it must split that region in two, a slot is
  free; then exactly the range becomes unmapped for that owner. On failure nothing changes.\<close>

theorem vm_remove_refines:
  assumes inv: "vm_inv n ps t" and call: "vm_remove t owner base pages ps = (ok, t')"
  shows "(ok \<longleftrightarrow> (\<exists>r. vm_holds ps t owner base pages r \<and> vm_extras ps base pages r \<le> vm_free_slots t + 1))
    \<and> (ok \<longrightarrow> vm_prot ps t' = (\<lambda>o' a. if o' = owner \<and> base \<le> a \<and> a < base + pages * ps then None
                                    else vm_prot ps t o' a))
    \<and> (\<not> ok \<longrightarrow> t' = t)"
proof -
  have "vm_prot ps t' o' a = (if o' = owner \<and> base \<le> a \<and> a < base + pages * ps then None
      else vm_prot ps t o' a)" if ok for o' a
  proof -
    have call': "vm_remove t owner base pages ps = (True, t')" using call that by simp
    have inv': "vm_inv n ps t'" using vm_remove_inv[OF inv, of owner base pages] call by simp
    from vm_remove_used[OF inv call'] obtain i r first M where
      c: "vm_containing t owner base pages ps = Some (i, r, first, first + pages)" and
      M: "vm_used t = add_mset r M" "vm_used t' = vm_pieces r first base pages ps + M" .
    have cov: "rg_covers ps owner a r" if "base \<le> a" "a < base + pages * ps"
      by (rule vm_containing_covers[OF inv c that])
    have own: "rg_owner r = owner" using vm_containing_Some[OF inv c] by simp
    have only: "\<not> rg_covers ps o' a x" if "rg_covers ps o' a r" "x \<in># M" for x
      using inv that M(1) by (auto simp: vm_inv_iff dest: rg_covers_unique)
    have "vm_prot ps t' o' a = Some p \<longleftrightarrow>
        \<not> (o' = owner \<and> base \<le> a \<and> a < base + pages * ps) \<and> vm_prot ps t o' a = Some p" for p
      unfolding vm_prot_iff[OF inv] vm_prot_iff[OF inv'] M
      using vm_pieces_covers[OF inv c, of o' a p] cov only own
      by (cases "rg_covers ps o' a r") (auto simp: rg_covers_def)
    then show ?thesis by (intro option_ext) auto
  qed
  moreover have "ok \<longleftrightarrow> (\<exists>r. vm_holds ps t owner base pages r
      \<and> vm_extras ps base pages r \<le> vm_free_slots t + 1)"
    using vm_remove_iff[OF inv, of owner base pages] call by simp
  moreover have "\<not> ok \<longrightarrow> t' = t" using vm_failed(1)[of t owner base pages ps] call by simp
  ultimately show ?thesis by (simp add: fun_eq_iff)
qed

theorem vm_remove_refines_witness:
  "\<exists>t'. vm_remove vm_sample 1 16384 1 4096 = (True, t') \<and> vm_prot 4096 t' 1 16385 = None
     \<and> vm_prot 4096 t' 1 20480 = vm_prot 4096 vm_sample 1 20480"
proof -
  have "fst (vm_remove vm_sample 1 16384 1 4096)"
    by (simp add: vm_remove_def vm_sample_def vm_containing_def REGION_EMPTY_def rg_used_def
        checked_mul_def checked_add_def rg_end_def unwrap_or_def Let_def vm_other_free_def upt_rec)
  then obtain t' where t': "vm_remove vm_sample 1 16384 1 4096 = (True, t')" by (metis prod.collapse)
  with vm_remove_refines[OF vm_sample_inv t'] show ?thesis by simp
qed

text \<open>C34: \<open>protect\<close> as a change of the page map: it succeeds exactly when one region of the owner
  holds the page range and enough slots are free for the pieces left and right of it; then exactly
  the range gets the new protection and every other page of every owner keeps its own. On failure
  nothing changes.\<close>

theorem vm_protect_refines:
  assumes inv: "vm_inv n ps t" and call: "vm_protect t owner base pages prot ps = (ok, t')"
  shows "(ok \<longleftrightarrow> (\<exists>r. vm_holds ps t owner base pages r \<and> vm_extras ps base pages r \<le> vm_free_slots t))
    \<and> (ok \<longrightarrow> vm_prot ps t' = (\<lambda>o' a. if o' = owner \<and> base \<le> a \<and> a < base + pages * ps then Some prot
                                    else vm_prot ps t o' a))
    \<and> (\<not> ok \<longrightarrow> t' = t)"
proof -
  have "vm_prot ps t' o' a = (if o' = owner \<and> base \<le> a \<and> a < base + pages * ps then Some prot
      else vm_prot ps t o' a)" if ok for o' a
  proof -
    let ?m = "\<lparr>rg_owner = owner, rg_base = base, rg_pages = pages, rg_protection = prot\<rparr>"
    have call': "vm_protect t owner base pages prot ps = (True, t')" using call that by simp
    have inv': "vm_inv n ps t'" using vm_protect_inv[OF inv, of owner base pages prot] call by simp
    from vm_protect_used[OF inv call'] obtain i r first M where
      c: "vm_containing t owner base pages ps = Some (i, r, first, first + pages)" and
      M: "vm_used t = add_mset r M" "vm_used t' = add_mset ?m (vm_pieces r first base pages ps + M)" .
    have cov: "rg_covers ps owner a r" if "base \<le> a" "a < base + pages * ps"
      by (rule vm_containing_covers[OF inv c that])
    have own: "rg_owner r = owner" "owner \<noteq> 0" using vm_containing_Some[OF inv c] by (auto simp: rg_used_def)
    then have mid: "rg_covers ps o' a ?m \<longleftrightarrow> o' = owner \<and> base \<le> a \<and> a < base + pages * ps"
      by (auto simp: rg_covers_def rg_used_def rg_stop_def)
    have only: "\<not> rg_covers ps o' a x" if "rg_covers ps o' a r" "x \<in># M" for x
      using inv that M(1) by (auto simp: vm_inv_iff dest: rg_covers_unique)
    have "vm_prot ps t' o' a = Some p \<longleftrightarrow>
        (if o' = owner \<and> base \<le> a \<and> a < base + pages * ps then p = prot
         else vm_prot ps t o' a = Some p)" for p
    proof -
      let ?in = "o' = owner \<and> base \<le> a \<and> a < base + pages * ps"
      let ?Q = "\<lambda>x. rg_covers ps o' a x \<and> rg_protection x = p"
      have "(\<exists>x \<in># vm_used t'. ?Q x) \<longleftrightarrow>
          ?Q ?m \<or> (\<exists>x \<in># vm_pieces r first base pages ps. ?Q x) \<or> (\<exists>x \<in># M. ?Q x)"
        unfolding M(2) by auto
      also have "\<dots> \<longleftrightarrow> ?in \<and> p = prot \<or> ?Q r \<and> \<not> (base \<le> a \<and> a < base + pages * ps) \<or> (\<exists>x \<in># M. ?Q x)"
        unfolding vm_pieces_covers[OF inv c] using mid by auto
      also have "\<dots> \<longleftrightarrow> (if ?in then p = prot else \<exists>x \<in># vm_used t. ?Q x)"
      proof (cases ?in)
        case True
        then show ?thesis using cov only by auto
      next
        case False
        have "rg_covers ps o' a r \<Longrightarrow> o' = owner" using own by (simp add: rg_covers_def)
        then show ?thesis using False unfolding M(1) by auto
      qed
      finally show ?thesis unfolding vm_prot_iff[OF inv] vm_prot_iff[OF inv'] .
    qed
    then show ?thesis by (intro option_ext) auto
  qed
  moreover have "ok \<longleftrightarrow> (\<exists>r. vm_holds ps t owner base pages r
      \<and> vm_extras ps base pages r \<le> vm_free_slots t)"
    using vm_protect_iff[OF inv, of owner base pages prot] call by simp
  moreover have "\<not> ok \<longrightarrow> t' = t" using vm_failed(2)[of t owner base pages prot ps] call by simp
  ultimately show ?thesis by (simp add: fun_eq_iff)
qed

theorem vm_protect_refines_witness:
  "\<exists>t'. vm_protect vm_sample 1 16384 1 5 4096 = (True, t') \<and> vm_prot 4096 t' 1 16385 = Some 5
     \<and> vm_prot 4096 t' 1 20480 = vm_prot 4096 vm_sample 1 20480"
proof -
  have "fst (vm_protect vm_sample 1 16384 1 5 4096)"
    by (simp add: vm_protect_def vm_sample_def vm_containing_def REGION_EMPTY_def rg_used_def
        checked_mul_def checked_add_def rg_end_def unwrap_or_def Let_def vm_other_free_def upt_rec)
  then obtain t' where t': "vm_protect vm_sample 1 16384 1 5 4096 = (True, t')" by (metis prod.collapse)
  with vm_protect_refines[OF vm_sample_inv t'] show ?thesis by simp
qed

text \<open>C34: \<open>clone_owner\<close> never panics and is atomic: it succeeds exactly when the owners differ, are
  not zero, the destination owns nothing and enough slots are free; then the destination's page map
  equals the source's and no other owner's changes. On failure the table is unchanged.\<close>

theorem vm_clone_refines:
  assumes inv: "vm_inv n ps t"
  shows "\<exists>ok t'. vm_clone_owner t source destination = Some (ok, t')
    \<and> (ok \<longleftrightarrow> source \<noteq> 0 \<and> destination \<noteq> 0 \<and> source \<noteq> destination
          \<and> (\<forall>r \<in> set t. rg_owner r \<noteq> destination) \<and> vm_count t source \<le> vm_free_slots t)
    \<and> (ok \<longrightarrow> vm_prot ps t' = (vm_prot ps t)(destination := vm_prot ps t source))
    \<and> (\<not> ok \<longrightarrow> t' = t)"
proof -
  from vm_clone_owner_used[of t source destination] obtain ok t' where
    c: "vm_clone_owner t source destination = Some (ok, t')" "\<not> ok \<longrightarrow> t' = t"
    "ok \<longleftrightarrow> source \<noteq> 0 \<and> destination \<noteq> 0 \<and> source \<noteq> destination
      \<and> (\<forall>r \<in> set t. rg_owner r \<noteq> destination) \<and> vm_count t source \<le> vm_free_slots t"
    "ok \<longrightarrow> length t' = length t \<and> vm_used t' = vm_used t +
       image_mset (rg_owner_update (\<lambda>_. destination)) (filter_mset (\<lambda>r. rg_owner r = source) (vm_used t))"
    by (elim exE conjE) (rule that)
  have inv': "vm_inv n ps t'" using vm_clone_inv[OF inv, of source destination] c(1) by auto
  have "vm_prot ps t' o' a = ((vm_prot ps t)(destination := vm_prot ps t source)) o' a" if ok for o' a
  proof -
    have d: "destination \<noteq> 0" "\<forall>r \<in># vm_used t. rg_owner r \<noteq> destination"
      using c(3) that by (auto simp: vm_used_mem)
    have u: "vm_used t' = vm_used t + image_mset (rg_owner_update (\<lambda>_. destination))
        (filter_mset (\<lambda>r. rg_owner r = source) (vm_used t))" using c(4) that by simp
    have cp: "rg_covers ps o' a (r\<lparr>rg_owner := destination\<rparr>) \<longleftrightarrow>
        o' = destination \<and> rg_covers ps source a r" if "rg_owner r = source" "r \<in># vm_used t" for r
      using that d by (auto simp: rg_covers_def rg_stop_def rg_used_def vm_used_mem)
    have "vm_prot ps t' o' a = Some p \<longleftrightarrow>
        (if o' = destination then vm_prot ps t source a = Some p else vm_prot ps t o' a = Some p)" for p
    proof -
      let ?Q = "\<lambda>o' x. rg_covers ps o' a x \<and> rg_protection x = p"
      have "(\<exists>x \<in># vm_used t'. ?Q o' x) \<longleftrightarrow> (\<exists>x \<in># vm_used t. ?Q o' x)
          \<or> (\<exists>x \<in># vm_used t. rg_owner x = source \<and> ?Q o' (x\<lparr>rg_owner := destination\<rparr>))"
        unfolding u by auto
      also have "\<dots> \<longleftrightarrow> (\<exists>x \<in># vm_used t. ?Q o' x) \<or> o' = destination \<and> (\<exists>x \<in># vm_used t. ?Q source x)"
        using cp by (auto simp: rg_covers_def)
      also have "\<dots> \<longleftrightarrow> (if o' = destination then \<exists>x \<in># vm_used t. ?Q source x
          else \<exists>x \<in># vm_used t. ?Q o' x)"
        using d(2) by (auto simp: rg_covers_def)
      finally show ?thesis unfolding vm_prot_iff[OF inv] vm_prot_iff[OF inv'] by simp
    qed
    then show ?thesis by (intro option_ext) auto
  qed
  then show ?thesis using c(1-3) by (intro exI[of _ ok] exI[of _ t']) (auto simp: fun_eq_iff)
qed

theorem vm_clone_refines_witness:
  "\<exists>t'. vm_clone_owner vm_sample 1 3 = Some (True, t') \<and> vm_prot 4096 t' 3 = vm_prot 4096 vm_sample 1"
proof -
  have "(\<forall>r \<in> set vm_sample. rg_owner r \<noteq> 3) \<and> vm_count vm_sample 1 \<le> vm_free_slots vm_sample"
    by (simp add: vm_sample_def vm_count_def vm_free_slots_def REGION_EMPTY_def rg_used_def)
  moreover obtain ok t' where "vm_clone_owner vm_sample 1 3 = Some (ok, t')"
      "ok \<longleftrightarrow> (1::nat) \<noteq> 0 \<and> (3::nat) \<noteq> 0 \<and> (1::nat) \<noteq> 3 \<and> (\<forall>r \<in> set vm_sample. rg_owner r \<noteq> 3)
        \<and> vm_count vm_sample 1 \<le> vm_free_slots vm_sample"
      "ok \<longrightarrow> vm_prot 4096 t' = (vm_prot 4096 vm_sample)(3 := vm_prot 4096 vm_sample 1)"
    using vm_clone_refines[OF vm_sample_inv, of 1 3] by (elim exE conjE) (rule that)
  ultimately show ?thesis by (intro exI[of _ t']) simp
qed

text \<open>
  The product \<open>pages as u64 * page_size\<close> in \<open>allocate_fixed\<close> is unchecked: a request of
  $2^{52}$ pages of 4096 bytes wraps to an empty range and is stored, as a region without an end.
\<close>

lemma vm_allocate_fixed_wraps:
  "vm_allocate_fixed (vm_new 1) 1 4096 (2 ^ 52) 3 0 65536 4096 =
     (True, [\<lparr>rg_owner = 1, rg_base = 4096, rg_pages = 2 ^ 52, rg_protection = 3\<rparr>])
   \<and> rg_end \<lparr>rg_owner = 1, rg_base = 4096, rg_pages = 2 ^ 52, rg_protection = 3\<rparr> 4096 = None"
  by (simp add: vm_allocate_fixed_def vm_new_def is_power_of_two_4096 wrapping_mul_def checked_add_def
      rg_used_def REGION_EMPTY_def rg_end_def checked_mul_def)

end
