(* ===== verification/Frame_Allocator.thy ===== *)
theory Frame_Allocator
  imports Prelude
begin

text \<open>
  The physical frame allocator of \<open>src/crates/frame-allocator/src/lib.rs\<close>: one bit per
  4 KiB frame in an array of 64-bit words (set = unavailable), a free counter and the word the
  next search starts at. The word operations are the source's masks; frames, counters and
  addresses are \<^typ>\<open>nat\<close>.
\<close>

unbundle bit_operations_syntax

section \<open>Model\<close>

definition PAGE_SIZE :: nat where
  "PAGE_SIZE = 4096"

datatype free_error = FreeOutOfRange | FreeAlreadyFree | FreeUnaligned

record frame_allocator =
  fa_words :: "u64w list"
  fa_frame_count :: nat
  fa_free_count :: nat
  fa_next_word :: nat

definition fa_new :: "u64w list \<Rightarrow> frame_allocator" where
  "fa_new ws = \<lparr>fa_words = map (\<lambda>_. - 1) ws, fa_frame_count = min (length ws * 64) u64_max,
                fa_free_count = 0, fa_next_word = 0\<rparr>"

definition fa_managed_bytes :: "frame_allocator \<Rightarrow> nat" where
  "fa_managed_bytes a = wrapping_mul (fa_frame_count a) PAGE_SIZE"

definition fa_is_used :: "frame_allocator \<Rightarrow> nat \<Rightarrow> bool" where
  "fa_is_used a frame \<longleftrightarrow> (fa_words a ! (frame div 64)) AND push_bit (frame mod 64) 1 \<noteq> 0"

definition fa_set_used :: "frame_allocator \<Rightarrow> nat \<Rightarrow> bool \<Rightarrow> frame_allocator" where
  "fa_set_used a frame used =
     (let mask = push_bit (frame mod 64) 1;
          w = fa_words a ! (frame div 64)
      in a\<lparr>fa_words := (fa_words a)[frame div 64 := if used then w OR mask else w AND NOT mask]\<rparr>)"

definition fa_release_region :: "frame_allocator \<Rightarrow> nat \<Rightarrow> nat \<Rightarrow> nat \<times> frame_allocator" where
  "fa_release_region a physical_start page_count =
     (let first = physical_start div PAGE_SIZE;
          e = min (saturating_add first page_count) (fa_frame_count a);
          (a1, released) = fold (\<lambda>index (a, released).
             if fa_is_used a index then (fa_set_used a index False, released + 1)
             else (a, released)) [first..<e] (a, 0)
      in (released, a1\<lparr>fa_free_count := fa_free_count a1 + released,
                       fa_next_word := min (fa_next_word a1) (first div 64)\<rparr>))"

definition fa_reserve_region :: "frame_allocator \<Rightarrow> nat \<Rightarrow> nat \<Rightarrow> nat \<times> frame_allocator" where
  "fa_reserve_region a physical_start page_count =
     (let first = physical_start div PAGE_SIZE;
          e = min (saturating_add first page_count) (fa_frame_count a);
          (a1, reserved) = fold (\<lambda>index (a, reserved).
             if \<not> fa_is_used a index then (fa_set_used a index True, reserved + 1)
             else (a, reserved)) [first..<e] (a, 0)
      in (reserved, a1\<lparr>fa_free_count := fa_free_count a1 - reserved\<rparr>))"

text \<open>The inner loop of \<open>allocate\<close> over a range of word indices: the word, bit and frame found.\<close>

fun fa_scan :: "frame_allocator \<Rightarrow> nat list \<Rightarrow> (nat \<times> nat \<times> nat) option" where
  "fa_scan a [] = None"
| "fa_scan a (word_index # rest) =
     (let available = NOT (fa_words a ! word_index)
      in if available = 0 then fa_scan a rest
         else let b = trailing_zeros available;
                  frame = word_index * 64 + b
              in if fa_frame_count a \<le> frame then fa_scan a rest
                 else Some (word_index, b, frame))"

definition fa_allocate :: "frame_allocator \<Rightarrow> nat option \<times> frame_allocator" where
  "fa_allocate a =
     (if fa_free_count a = 0 then (None, a)
      else case (case fa_scan a [fa_next_word a..<length (fa_words a)] of
                   None \<Rightarrow> fa_scan a [0..<fa_next_word a]
                 | Some hit \<Rightarrow> Some hit) of
             None \<Rightarrow> (None, a)
           | Some (word_index, b, frame) \<Rightarrow>
               (Some (wrapping_mul frame PAGE_SIZE),
                a\<lparr>fa_words := (fa_words a)[word_index := (fa_words a ! word_index) OR push_bit b 1],
                  fa_free_count := fa_free_count a - 1,
                  fa_next_word := word_index\<rparr>))"

text \<open>The frame walk of \<open>allocate_contiguous\<close> up to the first complete run.\<close>

fun fa_find_run :: "frame_allocator \<Rightarrow> nat \<Rightarrow> nat list \<Rightarrow> nat \<Rightarrow> nat \<Rightarrow> nat option" where
  "fa_find_run a count [] run_start run_length = None"
| "fa_find_run a count (frame # frames) run_start run_length =
     (if fa_is_used a frame then fa_find_run a count frames run_start 0
      else let run_start' = (if run_length = 0 then frame else run_start)
           in if run_length + 1 = count then Some run_start'
              else fa_find_run a count frames run_start' (run_length + 1))"

definition fa_allocate_contiguous :: "frame_allocator \<Rightarrow> nat \<Rightarrow> nat option \<times> frame_allocator" where
  "fa_allocate_contiguous a count =
     (if count = 0 \<or> fa_free_count a < count \<or> fa_frame_count a < count then (None, a)
      else case fa_find_run a count [0..<fa_frame_count a] 0 0 of
             None \<Rightarrow> (None, a)
           | Some run_start \<Rightarrow>
               (let a1 = fold (\<lambda>reserved a. fa_set_used a reserved True)
                           [run_start..<run_start + count] a
                in (Some (wrapping_mul run_start PAGE_SIZE),
                    a1\<lparr>fa_free_count := fa_free_count a1 - count,
                       fa_next_word := run_start div 64\<rparr>)))"

definition fa_free :: "frame_allocator \<Rightarrow> nat \<Rightarrow> (free_error, unit) result \<times> frame_allocator" where
  "fa_free a physical_address =
     (if physical_address mod PAGE_SIZE \<noteq> 0 then (Inl FreeUnaligned, a)
      else let frame = physical_address div PAGE_SIZE
           in if fa_frame_count a \<le> frame then (Inl FreeOutOfRange, a)
              else if \<not> fa_is_used a frame then (Inl FreeAlreadyFree, a)
              else (let a1 = fa_set_used a frame False
                    in (Inr (), a1\<lparr>fa_free_count := fa_free_count a1 + 1,
                                   fa_next_word := min (fa_next_word a1) (frame div 64)\<rparr>)))"

section \<open>Bits and frames\<close>

definition fa_bits :: "frame_allocator \<Rightarrow> nat" where
  "fa_bits a = 64 * length (fa_words a)"

lemma fa_is_used_bit: "fa_is_used a frame \<longleftrightarrow> bit (fa_words a ! (frame div 64)) (frame mod 64)"
  unfolding fa_is_used_def by (rule mask_test)

interpretation frames: bitmap fa_is_used fa_set_used fa_bits
proof
  fix i j a v
  assume b: "i < fa_bits a" "j < fa_bits a"
  have q: "i div 64 = j div 64 \<Longrightarrow> i mod 64 = j mod 64 \<Longrightarrow> i = j"
    by (metis div_mult_mod_eq)
  have m: "bit (w OR push_bit (i mod 64) 1) (j mod 64) \<longleftrightarrow> bit w (j mod 64) \<or> j mod 64 = i mod 64"
    "bit (w AND NOT (push_bit (i mod 64) 1)) (j mod 64) \<longleftrightarrow> bit w (j mod 64) \<and> j mod 64 \<noteq> i mod 64"
    for w :: u64w
    by (simp_all add: mask_set mask_clear del: push_bit_of_1)
  show "fa_is_used (fa_set_used a i v) j = (if j = i then v else fa_is_used a j)"
  proof (cases "i div 64 = j div 64")
    case True
    then have "j div 64 < length (fa_words a)" "j = i \<longleftrightarrow> j mod 64 = i mod 64"
      using b q by (auto simp: fa_bits_def)
    then show ?thesis using True unfolding fa_is_used_bit fa_set_used_def Let_def
      by (cases v) (simp_all add: m del: push_bit_of_1)
  next
    case False
    then have "j \<noteq> i" by auto
    then show ?thesis using False by (simp add: fa_is_used_bit fa_set_used_def Let_def)
  qed
next
  show "fa_bits (fa_set_used a i v) = fa_bits a" for a i v
    by (simp add: fa_bits_def fa_set_used_def Let_def)
qed

text \<open>The set of free frames, which the operations are specified on.\<close>

definition fa_free_frames :: "frame_allocator \<Rightarrow> nat set" where
  "fa_free_frames a = {f. f < fa_bits a \<and> \<not> fa_is_used a f}"

definition fa_inv :: "nat \<Rightarrow> frame_allocator \<Rightarrow> bool" where
  "fa_inv n a \<longleftrightarrow>
     length (fa_words a) = n \<and> fa_frame_count a = 64 * n \<and> fa_next_word a \<le> n
     \<and> fa_free_count a = card (fa_free_frames a)"

lemma finite_free [simp]: "finite (fa_free_frames a)"
  by (simp add: fa_free_frames_def)

lemma fa_set_used_simps [simp]:
  "fa_frame_count (fa_set_used a i v) = fa_frame_count a"
  "fa_free_count (fa_set_used a i v) = fa_free_count a"
  "fa_next_word (fa_set_used a i v) = fa_next_word a"
  "length (fa_words (fa_set_used a i v)) = length (fa_words a)"
  by (simp_all add: fa_set_used_def Let_def)

lemma fa_free_frames_update [simp]:
  "fa_free_frames (a\<lparr>fa_free_count := x\<rparr>) = fa_free_frames a"
  "fa_free_frames (a\<lparr>fa_next_word := y\<rparr>) = fa_free_frames a"
  by (simp_all add: fa_free_frames_def fa_is_used_def fa_bits_def)

lemma fa_free_frames_set:
  assumes "i < fa_bits a"
  shows "fa_free_frames (fa_set_used a i True) = fa_free_frames a - {i}"
    "fa_free_frames (fa_set_used a i False) = insert i (fa_free_frames a)"
  using assms frames.clear_set_fill[of "[i]" a]
  by (auto simp: fa_free_frames_def frames.bits_set)

lemma fa_fill_simps [simp]:
  "fa_frame_count (fold (\<lambda>i a. fa_set_used a i v) is a) = fa_frame_count a"
  "fa_free_count (fold (\<lambda>i a. fa_set_used a i v) is a) = fa_free_count a"
  "fa_next_word (fold (\<lambda>i a. fa_set_used a i v) is a) = fa_next_word a"
  "length (fa_words (fold (\<lambda>i a. fa_set_used a i v) is a)) = length (fa_words a)"
  by (induction "is" arbitrary: a) simp_all

lemma fa_free_frames_fill:
  assumes "\<forall>i \<in> set is. i < fa_bits a"
  shows "fa_free_frames (fold (\<lambda>i a. fa_set_used a i True) is a) = fa_free_frames a - set is"
  using frames.clear_set_fill(1)[OF assms] by (simp add: fa_free_frames_def frames.bits_fill)

lemma fa_free_word:
  assumes "w < length (fa_words a)"
  shows "NOT (fa_words a ! w) = 0 \<longleftrightarrow> (\<forall>b < 64. w * 64 + b \<notin> fa_free_frames a)"
proof -
  have "NOT (fa_words a ! w) = 0 \<longleftrightarrow> (\<forall>b < 64. bit (fa_words a ! w) b)"
    by (auto simp: bit_eq_iff bit_not_iff)
  moreover have "w * 64 + b \<in> fa_free_frames a \<longleftrightarrow> \<not> bit (fa_words a ! w) b" if "b < 64" for b
    using that assms by (auto simp: fa_free_frames_def fa_is_used_bit fa_bits_def)
  ultimately show ?thesis by auto
qed

section \<open>Loops\<close>

lemma fa_scan_Some:
  assumes "fa_scan a ws = Some (w, b, f)" "\<forall>v \<in> set ws. v < length (fa_words a)"
  shows "w \<in> set ws \<and> b < 64 \<and> f = w * 64 + b \<and> f < fa_frame_count a \<and> f \<in> fa_free_frames a"
  using assms
proof (induction ws)
  case (Cons v ws)
  let ?av = "NOT (fa_words a ! v)"
  show ?case
  proof (cases "?av = 0 \<or> fa_frame_count a \<le> v * 64 + trailing_zeros ?av")
    case True
    then have "fa_scan a (v # ws) = fa_scan a ws" by (cases "?av = 0") (simp_all add: Let_def)
    with Cons.prems(1) have "fa_scan a ws = Some (w, b, f)" by (simp only:)
    with Cons.IH Cons.prems(2) show ?thesis by auto
  next
    case False
    then have "fa_scan a (v # ws) = Some (v, trailing_zeros ?av, v * 64 + trailing_zeros ?av)"
      by (simp add: Let_def)
    with Cons.prems(1) have h: "w = v" "b = trailing_zeros ?av" "f = v * 64 + b" by auto
    have tz: "b < 64" "bit ?av b" using trailing_zeros_bit(1,2)[of ?av] False h(2) by simp_all
    have "v < length (fa_words a)" using Cons.prems(2) by simp
    moreover have "\<not> bit (fa_words a ! v) b" using tz by (simp add: bit_not_iff)
    moreover have "f < fa_frame_count a" using False h by simp
    ultimately show ?thesis using h(1,3) tz(1)
      by (simp add: fa_free_frames_def fa_is_used_bit fa_bits_def)
  qed
qed simp

lemma fa_scan_None:
  assumes "fa_scan a ws = None" "\<forall>v \<in> set ws. v < length (fa_words a)"
    and "fa_frame_count a = fa_bits a"
  shows "\<forall>v \<in> set ws. \<forall>b < 64. v * 64 + b \<notin> fa_free_frames a"
  using assms(1,2)
proof (induction ws)
  case (Cons v ws)
  let ?av = "NOT (fa_words a ! v)"
  have v: "v < length (fa_words a)" using Cons.prems(2) by simp
  have "?av \<noteq> 0 \<Longrightarrow> v * 64 + trailing_zeros ?av < fa_frame_count a"
    using trailing_zeros_bit(1)[of ?av] v assms(3) by (simp add: fa_bits_def)
  then have "?av = 0" "fa_scan a ws = None" using Cons.prems(1) by (auto simp: Let_def split: if_splits)
  then show ?case using Cons.IH Cons.prems(2) fa_free_word[OF v] by simp
qed simp

lemma fa_find_run_least:
  fixes count :: nat
  assumes free: "fa_frame_count a = fa_bits a" and N: "fa_bits a = N"
  defines "run \<equiv> \<lambda>s. {s..<s + count} \<subseteq> fa_free_frames a"
  shows "k \<le> N \<Longrightarrow> rl < count \<Longrightarrow> rl \<le> k \<Longrightarrow> {k - rl..<k} \<subseteq> fa_free_frames a \<Longrightarrow>
    (0 < rl \<longrightarrow> rs = k - rl) \<Longrightarrow> (\<forall>s. run s \<longrightarrow> k - rl \<le> s) \<Longrightarrow>
    (case fa_find_run a count [k..<N] rs rl of
       None \<Rightarrow> \<forall>s. \<not> run s
     | Some s \<Rightarrow> run s \<and> (\<forall>s'. run s' \<longrightarrow> s \<le> s'))"
proof (induction "N - k" arbitrary: k rs rl)
  case 0
  have "\<not> run s" for s
  proof
    assume r: "run s"
    then have "N - rl \<le> s" using 0 by simp
    moreover have "s + count - 1 \<in> {s..<s + count}" using 0 by auto
    then have "s + count - 1 < N" using r N unfolding run_def by (auto simp: fa_free_frames_def)
    ultimately show False using 0 by linarith
  qed
  then show ?case using 0 by simp
next
  case (Suc d)
  then have k: "k < N" by simp
  have up: "[k..<N] = k # [Suc k..<N]" using k by (simp add: upt_conv_Cons)
  have d: "d = N - Suc k" "Suc k \<le> N" using Suc.hyps(2) by simp_all
  show ?case
  proof (cases "fa_is_used a k")
    case True
    have "Suc k \<le> s" if "run s" for s
    proof (rule ccontr)
      assume "\<not> Suc k \<le> s"
      moreover have "k - rl \<le> s" using Suc.prems(6) that by simp
      ultimately have "k \<in> {s..<s + count}" using Suc.prems(2) by auto
      then show False using that True unfolding run_def by (auto simp: fa_free_frames_def)
    qed
    then show ?thesis using Suc.hyps(1)[OF d, of 0 rs] Suc.prems(2) True up by simp
  next
    case False
    then have kf: "k \<in> fa_free_frames a" using k N by (simp add: fa_free_frames_def)
    let ?rs = "if rl = 0 then k else rs"
    have rs: "?rs = Suc k - (rl + 1)" using Suc.prems(5) by simp
    have sub: "{Suc k - (rl + 1)..<Suc k} \<subseteq> fa_free_frames a"
      using Suc.prems(4) kf by (auto simp: less_Suc_eq)
    show ?thesis
    proof (cases "rl + 1 = count")
      case True
      have "k - rl + count = Suc k" using True Suc.prems(3) by simp
      then have "run (k - rl)" using sub unfolding run_def by simp
      moreover have "fa_find_run a count [k..<N] rs rl = Some (k - rl)"
        using False True up rs by simp
      ultimately show ?thesis using Suc.prems(6) by simp
    next
      case less: False
      then have "rl + 1 < count" using Suc.prems(2) by simp
      moreover have "fa_find_run a count [k..<N] rs rl = fa_find_run a count [Suc k..<N] ?rs (rl + 1)"
        using False less up by (simp add: Let_def)
      ultimately show ?thesis
        using Suc.hyps(1)[OF d, of "rl + 1" ?rs] sub rs Suc.prems(3,6) by simp
    qed
  qed
qed

text \<open>The counting loops of \<open>release_region\<close> and \<open>reserve_region\<close>.\<close>

lemma fa_release_loop:
  assumes "distinct is" "\<forall>i \<in> set is. i < fa_bits a"
    and "fold (\<lambda>index (a, released). if fa_is_used a index
           then (fa_set_used a index False, released + 1) else (a, released)) is (a, r) = (a', r')"
  shows "fa_free_frames a' = fa_free_frames a \<union> set is \<and> r' = r + card (set is - fa_free_frames a)
    \<and> fa_frame_count a' = fa_frame_count a \<and> fa_free_count a' = fa_free_count a
    \<and> fa_next_word a' = fa_next_word a \<and> length (fa_words a') = length (fa_words a)"
  using assms
proof (induction "is" arbitrary: a r)
  case (Cons i "is")
  show ?case
  proof (cases "fa_is_used a i")
    case True
    let ?a = "fa_set_used a i False"
    have i: "i < fa_bits a" "i \<notin> fa_free_frames a" "i \<notin> set is"
      using Cons.prems True by (auto simp: fa_free_frames_def)
    have f: "fa_free_frames ?a = insert i (fa_free_frames a)" by (rule fa_free_frames_set(2)[OF i(1)])
    have "set (i # is) - fa_free_frames a = insert i (set is - fa_free_frames ?a)" using i f by auto
    then have "card (set (i # is) - fa_free_frames a) = Suc (card (set is - fa_free_frames ?a))"
      using f by simp
    then show ?thesis using Cons.IH[of ?a "r + 1"] Cons.prems True f
      by (simp add: frames.bits_set)
  next
    case False
    then have "i \<in> fa_free_frames a" using Cons.prems(2) by (simp add: fa_free_frames_def)
    then show ?thesis using Cons.IH[of a r] Cons.prems False
      by (auto simp: insert_Diff_if insert_absorb)
  qed
qed simp

lemma fa_reserve_loop:
  assumes "distinct is" "\<forall>i \<in> set is. i < fa_bits a"
    and "fold (\<lambda>index (a, reserved). if \<not> fa_is_used a index
           then (fa_set_used a index True, reserved + 1) else (a, reserved)) is (a, r) = (a', r')"
  shows "fa_free_frames a' = fa_free_frames a - set is \<and> r' = r + card (set is \<inter> fa_free_frames a)
    \<and> fa_frame_count a' = fa_frame_count a \<and> fa_free_count a' = fa_free_count a
    \<and> fa_next_word a' = fa_next_word a \<and> length (fa_words a') = length (fa_words a)"
  using assms
proof (induction "is" arbitrary: a r)
  case (Cons i "is")
  show ?case
  proof (cases "fa_is_used a i")
    case False
    let ?a = "fa_set_used a i True"
    have i: "i < fa_bits a" "i \<in> fa_free_frames a" "i \<notin> set is"
      using Cons.prems False by (auto simp: fa_free_frames_def)
    have f: "fa_free_frames ?a = fa_free_frames a - {i}" by (rule fa_free_frames_set(1)[OF i(1)])
    have "set is \<inter> fa_free_frames ?a = set is \<inter> fa_free_frames a" using f i(3) by auto
    then have "card (set (i # is) \<inter> fa_free_frames a) = Suc (card (set is \<inter> fa_free_frames ?a))"
      using i by simp
    then show ?thesis using Cons.IH[of ?a "r + 1"] Cons.prems False f
      by (auto simp: frames.bits_set)
  next
    case True
    then have "i \<notin> fa_free_frames a" by (simp add: fa_free_frames_def)
    then show ?thesis using Cons.IH[of a r] Cons.prems True by auto
  qed
qed simp

section \<open>Operations on the set of free frames\<close>

lemma fa_inv_bits: "fa_inv n a \<Longrightarrow> fa_frame_count a = fa_bits a \<and> fa_bits a = 64 * n"
  by (simp add: fa_inv_def fa_bits_def)

lemma fa_allocate_frames:
  assumes inv: "fa_inv n a"
  shows "case fa_allocate a of
      (None, a') \<Rightarrow> fa_free_frames a = {} \<and> a' = a
    | (Some p, a') \<Rightarrow> \<exists>f \<in> fa_free_frames a. p = wrapping_mul f PAGE_SIZE
        \<and> fa_free_frames a' = fa_free_frames a - {f} \<and> fa_inv n a'"
proof (cases "fa_free_count a = 0")
  case True
  then show ?thesis using inv by (simp add: fa_allocate_def fa_inv_def)
next
  case False
  have len: "length (fa_words a) = n" "fa_next_word a \<le> n" using inv by (simp_all add: fa_inv_def)
  have fc: "fa_frame_count a = fa_bits a" using inv by (rule fa_inv_bits[THEN conjunct1])
  let ?hit = "case fa_scan a [fa_next_word a..<length (fa_words a)] of
      None \<Rightarrow> fa_scan a [0..<fa_next_word a] | Some hit \<Rightarrow> Some hit"
  have "?hit \<noteq> None"
  proof
    assume N: "?hit = None"
    have "v * 64 + b \<notin> fa_free_frames a" if "v < n" "b < 64" for v b
      using N fa_scan_None[of a "[fa_next_word a..<n]"] fa_scan_None[of a "[0..<fa_next_word a]"]
        len fc that by (cases "v < fa_next_word a") (auto split: option.splits)
    from this[of "f div 64" "f mod 64" for f] have "f \<notin> fa_free_frames a" for f
      using len(1) by (cases "f < 64 * n") (auto simp: fa_free_frames_def fa_bits_def)
    then have "fa_free_frames a = {}" by blast
    then show False using False inv by (simp add: fa_inv_def)
  qed
  then obtain w b f where hit: "?hit = Some (w, b, f)" by auto
  have f: "w < n" "b < 64" "f = w * 64 + b" "f \<in> fa_free_frames a"
    using hit len fa_scan_Some[of a "[fa_next_word a..<n]" w b f]
      fa_scan_Some[of a "[0..<fa_next_word a]" w b f]
    by (auto split: option.splits)
  let ?a = "a\<lparr>fa_words := (fa_words a)[w := (fa_words a ! w) OR push_bit b 1],
      fa_free_count := fa_free_count a - 1, fa_next_word := w\<rparr>"
  have eq: "?a = (fa_set_used a f True)\<lparr>fa_free_count := fa_free_count a - 1, fa_next_word := w\<rparr>"
    using f(2,3) by (simp add: fa_set_used_def)
  have fr: "fa_free_frames ?a = fa_free_frames a - {f}"
  proof -
    have "f < fa_bits a" using f(4) by (simp add: fa_free_frames_def)
    from fa_free_frames_set(1)[OF this] show ?thesis unfolding eq by simp
  qed
  have "fa_inv n ?a" using inv f(1) f(4) fr unfolding fa_inv_def by simp
  moreover have "fa_allocate a = (Some (wrapping_mul f PAGE_SIZE), ?a)"
    unfolding fa_allocate_def hit using False by simp
  ultimately show ?thesis using f(4) fr by auto
qed

lemma fa_contiguous_frames:
  assumes inv: "fa_inv n a"
  shows "case fa_allocate_contiguous a count of
      (None, a') \<Rightarrow> (count = 0 \<or> (\<forall>s. \<not> {s..<s + count} \<subseteq> fa_free_frames a)) \<and> a' = a
    | (Some p, a') \<Rightarrow> \<exists>s. p = wrapping_mul s PAGE_SIZE \<and> {s..<s + count} \<subseteq> fa_free_frames a
        \<and> (\<forall>s'. {s'..<s' + count} \<subseteq> fa_free_frames a \<longrightarrow> s \<le> s') \<and> 0 < count
        \<and> fa_free_frames a' = fa_free_frames a - {s..<s + count} \<and> fa_inv n a'"
proof (cases "count = 0 \<or> fa_free_count a < count \<or> fa_frame_count a < count")
  case True
  have "\<not> {s..<s + count} \<subseteq> fa_free_frames a" if "count \<noteq> 0" for s
  proof
    assume sub: "{s..<s + count} \<subseteq> fa_free_frames a"
    then have "count \<le> fa_free_count a"
      using card_mono[OF finite_free sub] inv by (simp add: fa_inv_def)
    moreover have "fa_free_frames a \<subseteq> {..<fa_frame_count a}"
      using inv by (auto simp: fa_inv_def fa_free_frames_def fa_bits_def)
    then have "fa_free_count a \<le> fa_frame_count a"
      using card_mono[of "{..<fa_frame_count a}"] inv by (auto simp: fa_inv_def)
    ultimately show False using True that by simp
  qed
  then show ?thesis using True by (auto simp: fa_allocate_contiguous_def)
next
  case False
  have fc: "fa_frame_count a = fa_bits a" "fa_bits a = 64 * n" using fa_inv_bits[OF inv] by simp_all
  have least: "case fa_find_run a count [0..<fa_frame_count a] 0 0 of
      None \<Rightarrow> \<forall>s. \<not> {s..<s + count} \<subseteq> fa_free_frames a
    | Some s \<Rightarrow> {s..<s + count} \<subseteq> fa_free_frames a
        \<and> (\<forall>s'. {s'..<s' + count} \<subseteq> fa_free_frames a \<longrightarrow> s \<le> s')"
    using fa_find_run_least[OF fc(1) refl, of 0 0 count 0] False fc(1) by simp
  show ?thesis
  proof (cases "fa_find_run a count [0..<fa_frame_count a] 0 0")
    case None
    then show ?thesis using least False by (simp add: fa_allocate_contiguous_def)
  next
    case (Some s)
    then have run: "{s..<s + count} \<subseteq> fa_free_frames a"
      "\<forall>s'. {s'..<s' + count} \<subseteq> fa_free_frames a \<longrightarrow> s \<le> s'" using least by simp_all
    let ?f = "fold (\<lambda>reserved a. fa_set_used a reserved True) [s..<s + count] a"
    let ?a = "?f\<lparr>fa_free_count := fa_free_count ?f - count, fa_next_word := s div 64\<rparr>"
    have fr: "fa_free_frames ?a = fa_free_frames a - {s..<s + count}"
    proof -
      have "\<forall>i \<in> set [s..<s + count]. i < fa_bits a" using run(1) by (auto simp: fa_free_frames_def)
      from fa_free_frames_fill[OF this] show ?thesis by simp
    qed
    have "s \<in> fa_free_frames a" using run(1) False by auto
    then have "s div 64 \<le> n" using fc(2) by (auto simp: fa_free_frames_def)
    then have "fa_inv n ?a" using inv fr run(1)
      by (simp add: fa_inv_def card_Diff_subset)
    moreover have "fa_allocate_contiguous a count = (Some (wrapping_mul s PAGE_SIZE), ?a)"
      using False Some by (simp add: fa_allocate_contiguous_def Let_def)
    ultimately show ?thesis using fr run False by auto
  qed
qed

lemma fa_free_result:
  assumes inv: "fa_inv n a" and call: "fa_free a p = (res, a')"
  shows "res = (if p mod PAGE_SIZE \<noteq> 0 then Inl FreeUnaligned
      else if 64 * n \<le> p div PAGE_SIZE then Inl FreeOutOfRange
      else if p div PAGE_SIZE \<in> fa_free_frames a then Inl FreeAlreadyFree else Inr ())
    \<and> fa_inv n a' \<and> (\<forall>e. res = Inl e \<longrightarrow> a' = a)
    \<and> (res = Inr () \<longrightarrow> fa_free_frames a' = insert (p div PAGE_SIZE) (fa_free_frames a))"
proof -
  let ?f = "p div PAGE_SIZE"
  note b = fa_inv_bits[OF inv]
  show ?thesis
  proof (cases "p mod PAGE_SIZE = 0 \<and> ?f < 64 * n \<and> ?f \<notin> fa_free_frames a")
    case True
    then have u: "fa_is_used a ?f" "?f < fa_bits a" using b by (auto simp: fa_free_frames_def)
    let ?a = "(fa_set_used a ?f False)\<lparr>fa_free_count := fa_free_count a + 1,
        fa_next_word := min (fa_next_word a) (?f div 64)\<rparr>"
    have "res = Inr ()" "a' = ?a" using call True u(1) b by (simp_all add: fa_free_def Let_def)
    moreover have "fa_free_frames ?a = insert ?f (fa_free_frames a)"
      using fa_free_frames_set(2)[OF u(2)] by simp
    ultimately show ?thesis using inv True by (simp add: fa_inv_def min.coboundedI1)
  next
    case False
    then show ?thesis using call inv b
      by (auto simp: fa_free_def Let_def fa_free_frames_def split: if_splits)
  qed
qed

lemma fa_release_frames:
  assumes inv: "fa_inv n a" and call: "fa_release_region a start pages = (r, a')"
  defines "span \<equiv> {start div PAGE_SIZE..<min (saturating_add (start div PAGE_SIZE) pages) (64 * n)}"
  shows "fa_inv n a' \<and> fa_free_frames a' = fa_free_frames a \<union> span \<and> r = card (span - fa_free_frames a)"
proof -
  let ?is = "[start div PAGE_SIZE..<min (saturating_add (start div PAGE_SIZE) pages) (fa_frame_count a)]"
  obtain a1 r1 where l: "fold (\<lambda>index (a, released). if fa_is_used a index
      then (fa_set_used a index False, released + 1) else (a, released)) ?is (a, 0::nat) = (a1, r1)"
    by fastforce
  have b: "fa_frame_count a = 64 * n" "fa_bits a = 64 * n" using fa_inv_bits[OF inv] by simp_all
  have span: "span = set ?is" using b by (simp add: span_def)
  have "\<forall>i \<in> set ?is. i < fa_bits a" using b by auto
  note loop = fa_release_loop[OF distinct_upt this l]
  have a': "r = r1" "a' = a1\<lparr>fa_free_count := fa_free_count a1 + r1,
      fa_next_word := min (fa_next_word a1) (start div PAGE_SIZE div 64)\<rparr>"
    using call l by (auto simp: fa_release_region_def Let_def)
  have "card (fa_free_frames a \<union> span) = card (fa_free_frames a) + card (span - fa_free_frames a)"
    unfolding span by (subst card_Un_disjoint[symmetric]) (auto intro: arg_cong[where f = card])
  then show ?thesis using loop a' inv unfolding span by (auto simp: fa_inv_def)
qed

lemma fa_reserve_frames:
  assumes inv: "fa_inv n a" and call: "fa_reserve_region a start pages = (r, a')"
  defines "span \<equiv> {start div PAGE_SIZE..<min (saturating_add (start div PAGE_SIZE) pages) (64 * n)}"
  shows "fa_inv n a' \<and> fa_free_frames a' = fa_free_frames a - span \<and> r = card (span \<inter> fa_free_frames a)"
proof -
  let ?is = "[start div PAGE_SIZE..<min (saturating_add (start div PAGE_SIZE) pages) (fa_frame_count a)]"
  obtain a1 r1 where l: "fold (\<lambda>index (a, reserved). if \<not> fa_is_used a index
      then (fa_set_used a index True, reserved + 1) else (a, reserved)) ?is (a, 0::nat) = (a1, r1)"
    by fastforce
  have b: "fa_frame_count a = 64 * n" "fa_bits a = 64 * n" using fa_inv_bits[OF inv] by simp_all
  have span: "span = set ?is" using b by (simp add: span_def)
  have "\<forall>i \<in> set ?is. i < fa_bits a" using b by auto
  note loop = fa_reserve_loop[OF distinct_upt this l]
  have a': "r = r1" "a' = a1\<lparr>fa_free_count := fa_free_count a1 - r1\<rparr>"
    using call l by (auto simp: fa_reserve_region_def Let_def)
  have "card (fa_free_frames a - span) = card (fa_free_frames a) - card (span \<inter> fa_free_frames a)"
    by (simp add: card_Diff_subset_Int Int_commute)
  then show ?thesis using loop a' inv unfolding span by (auto simp: fa_inv_def)
qed

section \<open>The operations as a system\<close>

datatype fa_op =
    FaRelease nat nat
  | FaReserve nat nat
  | FaAllocate
  | FaAllocateContiguous nat
  | FaFree nat

fun fa_step :: "fa_op \<Rightarrow> frame_allocator \<Rightarrow> frame_allocator" where
  "fa_step (FaRelease start pages) a = snd (fa_release_region a start pages)"
| "fa_step (FaReserve start pages) a = snd (fa_reserve_region a start pages)"
| "fa_step FaAllocate a = snd (fa_allocate a)"
| "fa_step (FaAllocateContiguous count) a = snd (fa_allocate_contiguous a count)"
| "fa_step (FaFree p) a = snd (fa_free a p)"

lemma fa_new_free: "fa_free_frames (fa_new ws) = {}"
proof -
  have "fa_is_used (fa_new ws) f" if "f div 64 < length ws" for f
    using that by (simp add: fa_is_used_bit fa_new_def)
  then show ?thesis by (auto simp: fa_free_frames_def fa_bits_def fa_new_def)
qed

lemma fa_inv_new: "64 * length ws < 2 ^ 64 \<Longrightarrow> fa_inv (length ws) (fa_new ws)"
  using fa_new_free[of ws] by (simp add: fa_inv_def) (simp add: fa_new_def u64_max_def)

lemma fa_step_inv:
  assumes "fa_inv n a"
  shows "fa_inv n (fa_step act a)"
proof (cases act)
  case (FaRelease start pages)
  then show ?thesis
    using fa_release_frames[OF assms, of start pages] by (cases "fa_release_region a start pages") auto
next
  case (FaReserve start pages)
  then show ?thesis
    using fa_reserve_frames[OF assms, of start pages] by (cases "fa_reserve_region a start pages") auto
next
  case FaAllocate
  then show ?thesis using fa_allocate_frames[OF assms] assms
    by (auto split: prod.splits option.splits)
next
  case (FaAllocateContiguous count)
  then show ?thesis using fa_contiguous_frames[OF assms, of count] assms
    by (auto split: prod.splits option.splits)
next
  case (FaFree p)
  then show ?thesis using fa_free_result[OF assms, of p] by (cases "fa_free a p") auto
qed

text \<open>The contract for every map whose frame count is a 64-bit value.\<close>

interpretation frame_alloc:
  transition_system "fa_new ws" fa_step "\<lambda>a. 64 * length ws < 2 ^ 64 \<longrightarrow> fa_inv (length ws) a"
  by unfold_locales (auto intro: fa_inv_new fa_step_inv)

section \<open>Properties\<close>

text \<open>C17: The free counter is exact. After any sequence of region releases and reservations
  (overlapping or not), allocations, contiguous allocations and frees, successful or not,
  \<open>free_count\<close> is the number of clear bits of the map and \<open>next_word\<close> stays in range.\<close>

theorem fa_count_exact:
  assumes "64 * length ws < 2 ^ 64"
  shows "fa_inv (length ws) (fold fa_step ops (fa_new ws))"
  using frame_alloc.inv_reach[of ws ops] assms by simp

theorem fa_count_exact_witness:
  "fa_inv (length [0::u64w, 0]) (fold fa_step [FaRelease 0 100, FaAllocate, FaAllocateContiguous 8, FaReserve 4096 3,
     FaFree 8192, FaFree 8192] (fa_new [0, 0]))"
  by (rule fa_count_exact) simp

text \<open>C36: \<open>allocate\<close> fails only when no frame is free; otherwise it returns the address of a
  free frame and takes exactly that frame, so no frame is ever handed out twice.\<close>

theorem fa_allocate_takes_free:
  assumes "fa_inv n a" "n \<le> 2 ^ 46"
  shows "case fa_allocate a of
      (None, a') \<Rightarrow> fa_free_frames a = {} \<and> a' = a
    | (Some p, a') \<Rightarrow> \<exists>f \<in> fa_free_frames a. p = f * 4096 \<and> fa_free_frames a' = fa_free_frames a - {f}"
proof -
  have "f * 4096 < 2 ^ 64" if "f \<in> fa_free_frames a" for f
    using that assms by (auto simp: fa_free_frames_def fa_bits_def fa_inv_def)
  then show ?thesis using fa_allocate_frames[OF assms(1)]
    by (auto simp: wrapping_mul_def PAGE_SIZE_def split: option.splits prod.splits)
qed

definition fa_sample :: frame_allocator where
  "fa_sample = snd (fa_release_region (fa_new [0]) 8192 3)"

lemma fa_sample_inv: "fa_inv 1 fa_sample" and fa_sample_free: "fa_free_frames fa_sample = {2, 3, 4}"
proof -
  have inv: "fa_inv 1 (fa_new [0])" using fa_inv_new[of "[0]"] by simp
  obtain r a' where c: "fa_release_region (fa_new [0]) 8192 3 = (r, a')" by fastforce
  have "{2..<5::nat} = {2, 3, 4}" by auto
  then show "fa_inv 1 fa_sample" "fa_free_frames fa_sample = {2, 3, 4}"
    using fa_release_frames[OF inv c] c
    by (simp_all add: fa_sample_def PAGE_SIZE_def saturating_add_def u64_max_def fa_new_free)
qed

theorem fa_allocate_takes_free_witness:
  "\<exists>p a'. fa_allocate fa_sample = (Some p, a') \<and> p \<in> {8192, 12288, 16384}
     \<and> card (fa_free_frames a') = 2"
proof -
  obtain r a' where c: "fa_allocate fa_sample = (r, a')" by fastforce
  have spec: "case r of None \<Rightarrow> False
      | Some p \<Rightarrow> \<exists>f \<in> {2, 3, 4}. p = f * 4096 \<and> fa_free_frames a' = {2, 3, 4} - {f}"
    using fa_allocate_takes_free[OF fa_sample_inv] c by (simp add: fa_sample_free split: option.splits)
  then obtain p where p: "r = Some p" by (cases r) simp_all
  from spec[unfolded p option.case] obtain f where
    f: "f \<in> {2, 3, 4}" "p = f * 4096" "fa_free_frames a' = {2, 3, 4} - {f}" by (elim bexE conjE)
  have "card (fa_free_frames a') = 2" unfolding f(3) using f(1) by (subst card_Diff_singleton) simp_all
  moreover have "p \<in> {8192, 12288, 16384}" using f(1) unfolding f(2) by (elim insertE) simp_all
  ultimately show ?thesis unfolding c p by (intro exI[of _ p] exI[of _ a']) simp
qed

text \<open>C38: \<open>allocate_contiguous\<close> returns the lowest run of the requested length and takes the
  whole run and nothing else; it fails only when the count is zero or no such run exists.\<close>

theorem fa_contiguous_lowest:
  assumes "fa_inv n a" "n \<le> 2 ^ 46" "count \<noteq> 0"
  shows "case fa_allocate_contiguous a count of
      (None, a') \<Rightarrow> (\<forall>s. \<not> {s..<s + count} \<subseteq> fa_free_frames a) \<and> a' = a
    | (Some p, a') \<Rightarrow> \<exists>s. p = s * 4096 \<and> {s..<s + count} \<subseteq> fa_free_frames a
        \<and> (\<forall>s'. {s'..<s' + count} \<subseteq> fa_free_frames a \<longrightarrow> s \<le> s')
        \<and> fa_free_frames a' = fa_free_frames a - {s..<s + count}"
proof -
  have "s * 4096 < 2 ^ 64" if "{s..<s + count} \<subseteq> fa_free_frames a" for s
  proof -
    have "s \<in> fa_free_frames a" using that assms(3) by auto
    then show ?thesis using assms by (auto simp: fa_free_frames_def fa_bits_def fa_inv_def)
  qed
  then show ?thesis using fa_contiguous_frames[OF assms(1), of count] assms(3)
    by (auto simp: wrapping_mul_def PAGE_SIZE_def split: option.splits prod.splits)
qed

theorem fa_contiguous_lowest_witness:
  "\<exists>a'. fa_allocate_contiguous fa_sample 2 = (Some 8192, a') \<and> fa_free_frames a' = {4}"
proof -
  have run: "{s..<s + 2} \<subseteq> {2, 3, 4} \<longleftrightarrow> s = 2 \<or> s = 3" for s :: nat
  proof -
    have "{s..<s + 2} = {s, s + 1}" by auto
    then show ?thesis
      by (simp only: insert_subset insert_iff empty_iff empty_subsetI) presburger
  qed
  obtain r a' where c: "fa_allocate_contiguous fa_sample 2 = (r, a')" by fastforce
  have spec: "case r of None \<Rightarrow> \<forall>s. \<not> (s = 2 \<or> s = (3::nat))
      | Some p \<Rightarrow> \<exists>s. p = s * 4096 \<and> (s = 2 \<or> s = 3) \<and> (\<forall>s'. s' = 2 \<or> s' = 3 \<longrightarrow> s \<le> s')
          \<and> fa_free_frames a' = {2, 3, 4} - {s..<s + 2}"
    using fa_contiguous_lowest[OF fa_sample_inv, of 2] c
    unfolding fa_sample_free run by (simp split: option.splits)
  then obtain p where p: "r = Some p" by (cases r) auto
  from spec[unfolded p option.case] obtain s where s: "p = s * 4096" "s = 2 \<or> s = 3"
    "\<forall>s'. s' = 2 \<or> s' = 3 \<longrightarrow> s \<le> s'" "fa_free_frames a' = {2, 3, 4} - {s..<s + 2}" by (elim exE conjE)
  have "s = 2" using s(2,3) by auto
  then have "p = 8192" "fa_free_frames a' = {4}" using s(1,4) by (simp_all add: insert_Diff_if)
  then show ?thesis using c p by simp
qed

text \<open>C37: \<open>free\<close> reports unaligned addresses, addresses beyond the map and double frees,
  each without changing anything; otherwise exactly the named frame becomes free.\<close>

theorem fa_free_spec:
  assumes "fa_inv n a" and "fa_free a p = (res, a')"
  shows "res = (if p mod 4096 \<noteq> 0 then Inl FreeUnaligned
      else if 64 * n \<le> p div 4096 then Inl FreeOutOfRange
      else if p div 4096 \<in> fa_free_frames a then Inl FreeAlreadyFree else Inr ())
    \<and> (\<forall>e. res = Inl e \<longrightarrow> a' = a)
    \<and> (res = Inr () \<longrightarrow> fa_free_frames a' = insert (p div 4096) (fa_free_frames a)
         \<and> fa_free_count a' = Suc (fa_free_count a))"
proof -
  note r = fa_free_result[OF assms, unfolded PAGE_SIZE_def]
  have "fa_free_count a' = Suc (fa_free_count a)" if "res = Inr ()"
    using r that assms(1) by (auto simp: fa_inv_def split: if_splits)
  then show ?thesis using r by simp
qed

theorem fa_free_spec_witness:
  "fst (fa_free fa_sample 8192) = Inl FreeAlreadyFree
   \<and> fa_free_frames (snd (fa_free fa_sample 4096)) = {1, 2, 3, 4}"
  using fa_free_spec[OF fa_sample_inv, of 8192 "fst (fa_free fa_sample 8192)" "snd (fa_free fa_sample 8192)"]
    fa_free_spec[OF fa_sample_inv, of 4096 "fst (fa_free fa_sample 4096)" "snd (fa_free fa_sample 4096)"]
  by (simp add: fa_sample_free)

end
