(* ===== verification/Readiness.thy ===== *)
theory Readiness
  imports Prelude
begin

text \<open>
  The readiness (epoll) tables of \<open>src/crates/readiness/src/lib.rs\<close>: instances addressed by
  generation-tagged handles, watches with level, edge and one-shot delivery, and event collection.
  Event masks, generations and handles are machine words of the source's width; owners are
  \<^typ>\<open>nat\<close>, descriptors \<^typ>\<open>int\<close>. The closures \<open>valid_target\<close> and \<open>readiness\<close> are function
  arguments of the model.
\<close>

unbundle bit_operations_syntax

section \<open>Model\<close>

definition EPOLLIN :: u32w where "EPOLLIN = 0x001"
definition EPOLLPRI :: u32w where "EPOLLPRI = 0x002"
definition EPOLLOUT :: u32w where "EPOLLOUT = 0x004"
definition EPOLLERR :: u32w where "EPOLLERR = 0x008"
definition EPOLLHUP :: u32w where "EPOLLHUP = 0x010"
definition EPOLLRDNORM :: u32w where "EPOLLRDNORM = 0x040"
definition EPOLLRDBAND :: u32w where "EPOLLRDBAND = 0x080"
definition EPOLLWRNORM :: u32w where "EPOLLWRNORM = 0x100"
definition EPOLLWRBAND :: u32w where "EPOLLWRBAND = 0x200"
definition EPOLLRDHUP :: u32w where "EPOLLRDHUP = 0x2000"
definition EPOLLEXCLUSIVE :: u32w where "EPOLLEXCLUSIVE = push_bit 28 1"
definition EPOLLWAKEUP :: u32w where "EPOLLWAKEUP = push_bit 29 1"
definition EPOLLONESHOT :: u32w where "EPOLLONESHOT = push_bit 30 1"
definition EPOLLET :: u32w where "EPOLLET = push_bit 31 1"

definition SUPPORTED_EVENTS :: u32w where
  "SUPPORTED_EVENTS = EPOLLIN OR EPOLLPRI OR EPOLLOUT OR EPOLLERR OR EPOLLHUP OR EPOLLRDNORM
     OR EPOLLRDBAND OR EPOLLWRNORM OR EPOLLWRBAND OR EPOLLRDHUP OR EPOLLONESHOT OR EPOLLET"

definition HANDLE_TAG :: u64w where "HANDLE_TAG = 0x40000000"
definition HANDLE_TAG_MASK :: u64w where "HANDLE_TAG_MASK = 0xf0000000"

datatype wait_source = WsAny | WsDescriptor nat | WsNetwork nat

fun ws_woken_by :: "wait_source \<Rightarrow> wait_source \<Rightarrow> bool" where
  "ws_woken_by WsAny event = True"
| "ws_woken_by s WsAny = True"
| "ws_woken_by s event = (s = event)"

record rd_event =
  ev_events :: u32w
  ev_reserved :: u32w
  ev_data :: u64w

datatype rd_control_op = CtlAdd | CtlDelete | CtlModify

datatype rd_error = RdFull | RdNotFound | RdExists | RdInvalid | RdPermission

record rd_watch =
  wa_used :: bool
  wa_target :: int
  wa_event :: rd_event
  wa_last_ready :: u32w
  wa_disabled :: bool

definition WATCH_EMPTY :: rd_watch where
  "WATCH_EMPTY = \<lparr>wa_used = False, wa_target = - 1,
     wa_event = \<lparr>ev_events = 0, ev_reserved = 0, ev_data = 0\<rparr>,
     wa_last_ready = 0, wa_disabled = False\<rparr>"

record rd_instance =
  in_used :: bool
  in_generation :: u16w
  in_owner :: nat
  in_close_on_exec :: bool
  in_watches :: "rd_watch list"

definition INSTANCE_EMPTY :: "nat \<Rightarrow> rd_instance" where
  "INSTANCE_EMPTY watches = \<lparr>in_used = False, in_generation = 0, in_owner = 0,
     in_close_on_exec = False, in_watches = replicate watches WATCH_EMPTY\<rparr>"

text \<open>The const generic \<open>WATCHES\<close> is a field, fixed at creation.\<close>

record rd_table =
  rt_instances :: "rd_instance list"
  rt_next_generation :: u16w
  rt_watches :: nat

definition rd_new :: "nat \<Rightarrow> nat \<Rightarrow> rd_table" where
  "rd_new instances watches =
     \<lparr>rt_instances = replicate instances (INSTANCE_EMPTY watches), rt_next_generation = 1,
      rt_watches = watches\<rparr>"

definition rd_encode :: "nat \<Rightarrow> u16w \<Rightarrow> u64w" where
  "rd_encode index generation =
     HANDLE_TAG OR push_bit 8 (ucast generation) OR (of_nat index + 1)"

definition rd_decode :: "u64w \<Rightarrow> (nat \<times> u16w) option" where
  "rd_decode handle =
     (if handle AND HANDLE_TAG_MASK \<noteq> HANDLE_TAG then None
      else case checked_sub (unat (handle AND 0xff)) 1 of
             None \<Rightarrow> None
           | Some index \<Rightarrow>
               (let generation = ucast (drop_bit 8 handle AND 0xffff) :: u16w
                in if generation \<noteq> 0 then Some (index, generation) else None))"

definition rd_resolve :: "rd_table \<Rightarrow> nat \<Rightarrow> u64w \<Rightarrow> nat option" where
  "rd_resolve t owner handle =
     (case rd_decode handle of
        None \<Rightarrow> None
      | Some (index, generation) \<Rightarrow>
          if index < length (rt_instances t)
             \<and> in_used (rt_instances t ! index) \<and> in_owner (rt_instances t ! index) = owner
             \<and> in_generation (rt_instances t ! index) = generation
          then Some index else None)"

definition rd_create :: "rd_table \<Rightarrow> nat \<Rightarrow> bool \<Rightarrow> (rd_error, u64w) result \<times> rd_table" where
  "rd_create t owner close_on_exec =
     (if owner = 0 then (Inl RdPermission, t)
      else case position (\<lambda>i. \<not> in_used i) (rt_instances t) of
             None \<Rightarrow> (Inl RdFull, t)
           | Some index \<Rightarrow>
               (let generation = max (rt_next_generation t) 1
                in (Inr (rd_encode index generation),
                    t\<lparr>rt_next_generation := max (generation + 1) 1,
                      rt_instances := (rt_instances t)[index :=
                        \<lparr>in_used = True, in_generation = generation, in_owner = owner,
                         in_close_on_exec = close_on_exec,
                         in_watches = replicate (rt_watches t) WATCH_EMPTY\<rparr>]\<rparr>)))"

definition rd_is_owned :: "rd_table \<Rightarrow> nat \<Rightarrow> u64w \<Rightarrow> bool" where
  "rd_is_owned t owner handle \<longleftrightarrow> rd_resolve t owner handle \<noteq> None"

definition rd_close :: "rd_table \<Rightarrow> nat \<Rightarrow> u64w \<Rightarrow> (rd_error, unit) result \<times> rd_table" where
  "rd_close t owner handle =
     (case rd_resolve t owner handle of
        None \<Rightarrow> (Inl RdNotFound, t)
      | Some index \<Rightarrow>
          (Inr (), t\<lparr>rt_instances := (rt_instances t)[index := INSTANCE_EMPTY (rt_watches t)]\<rparr>))"

definition rd_close_owner :: "rd_table \<Rightarrow> nat \<Rightarrow> nat \<times> rd_table" where
  "rd_close_owner t owner =
     (count_if (\<lambda>i. in_used i \<and> in_owner i = owner) (rt_instances t),
      t\<lparr>rt_instances := map (\<lambda>i. if in_used i \<and> in_owner i = owner
           then INSTANCE_EMPTY (rt_watches t) else i) (rt_instances t)\<rparr>)"

definition wa_matches :: "int \<Rightarrow> rd_watch \<Rightarrow> bool" where
  "wa_matches target w \<longleftrightarrow> wa_used w \<and> wa_target w = target"

definition rd_remove_target :: "rd_table \<Rightarrow> nat \<Rightarrow> int \<Rightarrow> nat \<times> rd_table" where
  "rd_remove_target t owner target =
     (sum_list (map (\<lambda>i. if \<not> in_used i \<or> in_owner i \<noteq> owner then 0
         else count_if (wa_matches target) (in_watches i)) (rt_instances t)),
      t\<lparr>rt_instances := map (\<lambda>i. if \<not> in_used i \<or> in_owner i \<noteq> owner then i
         else i\<lparr>in_watches := map (\<lambda>w. if wa_matches target w then WATCH_EMPTY else w)
                               (in_watches i)\<rparr>) (rt_instances t)\<rparr>)"

definition rd_close_on_exec :: "rd_table \<Rightarrow> nat \<Rightarrow> u64w \<Rightarrow> (rd_error, bool) result" where
  "rd_close_on_exec t owner handle =
     (case rd_resolve t owner handle of
        None \<Rightarrow> Inl RdNotFound
      | Some index \<Rightarrow> Inr (in_close_on_exec (rt_instances t ! index)))"

definition rd_validate_event :: "rd_event \<Rightarrow> (rd_error, rd_event) result" where
  "rd_validate_event event =
     (if ev_events event = 0 \<or> ev_events event AND NOT SUPPORTED_EVENTS \<noteq> 0
         \<or> ev_events event AND (EPOLLEXCLUSIVE OR EPOLLWAKEUP) \<noteq> 0
      then Inl RdInvalid else Inr (event\<lparr>ev_reserved := 0\<rparr>))"

text \<open>The watch-array part of \<open>control\<close>, once the instance is resolved.\<close>

definition rd_control_watches ::
  "rd_watch list \<Rightarrow> rd_control_op \<Rightarrow> int \<Rightarrow> rd_event option \<Rightarrow> (rd_error, rd_watch list) result" where
  "rd_control_watches ws operation target event =
     (let found = position (wa_matches target) ws
      in case operation of
           CtlAdd \<Rightarrow>
             (if found \<noteq> None then Inl RdExists
              else case event of
                     None \<Rightarrow> Inl RdInvalid
                   | Some e \<Rightarrow>
                       (case rd_validate_event e of
                          Inl err \<Rightarrow> Inl err
                        | Inr e' \<Rightarrow>
                            (case position (\<lambda>w. \<not> wa_used w) ws of
                               None \<Rightarrow> Inl RdFull
                             | Some slot \<Rightarrow>
                                 Inr (ws[slot := \<lparr>wa_used = True, wa_target = target, wa_event = e',
                                                  wa_last_ready = 0, wa_disabled = False\<rparr>]))))
         | CtlDelete \<Rightarrow>
             (case found of
                None \<Rightarrow> Inl RdNotFound
              | Some slot \<Rightarrow> Inr (ws[slot := WATCH_EMPTY]))
         | CtlModify \<Rightarrow>
             (case found of
                None \<Rightarrow> Inl RdNotFound
              | Some slot \<Rightarrow>
                  (case event of
                     None \<Rightarrow> Inl RdInvalid
                   | Some e \<Rightarrow>
                       (case rd_validate_event e of
                          Inl err \<Rightarrow> Inl err
                        | Inr e' \<Rightarrow>
                            Inr (ws[slot := (ws ! slot)\<lparr>wa_event := e', wa_last_ready := 0,
                                                        wa_disabled := False\<rparr>])))))"

definition rd_control ::
  "rd_table \<Rightarrow> nat \<Rightarrow> u64w \<Rightarrow> rd_control_op \<Rightarrow> int \<Rightarrow> rd_event option \<Rightarrow> (int \<Rightarrow> bool)
   \<Rightarrow> (rd_error, unit) result \<times> rd_table" where
  "rd_control t owner handle operation target event valid_target =
     (if target < 0 \<or> rd_is_owned t owner (word_of_int target) \<or> \<not> valid_target target
      then (Inl RdInvalid, t)
      else case rd_resolve t owner handle of
             None \<Rightarrow> (Inl RdNotFound, t)
           | Some index \<Rightarrow>
               (let inst = rt_instances t ! index
                in case rd_control_watches (in_watches inst) operation target event of
                     Inl err \<Rightarrow> (Inl err, t)
                   | Inr ws \<Rightarrow>
                       (Inr (), t\<lparr>rt_instances := (rt_instances t)[index := inst\<lparr>in_watches := ws\<rparr>]\<rparr>)))"

text \<open>What one watch delivers: the ready bits and the bits to report.\<close>

definition wa_interest :: "rd_watch \<Rightarrow> u32w" where
  "wa_interest w = ev_events (wa_event w) AND NOT (EPOLLONESHOT OR EPOLLET)"

definition wa_ready :: "(int \<Rightarrow> u32w \<Rightarrow> u32w) \<Rightarrow> rd_watch \<Rightarrow> u32w" where
  "wa_ready readiness w =
     readiness (wa_target w) (wa_interest w)
       AND (wa_interest w OR EPOLLERR OR EPOLLHUP OR EPOLLRDHUP)"

definition wa_deliver :: "(int \<Rightarrow> u32w \<Rightarrow> u32w) \<Rightarrow> rd_watch \<Rightarrow> u32w" where
  "wa_deliver readiness w =
     (if ev_events (wa_event w) AND EPOLLET \<noteq> 0
      then wa_ready readiness w AND NOT (wa_last_ready w)
      else wa_ready readiness w)"

text \<open>The loop of \<open>collect\<close> with \<open>space\<close> output slots left (never 0 when entered).\<close>

fun rd_collect_loop ::
  "(int \<Rightarrow> u32w \<Rightarrow> u32w) \<Rightarrow> nat \<Rightarrow> rd_watch list \<Rightarrow> rd_event list \<times> rd_watch list" where
  "rd_collect_loop readiness space [] = ([], [])"
| "rd_collect_loop readiness space (w # ws) =
     (if \<not> wa_used w \<or> wa_disabled w then
        (let (out, ws') = rd_collect_loop readiness space ws in (out, w # ws'))
      else
        (let deliver = wa_deliver readiness w;
             w1 = w\<lparr>wa_last_ready := wa_ready readiness w\<rparr>
         in if deliver = 0 then
              (let (out, ws') = rd_collect_loop readiness space ws in (out, w1 # ws'))
            else
              (let e = \<lparr>ev_events = deliver, ev_reserved = 0, ev_data = ev_data (wa_event w)\<rparr>;
                   w2 = (if ev_events (wa_event w) AND EPOLLONESHOT \<noteq> 0
                         then w1\<lparr>wa_disabled := True\<rparr> else w1)
               in if space = 1 then ([e], w2 # ws)
                  else (let (out, ws') = rd_collect_loop readiness (space - 1) ws
                        in (e # out, w2 # ws')))))"

definition rd_collect ::
  "rd_table \<Rightarrow> nat \<Rightarrow> u64w \<Rightarrow> nat \<Rightarrow> (int \<Rightarrow> u32w \<Rightarrow> u32w)
   \<Rightarrow> (rd_error, rd_event list) result \<times> rd_table" where
  "rd_collect t owner handle output_len readiness =
     (if output_len = 0 then (Inl RdInvalid, t)
      else case rd_resolve t owner handle of
             None \<Rightarrow> (Inl RdNotFound, t)
           | Some index \<Rightarrow>
               (let inst = rt_instances t ! index;
                    (out, ws) = rd_collect_loop readiness output_len (in_watches inst)
                in (Inr out, t\<lparr>rt_instances := (rt_instances t)[index := inst\<lparr>in_watches := ws\<rparr>]\<rparr>)))"

section \<open>Handles\<close>

lemma small_bits: "bit (of_nat k :: 'a::len word) n \<Longrightarrow> k < 2 ^ m \<Longrightarrow> n < m"
proof (rule ccontr)
  assume b: "bit (of_nat k :: 'a word) n" and k: "k < 2 ^ m" and "\<not> n < m"
  then have "k < 2 ^ n" by (meson not_less order_less_le_trans power_increasing_iff one_less_numeral_iff
        semiring_norm(76))
  then have "\<not> bit k n" by (simp add: bit_iff_odd)
  with b show False by (simp add: bit_of_nat_iff)
qed

lemma tag_bits: "HANDLE_TAG = push_bit 30 1" "HANDLE_TAG_MASK = push_bit 28 (mask 4)"
  by (simp_all add: HANDLE_TAG_def HANDLE_TAG_MASK_def mask_eq_exp_minus_1 push_bit_eq_mult)

lemma bit_tag:
  "bit HANDLE_TAG n \<longleftrightarrow> n = 30" "bit HANDLE_TAG_MASK n \<longleftrightarrow> 28 \<le> n \<and> n < 32"
  unfolding tag_bits bit_push_bit_iff bit_1_iff bit_mask_iff by auto

lemma bit_encode:
  assumes "index < 255"
  shows "bit (rd_encode index generation) n \<longleftrightarrow>
    n = 30 \<or> (8 \<le> n \<and> bit generation (n - 8)) \<or> (n < 8 \<and> bit (of_nat (Suc index) :: u64w) n)"
proof -
  have "bit (of_nat (Suc index) :: u64w) n \<Longrightarrow> n < 8" using small_bits[of "Suc index" n 8] assms by simp
  moreover have "bit generation (n - 8) \<Longrightarrow> n < 24"
    using bit_imp_le_length[of generation "n - 8"] by simp
  moreover have "of_nat index + 1 = (of_nat (Suc index) :: u64w)" by simp
  ultimately show ?thesis unfolding rd_encode_def
    by (auto simp: bit_or_iff bit_push_bit_iff bit_tag bit_unsigned_iff simp del: of_nat_Suc)
qed

lemma rd_decode_encode:
  assumes "index < 255" "generation \<noteq> 0"
  shows "rd_decode (rd_encode index generation) = Some (index, generation)"
proof -
  let ?h = "rd_encode index generation"
  have gen: "bit generation m \<Longrightarrow> m < 16" for m
    using bit_imp_le_length[of generation m] by simp
  have 1: "?h AND HANDLE_TAG_MASK = HANDLE_TAG"
  proof (rule bit_eqI)
    fix n
    show "bit (?h AND HANDLE_TAG_MASK) n = bit HANDLE_TAG n"
      unfolding bit_and_iff bit_encode[OF assms(1)] bit_tag using gen[of "n - 8"] by auto
  qed
  have ff: "(0xff :: u64w) = mask 8" "(0xffff :: u64w) = mask 16"
    by (simp_all add: mask_eq_exp_minus_1)
  have "?h AND 0xff = of_nat (Suc index)"
  proof (rule bit_eqI)
    fix n
    have "bit (of_nat (Suc index) :: u64w) n \<Longrightarrow> n < 8" using small_bits[of "Suc index" n 8] assms by simp
    then show "bit (?h AND 0xff) n = bit (of_nat (Suc index) :: u64w) n"
      unfolding bit_and_iff bit_encode[OF assms(1)] ff by (auto simp: bit_mask_iff)
  qed
  then have 2: "unat (?h AND 0xff) = Suc index" using assms(1) by (simp add: unat_of_nat del: of_nat_Suc)
  have 3: "(ucast (drop_bit 8 ?h AND 0xffff) :: u16w) = generation"
  proof (rule bit_word_eqI)
    fix n
    assume "n < LENGTH(16)"
    then show "bit (ucast (drop_bit 8 ?h AND 0xffff) :: u16w) n = bit generation n"
      unfolding ff by (auto simp: bit_unsigned_iff bit_and_iff bit_drop_bit_eq bit_mask_iff
          bit_encode[OF assms(1)])
  qed
  show ?thesis using 1 2 3 assms(2) by (simp add: rd_decode_def Let_def checked_sub_def)
qed

section \<open>Invariant\<close>

definition watches_ok :: "rd_watch list \<Rightarrow> bool" where
  "watches_ok ws \<longleftrightarrow>
     (\<forall>i < length ws. wa_used (ws ! i) \<longrightarrow> 0 \<le> wa_target (ws ! i)
        \<and> ev_events (wa_event (ws ! i)) \<noteq> 0
        \<and> ev_events (wa_event (ws ! i)) AND NOT SUPPORTED_EVENTS = 0)
     \<and> (\<forall>i < length ws. \<forall>j < length ws. wa_used (ws ! i) \<and> wa_used (ws ! j)
        \<and> wa_target (ws ! i) = wa_target (ws ! j) \<longrightarrow> i = j)"

definition in_ok :: "nat \<Rightarrow> rd_instance \<Rightarrow> bool" where
  "in_ok watches i \<longleftrightarrow> length (in_watches i) = watches
     \<and> (in_used i \<longrightarrow> in_generation i \<noteq> 0 \<and> in_owner i \<noteq> 0) \<and> watches_ok (in_watches i)"

definition rd_inv :: "nat \<Rightarrow> rd_table \<Rightarrow> bool" where
  "rd_inv n t \<longleftrightarrow> length (rt_instances t) = n \<and> rt_next_generation t \<noteq> 0
     \<and> list_all (in_ok (rt_watches t)) (rt_instances t)"

lemma WATCH_EMPTY_simps [simp]: "\<not> wa_used WATCH_EMPTY" "\<not> wa_matches x WATCH_EMPTY"
  by (simp_all add: WATCH_EMPTY_def wa_matches_def)

lemma INSTANCE_EMPTY_simps [simp]: "\<not> in_used (INSTANCE_EMPTY w)" "in_ok w (INSTANCE_EMPTY w)"
  by (simp_all add: INSTANCE_EMPTY_def in_ok_def watches_ok_def)

lemma max_one_word: "max g 1 = (if g = 0 then 1 else g)" for g :: "'a::len word"
proof -
  have "g = 0 \<or> 1 \<le> g" by (cases "g = 0") (auto simp: word_le_nat_alt Suc_le_eq unat_gt_0)
  then show ?thesis by (auto simp: max_def)
qed

lemma rd_resolve_SomeD:
  "rd_resolve t owner h = Some i \<Longrightarrow>
   i < length (rt_instances t) \<and> in_used (rt_instances t ! i) \<and> in_owner (rt_instances t ! i) = owner
   \<and> rd_decode h = Some (i, in_generation (rt_instances t ! i))"
  by (auto simp: rd_resolve_def split: option.splits prod.splits if_splits)

text \<open>Collection keeps which descriptors are watched and for what.\<close>

lemma rd_collect_loop_keeps:
  "rd_collect_loop rf space ws = (out, ws') \<Longrightarrow>
   list_all2 (\<lambda>w w'. wa_used w' = wa_used w \<and> wa_target w' = wa_target w \<and> wa_event w' = wa_event w) ws ws'"
proof (induction ws arbitrary: space out ws')
  case (Cons w ws)
  obtain o1 w1 where 1: "rd_collect_loop rf space ws = (o1, w1)" by fastforce
  obtain o2 w2 where 2: "rd_collect_loop rf (space - 1) ws = (o2, w2)" by fastforce
  show ?case using Cons.prems Cons.IH[OF 1] Cons.IH[OF 2]
    by (auto simp: 1 2 [simplified] Let_def list_all2_same split: if_splits)
qed simp

lemma watches_ok_keeps:
  assumes "watches_ok ws"
    and "list_all2 (\<lambda>w w'. wa_used w' = wa_used w \<and> wa_target w' = wa_target w \<and> wa_event w' = wa_event w) ws ws'"
  shows "watches_ok ws'" "length ws' = length ws"
  using assms by (auto simp: watches_ok_def list_all2_conv_all_nth)

lemma rd_validate_ok:
  "rd_validate_event e = Inr e' \<Longrightarrow> ev_events e' \<noteq> 0 \<and> ev_events e' AND NOT SUPPORTED_EVENTS = 0"
  by (auto simp: rd_validate_event_def split: if_splits)

lemma watches_ok_upd:
  assumes "watches_ok ws" "k < length ws"
    and "wa_used r \<Longrightarrow> 0 \<le> wa_target r \<and> ev_events (wa_event r) \<noteq> 0
      \<and> ev_events (wa_event r) AND NOT SUPPORTED_EVENTS = 0"
    and "\<And>j. wa_used r \<Longrightarrow> j < length ws \<Longrightarrow> j \<noteq> k \<Longrightarrow> wa_used (ws ! j) \<Longrightarrow> wa_target (ws ! j) \<noteq> wa_target r"
  shows "watches_ok (ws[k := r])"
  unfolding watches_ok_def length_list_update
proof (intro conjI allI impI)
  fix i assume "i < length ws" "wa_used (ws[k := r] ! i)"
  then show "0 \<le> wa_target (ws[k := r] ! i)" "ev_events (wa_event (ws[k := r] ! i)) \<noteq> 0"
    "ev_events (wa_event (ws[k := r] ! i)) AND NOT SUPPORTED_EVENTS = 0"
    using assms(1,2,3) by (cases "i = k"; simp add: watches_ok_def)+
next
  fix i j
  assume "i < length ws" "j < length ws"
    "wa_used (ws[k := r] ! i) \<and> wa_used (ws[k := r] ! j) \<and> wa_target (ws[k := r] ! i) = wa_target (ws[k := r] ! j)"
  then show "i = j"
    using assms(1,2) assms(4)[of i] assms(4)[of j]
    by (cases "i = k"; cases "j = k") (auto simp: watches_ok_def)
qed

lemma rd_control_watches_ok:
  assumes "watches_ok ws" "0 \<le> target" "rd_control_watches ws op target event = Inr ws'"
  shows "watches_ok ws' \<and> length ws' = length ws"
proof (cases op)
  case CtlAdd
  with assms(3) obtain e e' slot where
    c: "position (wa_matches target) ws = None" "rd_validate_event e = Inr e'"
       "position (\<lambda>w. \<not> wa_used w) ws = Some slot"
       "ws' = ws[slot := \<lparr>wa_used = True, wa_target = target, wa_event = e',
                         wa_last_ready = 0, wa_disabled = False\<rparr>]"
    by (auto simp: rd_control_watches_def Let_def split: option.splits sum.splits if_splits)
  have "wa_used (ws ! i) \<Longrightarrow> wa_target (ws ! i) \<noteq> target" if "i < length ws" for i
    using c(1) that nth_mem[OF that] unfolding position_None_iff wa_matches_def by blast
  then show ?thesis using assms(2) rd_validate_ok[OF c(2)] position_SomeD[OF c(3)]
    unfolding c(4) by (simp add: watches_ok_upd[OF assms(1)])
next
  case CtlDelete
  with assms(3) obtain slot where "position (wa_matches target) ws = Some slot" "ws' = ws[slot := WATCH_EMPTY]"
    by (auto simp: rd_control_watches_def Let_def split: option.splits)
  then show ?thesis by (auto intro!: watches_ok_upd[OF assms(1)])
next
  case CtlModify
  with assms(3) obtain e e' slot where
    c: "position (wa_matches target) ws = Some slot" "rd_validate_event e = Inr e'"
       "ws' = ws[slot := (ws ! slot)\<lparr>wa_event := e', wa_last_ready := 0, wa_disabled := False\<rparr>]"
    by (auto simp: rd_control_watches_def Let_def split: option.splits sum.splits)
  have slot: "slot < length ws" "wa_used (ws ! slot)" "wa_target (ws ! slot) = target"
    using position_SomeD[OF c(1)] by (auto simp: wa_matches_def)
  have "watches_ok ws'" unfolding c(3)
  proof (rule watches_ok_upd[OF assms(1) slot(1)])
    fix j assume "j < length ws" "j \<noteq> slot" "wa_used (ws ! j)"
    then show "wa_target (ws ! j) \<noteq>
        wa_target ((ws ! slot)\<lparr>wa_event := e', wa_last_ready := 0, wa_disabled := False\<rparr>)"
      using assms(1) slot unfolding watches_ok_def by (metis rd_watch.select_convs(2) rd_watch.surjective
          rd_watch.update_convs(3,4,5))
  qed (use assms(2) rd_validate_ok[OF c(2)] slot in auto)
  then show ?thesis using c(3) by simp
qed

section \<open>The operations as a system\<close>

datatype rd_op =
    RdCreate nat bool
  | RdClose nat u64w
  | RdCloseOwner nat
  | RdRemoveTarget nat int
  | RdControl nat u64w rd_control_op int "rd_event option" "int \<Rightarrow> bool"
  | RdCollect nat u64w nat "int \<Rightarrow> u32w \<Rightarrow> u32w"

fun rd_step :: "rd_op \<Rightarrow> rd_table \<Rightarrow> rd_table" where
  "rd_step (RdCreate owner cloexec) t = snd (rd_create t owner cloexec)"
| "rd_step (RdClose owner h) t = snd (rd_close t owner h)"
| "rd_step (RdCloseOwner owner) t = snd (rd_close_owner t owner)"
| "rd_step (RdRemoveTarget owner target) t = snd (rd_remove_target t owner target)"
| "rd_step (RdControl owner h c target event valid) t =
     snd (rd_control t owner h c target event valid)"
| "rd_step (RdCollect owner h n rf) t = snd (rd_collect t owner h n rf)"

text \<open>How each operation changes one slot: identity, fresh instance, emptied, or new watches.\<close>

definition in_moves :: "nat \<Rightarrow> u16w \<Rightarrow> rd_instance \<Rightarrow> rd_instance \<Rightarrow> bool" where
  "in_moves watches fresh i i' \<longleftrightarrow>
     i' = i \<or> i' = INSTANCE_EMPTY watches
     \<or> (\<exists>ws. i' = i\<lparr>in_watches := ws\<rparr> \<and> (in_ok watches i \<longrightarrow> length ws = watches \<and> watches_ok ws))
     \<or> (\<not> in_used i \<and> (\<exists>owner c. owner \<noteq> 0 \<and> i' = \<lparr>in_used = True, in_generation = fresh,
          in_owner = owner, in_close_on_exec = c, in_watches = replicate watches WATCH_EMPTY\<rparr>))"

lemma in_moves_refl [simp]: "in_moves w g i i" and in_moves_EMPTY [simp]: "in_moves w g i (INSTANCE_EMPTY w)"
  by (simp_all add: in_moves_def)

lemma in_moves_ok: "in_moves w g i i' \<Longrightarrow> in_ok w i \<Longrightarrow> g \<noteq> 0 \<Longrightarrow> in_ok w i'"
proof -
  assume m: "in_moves w g i i'" and ok: "in_ok w i" and g: "g \<noteq> 0"
  have "watches_ok (replicate w WATCH_EMPTY)" by (simp add: watches_ok_def)
  then show ?thesis using m ok g unfolding in_moves_def
    by (elim disjE exE conjE) (simp_all add: in_ok_def [of w "i\<lparr>in_watches := _\<rparr>"]
        in_ok_def [of w "\<lparr>in_used = _, in_generation = _, in_owner = _, in_close_on_exec = _, in_watches = _\<rparr>"],
        simp add: in_ok_def)
qed

lemma watches_ok_map_empty:
  assumes "watches_ok ws"
  shows "watches_ok (map (\<lambda>w. if P w then WATCH_EMPTY else w) ws)"
  unfolding watches_ok_def length_map
proof (intro conjI allI impI)
  fix i assume "i < length ws" "wa_used (map (\<lambda>w. if P w then WATCH_EMPTY else w) ws ! i)"
  then show "0 \<le> wa_target (map (\<lambda>w. if P w then WATCH_EMPTY else w) ws ! i)"
    "ev_events (wa_event (map (\<lambda>w. if P w then WATCH_EMPTY else w) ws ! i)) \<noteq> 0"
    "ev_events (wa_event (map (\<lambda>w. if P w then WATCH_EMPTY else w) ws ! i)) AND NOT SUPPORTED_EVENTS = 0"
    using assms by (cases "P (ws ! i)"; simp add: watches_ok_def)+
next
  fix i j
  assume "i < length ws" "j < length ws"
    "wa_used (map (\<lambda>w. if P w then WATCH_EMPTY else w) ws ! i)
     \<and> wa_used (map (\<lambda>w. if P w then WATCH_EMPTY else w) ws ! j)
     \<and> wa_target (map (\<lambda>w. if P w then WATCH_EMPTY else w) ws ! i)
       = wa_target (map (\<lambda>w. if P w then WATCH_EMPTY else w) ws ! j)"
  then show "i = j" using assms by (cases "P (ws ! i)"; cases "P (ws ! j)") (auto simp: watches_ok_def)
qed

lemma list_all2_update_one:
  "(\<And>x. R x x) \<Longrightarrow> k < length xs \<Longrightarrow> R (xs ! k) y \<Longrightarrow> list_all2 R xs (xs[k := y])"
  by (auto simp: list_all2_conv_all_nth nth_upd)

definition is_create :: "rd_op \<Rightarrow> bool" where
  "is_create a \<longleftrightarrow> (case a of RdCreate _ _ \<Rightarrow> True | _ \<Rightarrow> False)"

lemma rd_step_moves:
  fixes a :: rd_op
  assumes gen: "rt_next_generation t \<noteq> 0"
  defines "t' \<equiv> rd_step a t"
  shows "list_all2 (in_moves (rt_watches t) (rt_next_generation t)) (rt_instances t) (rt_instances t')"
    and "rt_watches t' = rt_watches t"
    and "rt_next_generation t' = rt_next_generation t
      \<or> is_create a \<and> rt_next_generation t' = max (rt_next_generation t + 1) 1"
    and "\<not> is_create a \<Longrightarrow> \<forall>i < length (rt_instances t). in_used (rt_instances t' ! i) \<longrightarrow>
       in_used (rt_instances t ! i) \<and> in_generation (rt_instances t' ! i) = in_generation (rt_instances t ! i)"
proof -
  have refl: "list_all2 (in_moves (rt_watches t) (rt_next_generation t)) (rt_instances t) (rt_instances t)"
    by (simp add: list_all2_same)
  note one = list_all2_update_one[of "in_moves (rt_watches t) (rt_next_generation t)", OF in_moves_refl]
  have "list_all2 (in_moves (rt_watches t) (rt_next_generation t)) (rt_instances t) (rt_instances t')
    \<and> rt_watches t' = rt_watches t
    \<and> (rt_next_generation t' = rt_next_generation t
        \<or> is_create a \<and> rt_next_generation t' = max (rt_next_generation t + 1) 1)
    \<and> (\<not> is_create a \<longrightarrow> (\<forall>i < length (rt_instances t). in_used (rt_instances t' ! i) \<longrightarrow>
       in_used (rt_instances t ! i) \<and> in_generation (rt_instances t' ! i) = in_generation (rt_instances t ! i)))"
  proof (cases a)
    case (RdCreate owner c)
    show ?thesis
    proof (cases "owner = 0 \<or> position (\<lambda>i. \<not> in_used i) (rt_instances t) = None")
      case True
      then show ?thesis using RdCreate refl by (auto simp: t'_def rd_create_def is_create_def)
    next
      case False
      then obtain k where k: "position (\<lambda>i. \<not> in_used i) (rt_instances t) = Some k" by auto
      from position_SomeD[OF k] False show ?thesis using RdCreate k gen
        by (auto simp: t'_def rd_create_def is_create_def Let_def max_one_word in_moves_def intro!: one)
    qed
  next
    case (RdClose owner h)
    then show ?thesis using refl
      by (auto simp: t'_def rd_close_def is_create_def nth_upd dest!: rd_resolve_SomeD intro!: one
          split: option.splits)
  next
    case (RdCloseOwner owner)
    then show ?thesis
      by (auto simp: t'_def rd_close_owner_def is_create_def list_all2_map2 list_all2_same)
  next
    case (RdRemoveTarget owner target)
    have "in_moves (rt_watches t) (rt_next_generation t) i
        (i\<lparr>in_watches := map (\<lambda>w. if wa_matches target w then WATCH_EMPTY else w) (in_watches i)\<rparr>)" for i
      unfolding in_moves_def in_ok_def by (intro disjI2 disjI1) (auto intro!: watches_ok_map_empty)
    then show ?thesis using RdRemoveTarget
      by (auto simp: t'_def rd_remove_target_def is_create_def list_all2_map2 list_all2_same)
  next
    case (RdControl owner h c target event valid)
    show ?thesis
    proof (cases "fst (rd_control t owner h c target event valid)")
      case (Inl e)
      then have "t' = t" using RdControl
        by (auto simp: t'_def rd_control_def Let_def split: option.splits sum.splits if_splits)
      then show ?thesis using refl RdControl by (simp add: is_create_def)
    next
      case (Inr u)
      then obtain k ws where k: "rd_resolve t owner h = Some k" "0 \<le> target"
        "rd_control_watches (in_watches (rt_instances t ! k)) c target event = Inr ws"
        "t' = t\<lparr>rt_instances := (rt_instances t)[k := (rt_instances t ! k)\<lparr>in_watches := ws\<rparr>]\<rparr>"
        using RdControl
        by (auto simp: t'_def rd_control_def Let_def split: option.splits sum.splits if_splits)
      have "in_moves (rt_watches t) (rt_next_generation t) (rt_instances t ! k)
          ((rt_instances t ! k)\<lparr>in_watches := ws\<rparr>)"
        unfolding in_moves_def in_ok_def using rd_control_watches_ok[OF _ k(2,3)] by auto
      then show ?thesis using rd_resolve_SomeD[OF k(1)] RdControl unfolding k(4)
        by (auto simp: is_create_def nth_upd intro!: one)
    qed
  next
    case (RdCollect owner h n rf)
    show ?thesis
    proof (cases "n = 0 \<or> rd_resolve t owner h = None")
      case True
      then have "t' = t" using RdCollect by (auto simp: t'_def rd_collect_def)
      then show ?thesis using refl RdCollect by (simp add: is_create_def)
    next
      case False
      then obtain k where k: "rd_resolve t owner h = Some k" by auto
      obtain out ws where ws: "rd_collect_loop rf n (in_watches (rt_instances t ! k)) = (out, ws)"
        by fastforce
      have t': "t' = t\<lparr>rt_instances := (rt_instances t)[k := (rt_instances t ! k)\<lparr>in_watches := ws\<rparr>]\<rparr>"
        using False k ws RdCollect by (simp add: t'_def rd_collect_def Let_def)
      have "in_moves (rt_watches t) (rt_next_generation t) (rt_instances t ! k)
          ((rt_instances t ! k)\<lparr>in_watches := ws\<rparr>)"
        unfolding in_moves_def in_ok_def using watches_ok_keeps[OF _ rd_collect_loop_keeps[OF ws]] by auto
      then show ?thesis using rd_resolve_SomeD[OF k] RdCollect unfolding t'
        by (auto simp: is_create_def nth_upd intro!: one)
    qed
  qed
  then show "list_all2 (in_moves (rt_watches t) (rt_next_generation t)) (rt_instances t) (rt_instances t')"
    and "rt_watches t' = rt_watches t"
    and "rt_next_generation t' = rt_next_generation t
      \<or> is_create a \<and> rt_next_generation t' = max (rt_next_generation t + 1) 1"
    and "\<not> is_create a \<Longrightarrow> \<forall>i < length (rt_instances t). in_used (rt_instances t' ! i) \<longrightarrow>
       in_used (rt_instances t ! i) \<and> in_generation (rt_instances t' ! i) = in_generation (rt_instances t ! i)"
    by blast+
qed

lemma rd_step_inv: "rd_inv n t \<Longrightarrow> rd_inv n (rd_step a t)"
proof -
  assume inv: "rd_inv n t"
  then have gen: "rt_next_generation t \<noteq> 0" by (simp add: rd_inv_def)
  note m = rd_step_moves[OF gen, of a]
  have "rt_next_generation (rd_step a t) \<noteq> 0" using m(3) gen by (auto simp: max_one_word split: if_splits)
  moreover have "list_all (in_ok (rt_watches t)) (rt_instances (rd_step a t))"
    unfolding list_all_length
  proof (intro allI impI)
    fix k assume "k < length (rt_instances (rd_step a t))"
    then have k: "k < length (rt_instances t)" using list_all2_lengthD[OF m(1)] by simp
    show "in_ok (rt_watches t) (rt_instances (rd_step a t) ! k)"
      using in_moves_ok[OF list_all2_nthD[OF m(1) k] _ gen] inv k by (simp add: rd_inv_def list_all_length)
  qed
  ultimately show ?thesis using inv m(2) list_all2_lengthD[OF m(1)] by (simp add: rd_inv_def)
qed

lemma rd_new_inv: "rd_inv n (rd_new n w)"
  by (simp add: rd_inv_def rd_new_def list_all_iff)

interpretation readiness: transition_system "rd_new n w" rd_step "rd_inv n"
  by unfold_locales (auto intro: rd_new_inv rd_step_inv)

section \<open>Collection\<close>

definition wa_fires :: "(int \<Rightarrow> u32w \<Rightarrow> u32w) \<Rightarrow> rd_watch \<Rightarrow> bool" where
  "wa_fires rf w \<longleftrightarrow> wa_used w \<and> \<not> wa_disabled w \<and> wa_deliver rf w \<noteq> 0"

definition wa_report :: "(int \<Rightarrow> u32w \<Rightarrow> u32w) \<Rightarrow> rd_watch \<Rightarrow> rd_event" where
  "wa_report rf w = \<lparr>ev_events = wa_deliver rf w, ev_reserved = 0, ev_data = ev_data (wa_event w)\<rparr>"

definition wa_edge :: "rd_watch \<Rightarrow> bool" where
  "wa_edge w \<longleftrightarrow> ev_events (wa_event w) AND EPOLLET \<noteq> 0"

definition wa_oneshot :: "rd_watch \<Rightarrow> bool" where
  "wa_oneshot w \<longleftrightarrow> ev_events (wa_event w) AND EPOLLONESHOT \<noteq> 0"

definition wa_after :: "(int \<Rightarrow> u32w \<Rightarrow> u32w) \<Rightarrow> rd_watch \<Rightarrow> rd_watch" where
  "wa_after rf w =
     (if \<not> wa_used w \<or> wa_disabled w then w
      else w\<lparr>wa_last_ready := wa_ready rf w, wa_disabled := wa_oneshot w \<and> wa_fires rf w\<rparr>)"

text \<open>
  With \<open>space\<close> output slots the loop reports the first \<open>space\<close> firing watches and stops after
  the last of them: \<open>k\<close> watches are visited and updated, the others are untouched.
\<close>

lemma rd_collect_loop_take:
  "space \<noteq> 0 \<Longrightarrow> \<exists>k \<le> length ws. filter (wa_fires rf) (take k ws) = take space (filter (wa_fires rf) ws)
     \<and> rd_collect_loop rf space ws = (map (wa_report rf) (take space (filter (wa_fires rf) ws)), map (wa_after rf) (take k ws) @ drop k ws)"
proof (induction ws arbitrary: space)
  case (Cons w ws)
  show ?case
  proof (cases "wa_fires rf w")
    case False
    obtain k where k: "k \<le> length ws" "filter (wa_fires rf) (take k ws) = take space (filter (wa_fires rf) ws)"
      "rd_collect_loop rf space ws = (map (wa_report rf) (take space (filter (wa_fires rf) ws)), map (wa_after rf) (take k ws) @ drop k ws)"
      using Cons by blast
    have "rd_collect_loop rf space (w # ws) = (fst (rd_collect_loop rf space ws), wa_after rf w # snd (rd_collect_loop rf space ws))"
      using False by (cases "wa_used w \<and> \<not> wa_disabled w") (auto simp: wa_fires_def wa_after_def Let_def split: prod.splits)
    then show ?thesis using k False by (intro exI[of _ "Suc k"]) simp
  next
    case True
    then have act: "wa_used w" "\<not> wa_disabled w" "wa_deliver rf w \<noteq> 0" by (simp_all add: wa_fires_def)
    have u: "wa_after rf w = (if ev_events (wa_event w) AND EPOLLONESHOT \<noteq> 0
        then w\<lparr>wa_last_ready := wa_ready rf w, wa_disabled := True\<rparr>
        else w\<lparr>wa_last_ready := wa_ready rf w\<rparr>)"
      using act True by (simp add: wa_after_def wa_oneshot_def)
    show ?thesis
    proof (cases "space = 1")
      case one: True
      then show ?thesis using act True u by (intro exI[of _ 1]) (simp add: wa_report_def Let_def)
    next
      case False
      then obtain k where k: "k \<le> length ws" "filter (wa_fires rf) (take k ws) = take (space - 1) (filter (wa_fires rf) ws)"
        "rd_collect_loop rf (space - 1) ws = (map (wa_report rf) (take (space - 1) (filter (wa_fires rf) ws)), map (wa_after rf) (take k ws) @ drop k ws)"
        using Cons.IH[of "space - 1"] Cons.prems by auto
      have "take space (w # xs) = w # take (space - 1) xs" for xs :: "rd_watch list" using Cons.prems by (simp add: take_Cons')
      then show ?thesis using k act True u False by (intro exI[of _ "Suc k"]) (simp add: wa_report_def Let_def)
    qed
  qed
qed simp

lemma wa_after_simps [simp]:
  "wa_used (wa_after rf w) = wa_used w" "wa_target (wa_after rf w) = wa_target w"
  "wa_event (wa_after rf w) = wa_event w"
  by (simp_all add: wa_after_def)

lemma wa_fires_after:
  "wa_fires rf (wa_after rf w) \<longleftrightarrow> wa_fires rf w \<and> \<not> wa_edge w \<and> \<not> wa_oneshot w"
proof (cases "wa_used w \<and> \<not> wa_disabled w")
  case False
  then show ?thesis by (auto simp: wa_after_def wa_fires_def)
next
  case True
  let ?w = "wa_after rf w"
  have r: "wa_ready rf ?w = wa_ready rf w" by (simp add: wa_ready_def wa_interest_def)
  have l: "wa_last_ready ?w = wa_ready rf w" "wa_disabled ?w = (wa_oneshot w \<and> wa_fires rf w)"
    using True by (simp_all add: wa_after_def)
  have d: "wa_deliver rf ?w = (if wa_edge w then 0 else wa_ready rf w)"
    by (simp add: wa_deliver_def r l(1) wa_edge_def)
  have "\<not> wa_edge w \<Longrightarrow> wa_deliver rf w = wa_ready rf w" by (simp add: wa_deliver_def wa_edge_def)
  then show ?thesis using True d l(2) by (auto simp: wa_fires_def)
qed

lemma wa_report_after: "\<not> wa_edge w \<Longrightarrow> wa_report rf (wa_after rf w) = wa_report rf w"
  by (simp add: wa_report_def wa_deliver_def wa_edge_def wa_ready_def wa_interest_def)

section \<open>Properties\<close>

text \<open>After any sequence of readiness operations every instance in use has a non-zero
  generation and owner, every watch in use has a non-negative descriptor and a non-empty mask of
  supported events, and no instance watches a descriptor twice.\<close>

theorem rd_tables_ok: "rd_inv n (fold rd_step ops (rd_new n w))"
  by (rule readiness.inv_reach)

text \<open>C40: Collection into an output of any non-zero length, under a readiness that does not change
  between the two calls. The first \<open>collect\<close> reports the first firing watches in slot order, as many as fit; it visits
  the first \<open>k\<close> watches and stops only when the output is full. A second \<open>collect\<close>, again into any non-zero number of
  slots, finds of the visited watches exactly the level-triggered, not one-shot ones firing
  again, so edge-triggered and one-shot events are delivered once, and all the firing watches
  that were not visited, so a full output loses no event.\<close>

theorem rd_collect_once:
  assumes h: "rd_resolve t owner h = Some i" and n: "n \<noteq> 0"
  defines "ws \<equiv> in_watches (rt_instances t ! i)"
  shows "fst (rd_collect t owner h n rf) = Inr (map (wa_report rf) (take n (filter (wa_fires rf) ws)))
    \<and> (\<exists>k \<le> length ws. filter (wa_fires rf) (take k ws) = take n (filter (wa_fires rf) ws)
        \<and> (\<forall>m. m \<noteq> 0 \<longrightarrow> fst (rd_collect (snd (rd_collect t owner h n rf)) owner h m rf) =
             Inr (map (wa_report rf) (take m (filter (\<lambda>w. wa_fires rf w \<and> \<not> wa_edge w \<and> \<not> wa_oneshot w) (take k ws)
                                              @ filter (wa_fires rf) (drop k ws))))))"
proof -
  note hd = rd_resolve_SomeD[OF h]
  let ?again = "\<lambda>w. wa_fires rf w \<and> \<not> wa_edge w \<and> \<not> wa_oneshot w"
  obtain k where k: "k \<le> length ws" "filter (wa_fires rf) (take k ws) = take n (filter (wa_fires rf) ws)"
    "rd_collect_loop rf n ws = (map (wa_report rf) (take n (filter (wa_fires rf) ws)), map (wa_after rf) (take k ws) @ drop k ws)"
    using rd_collect_loop_take[OF n, of ws rf] by blast
  let ?ws = "map (wa_after rf) (take k ws) @ drop k ws"
  let ?t = "t\<lparr>rt_instances := (rt_instances t)[i := (rt_instances t ! i)\<lparr>in_watches := ?ws\<rparr>]\<rparr>"
  have 1: "rd_collect t owner h n rf = (Inr (map (wa_report rf) (take n (filter (wa_fires rf) ws))), ?t)"
    using h n k(3) by (simp add: rd_collect_def ws_def Let_def)
  have h': "rd_resolve ?t owner h = Some i" using hd by (simp add: rd_resolve_def)
  have ws': "in_watches (rt_instances ?t ! i) = ?ws" using hd by simp
  have f: "filter (wa_fires rf) ?ws = map (wa_after rf) (filter ?again (take k ws)) @ filter (wa_fires rf) (drop k ws)"
    by (simp add: filter_map comp_def wa_fires_after)
  have r: "map (wa_report rf) (map (wa_after rf) (filter ?again (take k ws))) = map (wa_report rf) (filter ?again (take k ws))"
    by (simp add: wa_report_after)
  have "fst (rd_collect ?t owner h m rf) = Inr (map (wa_report rf) (take m (filter ?again (take k ws) @ filter (wa_fires rf) (drop k ws))))" if m: "m \<noteq> 0" for m
  proof -
    obtain ws2 where "rd_collect_loop rf m ?ws = (map (wa_report rf) (take m (filter (wa_fires rf) ?ws)), ws2)"
      using rd_collect_loop_take[OF m, of ?ws rf] by blast
    then have "fst (rd_collect ?t owner h m rf) = Inr (map (wa_report rf) (take m (filter (wa_fires rf) ?ws)))"
      using h' m ws' by (simp add: rd_collect_def Let_def)
    also have "map (wa_report rf) (take m (filter (wa_fires rf) ?ws)) = take m (map (wa_report rf) (filter ?again (take k ws) @ filter (wa_fires rf) (drop k ws)))"
      unfolding f take_map[of m, symmetric] map_append r ..
    finally show ?thesis by (simp add: take_map)
  qed
  then show ?thesis unfolding 1 fst_conv snd_conv using k(1,2) by blast
qed

definition rd_sample :: rd_table where
  "rd_sample =
    \<lparr>rt_instances = [\<lparr>in_used = True, in_generation = 1, in_owner = 7, in_close_on_exec = False,
       in_watches = [\<lparr>wa_used = True, wa_target = 3,
                       wa_event = \<lparr>ev_events = EPOLLIN OR EPOLLET, ev_reserved = 0, ev_data = 30\<rparr>,
                       wa_last_ready = 0, wa_disabled = False\<rparr>,
                     \<lparr>wa_used = True, wa_target = 4,
                       wa_event = \<lparr>ev_events = EPOLLIN, ev_reserved = 0, ev_data = 40\<rparr>,
                       wa_last_ready = 0, wa_disabled = False\<rparr>]\<rparr>],
     rt_next_generation = 2, rt_watches = 2\<rparr>"

lemma rd_sample_resolve: "rd_resolve rd_sample 7 (rd_encode 0 1) = Some 0"
  by (simp add: rd_resolve_def rd_decode_encode rd_sample_def)

text \<open>Two watches are ready and the output has one slot: the first call reports the
  edge-triggered one, the second call the other.\<close>

theorem rd_collect_once_witness:
  "fst (rd_collect rd_sample 7 (rd_encode 0 1) 1 (\<lambda>_ _. EPOLLIN)) = Inr [\<lparr>ev_events = EPOLLIN, ev_reserved = 0, ev_data = 30\<rparr>]
   \<and> fst (rd_collect (snd (rd_collect rd_sample 7 (rd_encode 0 1) 1 (\<lambda>_ _. EPOLLIN)))
            7 (rd_encode 0 1) 1 (\<lambda>_ _. EPOLLIN)) =
       Inr [\<lparr>ev_events = EPOLLIN, ev_reserved = 0, ev_data = 40\<rparr>]"
proof -
  let ?rf = "\<lambda>_ _. EPOLLIN" and ?ws = "in_watches (rt_instances rd_sample ! 0)"
  obtain w1 w2 where ws: "?ws = [w1, w2]" and f: "wa_fires ?rf w1" "wa_fires ?rf w2" "wa_edge w1"
    and r: "wa_report ?rf w1 = \<lparr>ev_events = EPOLLIN, ev_reserved = 0, ev_data = 30\<rparr>" "wa_report ?rf w2 = \<lparr>ev_events = EPOLLIN, ev_reserved = 0, ev_data = 40\<rparr>"
    by (simp add: rd_sample_def wa_fires_def wa_report_def wa_deliver_def wa_ready_def wa_interest_def
        wa_edge_def EPOLLIN_def EPOLLET_def EPOLLONESHOT_def EPOLLERR_def EPOLLHUP_def EPOLLRDHUP_def)
  have len: "length [w1, w2] = 2" "take 1 (filter (wa_fires ?rf) [w1, w2]) = [w1]" using f by simp_all
  note T = rd_collect_once[OF rd_sample_resolve one_neq_zero, of ?rf, unfolded ws len]
  then obtain k where k: "k \<le> 2" "filter (wa_fires ?rf) (take k [w1, w2]) = [w1]"
    and second: "\<forall>m. m \<noteq> 0 \<longrightarrow> fst (rd_collect (snd (rd_collect rd_sample 7 (rd_encode 0 1) 1 ?rf)) 7 (rd_encode 0 1) m ?rf) =
      Inr (map (wa_report ?rf) (take m (filter (\<lambda>w. wa_fires ?rf w \<and> \<not> wa_edge w \<and> \<not> wa_oneshot w) (take k [w1, w2]) @ filter (wa_fires ?rf) (drop k [w1, w2]))))"
    by blast
  have "k = 1"
  proof -
    consider "k = 0" | "k = 1" | "k = 2" using k(1) by linarith
    then show ?thesis using k(2) f by cases auto
  qed
  then show ?thesis using T second[rule_format, OF one_neq_zero] f r by simp
qed

text \<open>The generation counter runs through the non-zero 16-bit values.\<close>

definition nxt :: "u16w \<Rightarrow> u16w" where
  "nxt g = max (g + 1) 1"

lemma unat_u16: "unat (g :: u16w) < 65536"
  using unsigned_less[of g] by simp

lemma unat_nxt: "unat (nxt g) = unat g mod 65535 + 1"
proof -
  have s: "unat (g + 1) = (unat g + 1) mod 65536" by (simp add: unat_word_ariths)
  have z: "g + 1 = 0 \<longleftrightarrow> unat (g + 1) = 0" by (simp only: unsigned_eq_0_iff)
  show ?thesis
  proof (cases "unat g = 65535")
    case True
    then show ?thesis using s z by (simp add: nxt_def max_one_word)
  next
    case False
    then have "unat g < 65535" using unat_u16[of g] by simp
    then show ?thesis using s z by (simp add: nxt_def max_one_word)
  qed
qed

lemma unat_nxt_iter:
  assumes "g \<noteq> 0"
  shows "unat ((nxt ^^ k) g) = (unat g - 1 + k) mod 65535 + 1"
proof (induction k)
  case 0
  have "0 < unat g" "unat g < 65536" using assms unat_u16[of g] by (simp_all add: unat_gt_0)
  then show ?case by simp
next
  case (Suc k)
  have "unat ((nxt ^^ Suc k) g) = ((unat g - 1 + k) mod 65535 + 1) mod 65535 + 1"
    using Suc by (simp add: unat_nxt)
  then show ?case by (simp add: mod_Suc_eq)
qed

lemma nxt_iter_neq:
  assumes "g \<noteq> 0" "0 < k" "k < 65535"
  shows "(nxt ^^ k) g \<noteq> g"
proof
  assume "(nxt ^^ k) g = g"
  with unat_nxt_iter[OF assms(1), of k] have e: "unat g = (unat g - 1 + k) mod 65535 + 1" by (simp only:)
  let ?u = "unat g - 1"
  have u: "?u < 65535" "unat g = ?u + 1" using assms(1) unat_u16[of g] by (simp_all add: unat_gt_0)
  then have "(?u + k) mod 65535 = ?u" using e by linarith
  then show False using u(1) assms(2,3) by (cases "?u + k < 65535") (simp_all add: le_mod_geq)
qed

definition rd_gone :: "nat \<Rightarrow> u16w \<Rightarrow> rd_table \<Rightarrow> bool" where
  "rd_gone i g t \<longleftrightarrow> \<not> (in_used (rt_instances t ! i) \<and> in_generation (rt_instances t ! i) = g)"

lemma rd_step_generation:
  assumes inv: "rd_inv n t" and g: "rt_next_generation t = (nxt ^^ k) g"
  shows "\<exists>k'. k \<le> k' \<and> k' \<le> k + (if is_create a then 1 else 0)
    \<and> rt_next_generation (rd_step a t) = (nxt ^^ k') g"
proof -
  have "rt_next_generation t \<noteq> 0" using inv by (simp add: rd_inv_def)
  from rd_step_moves(3)[OF this, of a] show ?thesis
  proof
    assume "rt_next_generation (rd_step a t) = rt_next_generation t"
    then show ?thesis using g by (intro exI[of _ k]) simp
  next
    assume "is_create a \<and> rt_next_generation (rd_step a t) = max (rt_next_generation t + 1) 1"
    then show ?thesis using g by (intro exI[of _ "Suc k"]) (simp add: nxt_def)
  qed
qed

lemma rd_step_gone:
  assumes inv: "rd_inv n t" and g: "rt_next_generation t \<noteq> g" and i: "i < n" and gone: "rd_gone i g t"
  shows "rd_gone i g (rd_step a t)"
proof -
  have gen: "rt_next_generation t \<noteq> 0" and len: "length (rt_instances t) = n"
    using inv by (simp_all add: rd_inv_def)
  note m = rd_step_moves[OF gen, of a]
  show ?thesis
  proof (cases "is_create a")
    case False
    then show ?thesis using m(4) i len gone by (auto simp: rd_gone_def)
  next
    case True
    have "in_moves (rt_watches t) (rt_next_generation t) (rt_instances t ! i) (rt_instances (rd_step a t) ! i)"
      using list_all2_nthD[OF m(1)] i len by simp
    then show ?thesis using gone g unfolding rd_gone_def in_moves_def by auto
  qed
qed

lemma rd_run_gone:
  "rd_inv n t \<Longrightarrow> g \<noteq> 0 \<Longrightarrow> i < n \<Longrightarrow> rd_gone i g t \<Longrightarrow> rt_next_generation t = (nxt ^^ k) g \<Longrightarrow> 0 < k
   \<Longrightarrow> k + count_if is_create ops < 65535 \<Longrightarrow> rd_gone i g (fold rd_step ops t)"
proof (induction ops arbitrary: t k)
  case (Cons a ops)
  have k: "k < 65535" using Cons.prems(7) by simp
  have ne: "rt_next_generation t \<noteq> g"
    using nxt_iter_neq[OF Cons.prems(2,6) k] Cons.prems(5) by simp
  obtain k' where k': "k \<le> k'" "k' \<le> k + (if is_create a then 1 else 0)"
      "rt_next_generation (rd_step a t) = (nxt ^^ k') g"
    using rd_step_generation[OF Cons.prems(1,5), of a] by blast
  have "rd_gone i g (fold rd_step ops (rd_step a t))"
    using Cons.IH[OF rd_step_inv[OF Cons.prems(1)] Cons.prems(2,3)
        rd_step_gone[OF Cons.prems(1) ne Cons.prems(3,4)] k'(3)] k'(1,2) Cons.prems(6,7)
    by (simp split: if_splits)
  then show ?case by simp
qed simp

lemma rd_run_generation:
  "rd_inv n t \<Longrightarrow> rt_next_generation t = (nxt ^^ k) g \<Longrightarrow>
   \<exists>k'. k \<le> k' \<and> k' \<le> k + count_if is_create ops \<and> rt_next_generation (fold rd_step ops t) = (nxt ^^ k') g"
proof (induction ops arbitrary: t k)
  case Nil
  then show ?case by auto
next
  case (Cons a ops)
  obtain k1 where k1: "k \<le> k1" "k1 \<le> k + (if is_create a then 1 else 0)"
      "rt_next_generation (rd_step a t) = (nxt ^^ k1) g"
    using rd_step_generation[OF Cons.prems, of a] by blast
  obtain k2 where "k1 \<le> k2" "k2 \<le> k1 + count_if is_create ops"
      "rt_next_generation (fold rd_step ops (rd_step a t)) = (nxt ^^ k2) g"
    using Cons.IH[OF rd_step_inv[OF Cons.prems(1)] k1(3)] by blast
  then show ?case using k1 by (intro exI[of _ k2]) (auto split: if_splits)
qed

lemma rd_create_Inr:
  assumes inv: "rd_inv n t" and c: "rd_create t owner cloexec = (Inr h, t')"
  obtains i where "i < n" "h = rd_encode i (rt_next_generation t)" "rt_next_generation t' = nxt (rt_next_generation t)"
    "rd_inv n t'"
proof -
  have g: "rt_next_generation t \<noteq> 0" using inv by (simp add: rd_inv_def)
  from c obtain i where i: "position (\<lambda>i. \<not> in_used i) (rt_instances t) = Some i"
    by (auto simp: rd_create_def Let_def split: option.splits if_splits)
  have "i < n" using position_less[OF i] inv by (simp add: rd_inv_def)
  moreover have "h = rd_encode i (rt_next_generation t)" "rt_next_generation t' = nxt (rt_next_generation t)"
    using c i g by (auto simp: rd_create_def Let_def nxt_def max_one_word split: if_splits)
  moreover have "rd_inv n t'" using rd_step_inv[OF inv, of "RdCreate owner cloexec"] c by simp
  ultimately show thesis using that by blast
qed

text \<open>C39: A closed handle is dead. Once a handle returned by \<open>create\<close> has been closed, no owner
  can use it again through any further operations, although slots are reused, as long as fewer than
  65534 instances are created after it (the 16-bit generation has then not come round).\<close>

theorem rd_closed_handle_stale:
  assumes inv: "rd_inv n t" "n \<le> 255" and c: "rd_create t owner cloexec = (Inr h, t1)"
    and close: "rd_close (fold rd_step ops1 t1) owner h = (Inr (), t3)"
    and few: "count_if is_create (ops1 @ ops2) < 65534"
  shows "rd_resolve (fold rd_step ops2 t3) o' h = None"
proof -
  let ?g = "rt_next_generation t" and ?t2 = "fold rd_step ops1 t1"
  have g: "?g \<noteq> 0" using inv(1) by (simp add: rd_inv_def)
  obtain i where i: "i < n" "h = rd_encode i ?g" "rt_next_generation t1 = nxt ?g" "rd_inv n t1"
    using rd_create_Inr[OF inv(1) c] .
  have dec: "rd_decode h = Some (i, ?g)" using rd_decode_encode[of i ?g] i(1,2) inv(2) g by simp
  have "rt_next_generation t1 = (nxt ^^ 1) ?g" using i(3) by simp
  from rd_run_generation[OF i(4) this, of ops1] obtain k where
    k: "1 \<le> k" "k \<le> 1 + count_if is_create ops1" "rt_next_generation ?t2 = (nxt ^^ k) ?g" by blast
  have inv2: "rd_inv n ?t2" using readiness.inv_run[OF i(4)] .
  from close obtain j where j: "rd_resolve ?t2 owner h = Some j"
    "t3 = ?t2\<lparr>rt_instances := (rt_instances ?t2)[j := INSTANCE_EMPTY (rt_watches ?t2)]\<rparr>"
    by (auto simp: rd_close_def split: option.splits)
  have "j = i" using rd_resolve_SomeD[OF j(1)] dec by simp
  then have gone: "rd_gone i ?g t3" using j i(1) inv2 by (simp add: rd_gone_def rd_inv_def)
  have inv3: "rd_inv n t3" using rd_step_inv[OF inv2, of "RdClose owner h"] close by simp
  have "rt_next_generation t3 = (nxt ^^ k) ?g" using j(2) k(3) by simp
  moreover have "k + count_if is_create ops2 < 65535" using k(2) few by (simp add: count_if_def)
  ultimately have "rd_gone i ?g (fold rd_step ops2 t3)"
    using rd_run_gone[OF inv3 g i(1) gone] k(1) by simp
  then show ?thesis using dec by (auto simp: rd_resolve_def rd_gone_def)
qed

theorem rd_closed_handle_stale_witness:
  "\<exists>h t1 t3. rd_create (rd_new 2 1) 7 False = (Inr h, t1) \<and> rd_close t1 7 h = (Inr (), t3)
     \<and> rd_resolve (fold rd_step [RdCreate 7 False, RdCreate 7 True] t3) 7 h = None"
proof -
  obtain t1 where c: "rd_create (rd_new 2 1) 7 False = (Inr (rd_encode 0 1), t1)"
    and t1: "rt_instances t1 ! 0 = \<lparr>in_used = True, in_generation = 1, in_owner = 7,
         in_close_on_exec = False, in_watches = replicate 1 WATCH_EMPTY\<rparr>" "length (rt_instances t1) = 2"
    by (simp add: rd_create_def rd_new_def numeral_2_eq_2 INSTANCE_EMPTY_def Let_def)
  have "rd_resolve t1 7 (rd_encode 0 1) = Some 0" by (simp add: rd_resolve_def rd_decode_encode t1)
  then obtain t3 where cl: "rd_close t1 7 (rd_encode 0 1) = (Inr (), t3)" by (simp add: rd_close_def)
  have "rd_resolve (fold rd_step [RdCreate 7 False, RdCreate 7 True] t3) 7 (rd_encode 0 1) = None"
    by (rule rd_closed_handle_stale[OF rd_new_inv _ c, of "[]"]) (simp_all add: cl is_create_def)
  then show ?thesis using c cl by blast
qed

end
