(* ===== verification/Line_Discipline.thy ===== *)
theory Line_Discipline
  imports Prelude
begin

text \<open>
  The terminal line discipline of \<open>src/crates/tty/src/lib.rs\<close>: the byte and record rings,
  the canonical edit line, signals, echo, reading and output post-processing. Bytes are 8-bit
  words. The const generics \<open>INPUT\<close>, \<open>LINE\<close> and \<open>RECORDS\<close> are the lengths of the three
  arrays. A \<open>ByteSink\<close> is the list of its \<open>write\<close> calls; a failing \<open>expect\<close> is \<^const>\<open>None\<close>.
\<close>

unbundle bit_operations_syntax

section \<open>Model\<close>

record window_size =
  wsz_rows :: u16w
  wsz_columns :: u16w
  wsz_pixel_width :: u16w
  wsz_pixel_height :: u16w

record termios =
  tm_canonical :: bool
  tm_echo :: bool
  tm_echo_erase :: bool
  tm_echo_kill :: bool
  tm_signals :: bool
  tm_no_flush_on_signal :: bool
  tm_map_cr_to_nl :: bool
  tm_output_crlf :: bool
  tm_minimum_read :: nat
  tm_erase :: u8
  tm_kill :: u8
  tm_eof :: u8
  tm_interrupt :: u8
  tm_quit :: u8
  tm_suspend :: u8

definition tm_sane :: termios where
  "tm_sane = \<lparr>tm_canonical = True, tm_echo = True, tm_echo_erase = True, tm_echo_kill = True,
     tm_signals = True, tm_no_flush_on_signal = False, tm_map_cr_to_nl = True,
     tm_output_crlf = True, tm_minimum_read = 1, tm_erase = 0x7f, tm_kill = 0x15, tm_eof = 0x04,
     tm_interrupt = 0x03, tm_quit = 0x1c, tm_suspend = 0x1a\<rparr>"

definition tm_raw :: termios where
  "tm_raw = \<lparr>tm_canonical = False, tm_echo = False, tm_echo_erase = False, tm_echo_kill = False,
     tm_signals = False, tm_no_flush_on_signal = False, tm_map_cr_to_nl = False,
     tm_output_crlf = False, tm_minimum_read = 1, tm_erase = 0x7f, tm_kill = 0x15, tm_eof = 0x04,
     tm_interrupt = 0x03, tm_quit = 0x1c, tm_suspend = 0x1a\<rparr>"

datatype tty_signal = SigInterrupt | SigQuit | SigSuspend

datatype receive_result = RxAccepted | RxLineReady | RxEndOfFileReady | RxSignal tty_signal | RxFull

datatype read_error = WouldBlock

datatype set_termios_error = InputFull | PendingRawInput

subsection \<open>The byte ring\<close>

record byte_queue =
  bq_bytes :: "u8 list"
  bq_head :: nat
  bq_length :: nat

definition bq_new :: "nat \<Rightarrow> byte_queue" where
  "bq_new n = \<lparr>bq_bytes = replicate n 0, bq_head = 0, bq_length = 0\<rparr>"

definition bq_remaining :: "byte_queue \<Rightarrow> nat" where
  "bq_remaining q = length (bq_bytes q) - bq_length q"

definition bq_push :: "byte_queue \<Rightarrow> u8 \<Rightarrow> bool \<times> byte_queue" where
  "bq_push q byte =
     (let n = length (bq_bytes q)
      in if bq_length q = n \<or> n = 0 then (False, q)
         else (let tail = (bq_head q + bq_length q) mod n
               in (True, q\<lparr>bq_bytes := (bq_bytes q)[tail := byte], bq_length := bq_length q + 1\<rparr>)))"

definition bq_pop :: "byte_queue \<Rightarrow> u8 option \<times> byte_queue" where
  "bq_pop q =
     (let n = length (bq_bytes q)
      in if bq_length q = 0 \<or> n = 0 then (None, q)
         else (Some (bq_bytes q ! bq_head q),
               q\<lparr>bq_head := (bq_head q + 1) mod n, bq_length := bq_length q - 1\<rparr>))"

definition bq_clear :: "byte_queue \<Rightarrow> byte_queue" where
  "bq_clear q = q\<lparr>bq_head := 0, bq_length := 0\<rparr>"

subsection \<open>The record ring\<close>

record record_queue =
  rq_lengths :: "nat list"
  rq_head :: nat
  rq_length :: nat

definition rq_new :: "nat \<Rightarrow> record_queue" where
  "rq_new n = \<lparr>rq_lengths = replicate n 0, rq_head = 0, rq_length = 0\<rparr>"

definition rq_push :: "record_queue \<Rightarrow> nat \<Rightarrow> bool \<times> record_queue" where
  "rq_push q v =
     (let n = length (rq_lengths q)
      in if rq_length q = n \<or> n = 0 then (False, q)
         else (let tail = (rq_head q + rq_length q) mod n
               in (True, q\<lparr>rq_lengths := (rq_lengths q)[tail := v], rq_length := rq_length q + 1\<rparr>)))"

definition rq_front :: "record_queue \<Rightarrow> nat option" where
  "rq_front q =
     (if rq_length q \<noteq> 0 \<and> length (rq_lengths q) \<noteq> 0 then Some (rq_lengths q ! rq_head q) else None)"

definition rq_consume :: "record_queue \<Rightarrow> nat \<Rightarrow> record_queue" where
  "rq_consume q count =
     (let n = length (rq_lengths q)
      in if rq_length q = 0 \<or> n = 0 then q
         else if count < rq_lengths q ! rq_head q
              then q\<lparr>rq_lengths := (rq_lengths q)[rq_head q := rq_lengths q ! rq_head q - count]\<rparr>
              else q\<lparr>rq_head := (rq_head q + 1) mod n, rq_length := rq_length q - 1\<rparr>)"

definition rq_clear :: "record_queue \<Rightarrow> record_queue" where
  "rq_clear q = q\<lparr>rq_head := 0, rq_length := 0\<rparr>"

subsection \<open>The line discipline\<close>

record line_discipline =
  ld_termios :: termios
  ld_input :: byte_queue
  ld_records :: record_queue
  ld_line :: "u8 list"
  ld_line_length :: nat

definition ld_new :: "nat \<Rightarrow> nat \<Rightarrow> nat \<Rightarrow> termios \<Rightarrow> line_discipline" where
  "ld_new input line records t =
     \<lparr>ld_termios = t, ld_input = bq_new input, ld_records = rq_new records,
      ld_line = replicate line 0, ld_line_length = 0\<rparr>"

text \<open>The loop that moves the edit line into the input ring.\<close>

definition ld_push_line :: "line_discipline \<Rightarrow> byte_queue" where
  "ld_push_line s =
     fold (\<lambda>index q. snd (bq_push q (ld_line s ! index))) [0..<ld_line_length s] (ld_input s)"

definition ld_set_termios ::
  "line_discipline \<Rightarrow> termios \<Rightarrow> (set_termios_error, unit) result \<times> line_discipline" where
  "ld_set_termios s t =
     (let leave = tm_canonical (ld_termios s) \<and> \<not> tm_canonical t
      in if leave \<and> ld_line_length s \<noteq> 0 \<and> bq_remaining (ld_input s) < ld_line_length s
         then (Inl InputFull, s)
         else
           (let s1 = (if leave \<and> ld_line_length s \<noteq> 0
                      then s\<lparr>ld_input := ld_push_line s, ld_line_length := 0\<rparr> else s);
                s2 = (if leave then s1\<lparr>ld_records := rq_clear (ld_records s1)\<rparr> else s1)
            in if \<not> tm_canonical (ld_termios s2) \<and> tm_canonical t \<and> bq_length (ld_input s2) \<noteq> 0
               then (Inl PendingRawInput, s2)
               else (Inr (), s2\<lparr>ld_termios := t\<rparr>)))"

definition ld_readable_bytes :: "line_discipline \<Rightarrow> nat" where
  "ld_readable_bytes s =
     (if tm_canonical (ld_termios s)
      then (case rq_front (ld_records s) of None \<Rightarrow> 0 | Some n \<Rightarrow> n)
      else bq_length (ld_input s))"

definition ld_poll_readable :: "line_discipline \<Rightarrow> bool" where
  "ld_poll_readable s \<longleftrightarrow>
     (if tm_canonical (ld_termios s) then rq_front (ld_records s) \<noteq> None
      else (let threshold = tm_minimum_read (ld_termios s)
            in threshold = 0 \<or> threshold \<le> bq_length (ld_input s)))"

definition control_letter :: "u8 \<Rightarrow> u8" where
  "control_letter byte = (if byte = 0x7f then 0x3f else byte XOR 0x40)"

definition ld_flush_input :: "line_discipline \<Rightarrow> line_discipline" where
  "ld_flush_input s =
     s\<lparr>ld_input := bq_clear (ld_input s), ld_records := rq_clear (ld_records s), ld_line_length := 0\<rparr>"

definition ld_commit_line :: "line_discipline \<Rightarrow> bool \<Rightarrow> bool \<times> line_discipline" where
  "ld_commit_line s newline =
     (let count = ld_line_length s + (if newline then 1 else 0)
      in if bq_remaining (ld_input s) < count
            \<or> rq_length (ld_records s) = length (rq_lengths (ld_records s))
            \<or> length (rq_lengths (ld_records s)) = 0
         then (False, s)
         else
           (let q1 = ld_push_line s;
                q2 = (if newline then snd (bq_push q1 0x0a) else q1)
            in (True, s\<lparr>ld_input := q2, ld_records := snd (rq_push (ld_records s) count),
                        ld_line_length := 0\<rparr>)))"

text \<open>Which signal a byte raises.\<close>

definition ld_signal_of :: "termios \<Rightarrow> u8 \<Rightarrow> tty_signal option" where
  "ld_signal_of t byte =
     (if byte = tm_interrupt t then Some SigInterrupt
      else if byte = tm_quit t then Some SigQuit
      else if byte = tm_suspend t then Some SigSuspend
      else None)"

text \<open>\<open>receive\<close>: the result, the echoed writes and the new state.\<close>

definition ld_receive ::
  "line_discipline \<Rightarrow> u8 \<Rightarrow> receive_result \<times> u8 list list \<times> line_discipline" where
  "ld_receive s byte0 =
     (let t = ld_termios s;
          byte = (if tm_map_cr_to_nl t \<and> byte0 = 0x0d then 0x0a else byte0);
          echo = (\<lambda>w. if tm_echo t then w else [])
      in case (if tm_signals t then ld_signal_of t byte else None) of
           Some sig \<Rightarrow>
             (RxSignal sig, echo [[0x5e, control_letter byte, 0x0d, 0x0a]],
              if \<not> tm_no_flush_on_signal t then ld_flush_input s else s)
         | None \<Rightarrow>
             if \<not> tm_canonical t then
               (let (pushed, q) = bq_push (ld_input s) byte
                in if \<not> pushed then (RxFull, [], s)
                   else (RxAccepted, echo [[byte]], s\<lparr>ld_input := q\<rparr>))
             else if byte = tm_erase t then
               (if ld_line_length s \<noteq> 0
                then (RxAccepted,
                      echo (if tm_echo_erase t then [[0x08, 0x20, 0x08]] else [[byte]]),
                      s\<lparr>ld_line_length := ld_line_length s - 1\<rparr>)
                else (RxAccepted, [], s))
             else if byte = tm_kill t then
               (RxAccepted,
                echo (if tm_echo_kill t \<and> tm_echo_erase t
                      then replicate (ld_line_length s) [0x08, 0x20, 0x08]
                      else [[0x5e, control_letter byte, 0x0d, 0x0a]]),
                s\<lparr>ld_line_length := 0\<rparr>)
             else if byte = tm_eof t then
               (let (committed, s1) = ld_commit_line s False
                in if \<not> committed then (RxFull, [], s1) else (RxEndOfFileReady, [], s1))
             else if byte = 0x0a then
               (let (committed, s1) = ld_commit_line s True
                in if \<not> committed then (RxFull, [], s1)
                   else (RxLineReady, echo [[0x0d, 0x0a]], s1))
             else if ld_line_length s = length (ld_line s) \<or> length (ld_line s) = 0 then
               (RxFull, [], s)
             else
               (RxAccepted, echo [[byte]],
                s\<lparr>ld_line := (ld_line s)[ld_line_length s := byte],
                  ld_line_length := ld_line_length s + 1\<rparr>))"

text \<open>\<open>read\<close> into an output slice of \<open>output_len\<close> bytes.\<close>

definition ld_read ::
  "line_discipline \<Rightarrow> nat \<Rightarrow> ((read_error, u8 list) result \<times> line_discipline) option" where
  "ld_read s output_len =
     (if tm_canonical (ld_termios s) then
        (case rq_front (ld_records s) of
           None \<Rightarrow> Some (Inl WouldBlock, s)
         | Some record_len \<Rightarrow>
             if record_len = 0
             then Some (Inr [], s\<lparr>ld_records := rq_consume (ld_records s) 0\<rparr>)
             else
               (let count = min record_len output_len
                in case pop_times bq_pop count (ld_input s) of
                     None \<Rightarrow> None
                   | Some (bytes, q) \<Rightarrow>
                       Some (Inr bytes, s\<lparr>ld_input := q,
                                          ld_records := rq_consume (ld_records s) count\<rparr>)))
      else
        (let threshold = min (tm_minimum_read (ld_termios s)) output_len;
             available = bq_length (ld_input s)
         in if available < threshold \<or> (available = 0 \<and> threshold \<noteq> 0)
            then Some (Inl WouldBlock, s)
            else (case pop_times bq_pop (min available output_len) (ld_input s) of
                    None \<Rightarrow> None
                  | Some (bytes, q) \<Rightarrow> Some (Inr bytes, s\<lparr>ld_input := q\<rparr>))))"

text \<open>The loop of \<open>write_output\<close>: \<open>start\<close> is carried, \<open>index\<close> counts the bytes seen.\<close>

fun ld_output_loop :: "u8 list \<Rightarrow> nat \<Rightarrow> nat \<Rightarrow> u8 list \<Rightarrow> u8 list list" where
  "ld_output_loop bytes start index [] =
     (if start \<noteq> length bytes then [drop start bytes] else [])"
| "ld_output_loop bytes start index (b # rest) =
     (if b = 0x0a
      then (if start \<noteq> index then [take (index - start) (drop start bytes)] else [])
           @ [[0x0d, 0x0a]] @ ld_output_loop bytes (index + 1) (index + 1) rest
      else ld_output_loop bytes start (index + 1) rest)"

definition ld_write_output :: "line_discipline \<Rightarrow> u8 list \<Rightarrow> u8 list list" where
  "ld_write_output s bytes =
     (if \<not> tm_output_crlf (ld_termios s) then [bytes]
      else ld_output_loop bytes 0 0 bytes)"

section \<open>The rings as queues\<close>

definition bq_list :: "byte_queue \<Rightarrow> u8 list" where
  "bq_list q = ring_list (bq_bytes q) (bq_head q) (bq_length q)"

definition bq_cap :: "byte_queue \<Rightarrow> nat" where
  "bq_cap q = length (bq_bytes q)"

definition bq_wf :: "byte_queue \<Rightarrow> bool" where
  "bq_wf q \<longleftrightarrow> bq_length q \<le> length (bq_bytes q) \<and> (bq_bytes q \<noteq> [] \<longrightarrow> bq_head q < length (bq_bytes q))"

definition rq_list :: "record_queue \<Rightarrow> nat list" where
  "rq_list q = ring_list (rq_lengths q) (rq_head q) (rq_length q)"

definition rq_wf :: "record_queue \<Rightarrow> bool" where
  "rq_wf q \<longleftrightarrow> rq_length q \<le> length (rq_lengths q) \<and> (rq_lengths q \<noteq> [] \<longrightarrow> rq_head q < length (rq_lengths q))"

lemma bq_list_length [simp]: "length (bq_list q) = bq_length q"
  by (simp add: bq_list_def)

lemma rq_list_length [simp]: "length (rq_list q) = rq_length q"
  by (simp add: rq_list_def)

interpretation bytes: bounded_queue bq_push bq_pop bq_list bq_cap bq_wf
proof
  fix q :: byte_queue and x :: u8
  assume wf: "bq_wf q"
  show "length (bq_list q) \<le> bq_cap q" using wf by (simp add: bq_wf_def bq_cap_def)
  show "length (bq_list q) = bq_cap q \<Longrightarrow> bq_push q x = (False, q)"
    by (simp add: bq_push_def bq_cap_def)
  show "\<exists>q'. bq_push q x = (True, q') \<and> bq_wf q' \<and> bq_list q' = bq_list q @ [x] \<and> bq_cap q' = bq_cap q"
    if "length (bq_list q) < bq_cap q"
  proof -
    have l: "bq_length q < length (bq_bytes q)" using that by (simp add: bq_cap_def)
    then show ?thesis using wf ring_list_push[OF l, of "bq_head q" x]
      by (auto simp: bq_push_def Let_def bq_wf_def bq_list_def bq_cap_def)
  qed
  show "bq_pop q = (None, q)" if "bq_list q = []"
    using arg_cong[OF that, of length] by (simp add: bq_pop_def)
  show "\<exists>q'. bq_pop q = (Some y, q') \<and> bq_wf q' \<and> bq_list q' = ys \<and> bq_cap q' = bq_cap q"
    if "bq_list q = y # ys" for y ys
  proof -
    have l: "0 < bq_length q" using arg_cong[OF that, of length] by simp
    then have n: "bq_bytes q \<noteq> []" "bq_head q < length (bq_bytes q)" using wf by (auto simp: bq_wf_def)
    have "bq_list q = bq_bytes q ! bq_head q #
        ring_list (bq_bytes q) ((bq_head q + 1) mod length (bq_bytes q)) (bq_length q - 1)"
      unfolding bq_list_def by (rule ring_list_pop[OF l n(2)])
    then show ?thesis using that l n wf
      by (auto simp: bq_pop_def Let_def bq_wf_def bq_cap_def bq_list_def[of "_\<lparr>bq_head := _\<rparr>"]
          bq_list_def[of "_\<lparr>bq_length := _\<rparr>"])
  qed
qed

lemma rq_push_room:
  assumes "rq_wf q" "rq_length q < length (rq_lengths q)"
  shows "rq_list (snd (rq_push q v)) = rq_list q @ [v]" "rq_wf (snd (rq_push q v))"
    "length (rq_lengths (snd (rq_push q v))) = length (rq_lengths q)"
  using assms ring_list_push[OF assms(2), of "rq_head q" v]
  by (auto simp: rq_push_def Let_def rq_list_def rq_wf_def)

lemma rq_list_Cons:
  assumes "rq_wf q" "0 < rq_length q"
  shows "rq_lengths q \<noteq> []" "rq_head q < length (rq_lengths q)"
    "rq_list q = rq_lengths q ! rq_head q #
       ring_list (rq_lengths q) ((rq_head q + 1) mod length (rq_lengths q)) (rq_length q - 1)"
proof -
  show n: "rq_lengths q \<noteq> []" "rq_head q < length (rq_lengths q)" using assms by (auto simp: rq_wf_def)
  show "rq_list q = rq_lengths q ! rq_head q #
       ring_list (rq_lengths q) ((rq_head q + 1) mod length (rq_lengths q)) (rq_length q - 1)"
    unfolding rq_list_def by (rule ring_list_pop[OF assms(2) n(2)])
qed

lemma rq_front_list:
  assumes "rq_wf q"
  shows "rq_front q = (case rq_list q of [] \<Rightarrow> None | x # _ \<Rightarrow> Some x)"
proof (cases "rq_length q = 0")
  case True
  then show ?thesis by (simp add: rq_front_def rq_list_def)
next
  case False
  then show ?thesis using rq_list_Cons[OF assms] by (simp add: rq_front_def)
qed

lemma rq_consume_list:
  assumes "rq_wf q"
  shows "rq_list (rq_consume q c) =
      (case rq_list q of [] \<Rightarrow> [] | x # xs \<Rightarrow> if c < x then (x - c) # xs else xs)"
    and "rq_wf (rq_consume q c)" and "length (rq_lengths (rq_consume q c)) = length (rq_lengths q)"
proof -
  show "rq_wf (rq_consume q c)" "length (rq_lengths (rq_consume q c)) = length (rq_lengths q)"
    using assms by (auto simp: rq_consume_def rq_wf_def Let_def)
  show "rq_list (rq_consume q c) =
      (case rq_list q of [] \<Rightarrow> [] | x # xs \<Rightarrow> if c < x then (x - c) # xs else xs)"
  proof (cases "rq_length q = 0")
    case True
    then show ?thesis by (simp add: rq_consume_def rq_list_def)
  next
    case False
    note c = rq_list_Cons[OF assms] and le = assms[unfolded rq_wf_def, THEN conjunct1]
    show ?thesis
    proof (cases "c < rq_lengths q ! rq_head q")
      case True
      have "rq_list (rq_consume q c) = (rq_list q)[0 := rq_lengths q ! rq_head q - c]"
        using False True c(1,2) ring_list_head_update[OF _ le c(2), of "rq_lengths q ! rq_head q - c"]
        by (simp add: rq_consume_def Let_def rq_list_def)
      then show ?thesis using c(3) False True by simp
    next
      case ge: False
      have "rq_list (rq_consume q c) =
          ring_list (rq_lengths q) ((rq_head q + 1) mod length (rq_lengths q)) (rq_length q - 1)"
        using False ge c(1,2) by (simp add: rq_consume_def Let_def rq_list_def)
      then show ?thesis using c(3) False ge by simp
    qed
  qed
qed

section \<open>State as lines\<close>

text \<open>The edit line, and the committed lines: the input cut at the record lengths.\<close>

fun split_by :: "nat list \<Rightarrow> 'a list \<Rightarrow> 'a list list" where
  "split_by [] xs = []"
| "split_by (n # ns) xs = take n xs # split_by ns (drop n xs)"

lemma split_by_append:
  "sum_list ns = length xs \<Longrightarrow> split_by (ns @ [length ys]) (xs @ ys) = split_by ns xs @ [ys]"
proof (induction ns arbitrary: xs)
  case (Cons n ns)
  then have "sum_list ns = length (drop n xs)" "n \<le> length xs" by auto
  with Cons.IH[of "drop n xs"] show ?case by simp
qed simp

lemma split_by_eq_Nil [simp]: "split_by ns xs = [] \<longleftrightarrow> ns = []"
  by (cases ns) auto

definition ld_edit :: "line_discipline \<Rightarrow> u8 list" where
  "ld_edit s = take (ld_line_length s) (ld_line s)"

definition ld_lines :: "line_discipline \<Rightarrow> u8 list list" where
  "ld_lines s = split_by (rq_list (ld_records s)) (bq_list (ld_input s))"

definition ld_inv :: "nat \<Rightarrow> nat \<Rightarrow> nat \<Rightarrow> line_discipline \<Rightarrow> bool" where
  "ld_inv I L R s \<longleftrightarrow>
     bq_wf (ld_input s) \<and> bq_cap (ld_input s) = I
     \<and> rq_wf (ld_records s) \<and> length (rq_lengths (ld_records s)) = R
     \<and> length (ld_line s) = L \<and> ld_line_length s \<le> L
     \<and> (tm_canonical (ld_termios s) \<longrightarrow> sum_list (rq_list (ld_records s)) = bq_length (ld_input s))
     \<and> (\<not> tm_canonical (ld_termios s) \<longrightarrow> rq_list (ld_records s) = [] \<and> ld_line_length s = 0)"

lemma map_nth_take: "n \<le> length xs \<Longrightarrow> map ((!) xs) [0..<n] = take n xs"
  by (rule nth_equalityI) auto

lemma ld_push_line:
  assumes "ld_inv I L R s" "ld_line_length s \<le> bq_remaining (ld_input s)"
  shows "bq_wf (ld_push_line s) \<and> bq_list (ld_push_line s) = bq_list (ld_input s) @ ld_edit s
    \<and> bq_cap (ld_push_line s) = I"
proof -
  have e: "ld_push_line s = fold (\<lambda>x q. snd (bq_push q x)) (ld_edit s) (ld_input s)"
    unfolding ld_push_line_def ld_edit_def
    using assms(1) map_nth_take[of "ld_line_length s" "ld_line s"]
    by (simp add: ld_inv_def fold_map comp_def flip: map_nth_take)
  have "bq_wf (ld_input s)" "bq_cap (ld_input s) = I" using assms(1) by (simp_all add: ld_inv_def)
  moreover have "length (bq_list (ld_input s)) + length (ld_edit s) \<le> bq_cap (ld_input s)"
    using assms by (auto simp: ld_inv_def ld_edit_def bq_remaining_def bq_cap_def bq_wf_def)
  ultimately show ?thesis unfolding e using bytes.push_block by simp
qed

lemma bq_list_lengthD: "bq_list q = xs \<Longrightarrow> bq_length q = length xs"
  using bq_list_length by metis

lemma rq_list_lengthD: "rq_list q = xs \<Longrightarrow> rq_length q = length xs"
  using rq_list_length by metis

lemma ld_commit_line:
  fixes newline :: bool
  assumes inv: "ld_inv I L R s" and can: "tm_canonical (ld_termios s)"
  defines "line \<equiv> ld_edit s @ (if newline then [0x0a] else [])"
  shows "if bq_length (ld_input s) + length line \<le> I \<and> rq_length (ld_records s) < R
    then \<exists>s'. ld_commit_line s newline = (True, s') \<and> ld_inv I L R s' \<and> ld_lines s' = ld_lines s @ [line]
           \<and> ld_edit s' = [] \<and> ld_termios s' = ld_termios s
    else ld_commit_line s newline = (False, s)"
proof -
  have i: "bq_wf (ld_input s)" "bq_cap (ld_input s) = I" "rq_wf (ld_records s)"
    "length (rq_lengths (ld_records s)) = R" "length (ld_line s) = L" "ld_line_length s \<le> L"
    "sum_list (rq_list (ld_records s)) = bq_length (ld_input s)"
    using inv can by (simp_all add: ld_inv_def)
  have len: "length line = ld_line_length s + (if newline then 1 else 0)"
    using i by (simp add: line_def ld_edit_def)
  have rem: "bq_remaining (ld_input s) = I - bq_length (ld_input s)" "bq_length (ld_input s) \<le> I"
    "rq_length (ld_records s) \<le> R"
    using i by (simp_all add: bq_remaining_def bq_cap_def bq_wf_def rq_wf_def)
  show ?thesis
  proof (cases "bq_length (ld_input s) + length line \<le> I \<and> rq_length (ld_records s) < R")
    case False
    then have "ld_commit_line s newline = (False, s)" using rem i(4) len
      by (auto simp: ld_commit_line_def Let_def)
    then show ?thesis using False by simp
  next
    case True
    have p: "bq_wf (ld_push_line s)" "bq_list (ld_push_line s) = bq_list (ld_input s) @ ld_edit s"
      "bq_cap (ld_push_line s) = I"
      using ld_push_line[OF inv] True len rem by auto
    define q where "q = (if newline then snd (bq_push (ld_push_line s) 0x0a) else ld_push_line s)"
    have q: "bq_wf q \<and> bq_list q = bq_list (ld_input s) @ line \<and> bq_cap q = I"
    proof (cases newline)
      case nl: True
      have "length (bq_list (ld_push_line s)) < bq_cap (ld_push_line s)"
        using True len nl p(3) i(5,6) unfolding p(2) by (simp add: ld_edit_def)
      from bytes.push_room[OF p(1) this, of "0x0a"] show ?thesis using p nl by (auto simp: q_def line_def)
    next
      case False
      then show ?thesis using p by (simp add: q_def line_def)
    qed
    let ?s = "s\<lparr>ld_input := q, ld_records := snd (rq_push (ld_records s) (length line)), ld_line_length := 0\<rparr>"
    have c: "ld_commit_line s newline = (True, ?s)"
      using True rem i(4) len by (auto simp: ld_commit_line_def Let_def q_def)
    have lt: "rq_length (ld_records s) < length (rq_lengths (ld_records s))" using True i(4) by simp
    note rp = rq_push_room[OF i(3) lt, of "length line"]
    have "ld_inv I L R ?s" using q rp i can bq_list_lengthD[of q] by (simp add: ld_inv_def)
    moreover have "ld_lines ?s = ld_lines s @ [line]"
      using q rp(1) split_by_append[of "rq_list (ld_records s)" "bq_list (ld_input s)" line] i(7)
      by (simp add: ld_lines_def)
    ultimately show ?thesis using True c by (auto simp: ld_edit_def)
  qed
qed

section \<open>Operations keep the invariant\<close>

lemma bq_clear_wf [simp]: "bq_wf (bq_clear q)" "bq_cap (bq_clear q) = bq_cap q" "bq_length (bq_clear q) = 0"
  by (auto simp: bq_clear_def bq_wf_def bq_cap_def)

lemma rq_clear_wf [simp]: "rq_wf (rq_clear q)" "rq_lengths (rq_clear q) = rq_lengths q" "rq_list (rq_clear q) = []"
  by (auto simp: rq_clear_def rq_wf_def rq_list_def)

lemma ld_flush_inv: "ld_inv I L R s \<Longrightarrow> ld_inv I L R (ld_flush_input s)"
  by (simp add: ld_inv_def ld_flush_input_def)

text \<open>The canonical branches of \<open>receive\<close>, for the byte after CR mapping.\<close>

lemma ld_receive_canonical:
  assumes can: "tm_canonical (ld_termios s)"
    and b: "(if tm_map_cr_to_nl (ld_termios s) \<and> b0 = 0x0d then 0x0a else b0) = b"
    and N: "(if tm_signals (ld_termios s) then ld_signal_of (ld_termios s) b else None) = None"
  shows "snd (snd (ld_receive s b0)) =
    (if b = tm_erase (ld_termios s) then s\<lparr>ld_line_length := ld_line_length s - 1\<rparr>
     else if b = tm_kill (ld_termios s) then s\<lparr>ld_line_length := 0\<rparr>
     else if b = tm_eof (ld_termios s) then snd (ld_commit_line s False)
     else if b = 0x0a then snd (ld_commit_line s True)
     else if ld_line_length s = length (ld_line s) \<or> length (ld_line s) = 0 then s
     else s\<lparr>ld_line := (ld_line s)[ld_line_length s := b],
            ld_line_length := ld_line_length s + 1\<rparr>)"
  unfolding ld_receive_def Let_def b N using can by (simp split: prod.split)

lemma ld_receive_inv:
  assumes inv: "ld_inv I L R s"
  shows "ld_inv I L R (snd (snd (ld_receive s b)))"
proof -
  let ?t = "ld_termios s" and ?b = "if tm_map_cr_to_nl (ld_termios s) \<and> b = 0x0d then 0x0a else b"
  show ?thesis
  proof (cases "if tm_signals ?t then ld_signal_of ?t ?b else None")
    case (Some sig)
    then show ?thesis using inv ld_flush_inv[OF inv] by (simp add: ld_receive_def Let_def)
  next
    case None
    show ?thesis
    proof (cases "tm_canonical ?t")
      case False
      have "bq_wf (ld_input s)" "bq_cap (ld_input s) = I" using inv by (simp_all add: ld_inv_def)
      then have "snd (snd (ld_receive s b)) = s \<or>
          (\<exists>q. bq_wf q \<and> bq_cap q = I \<and> snd (snd (ld_receive s b)) = s\<lparr>ld_input := q\<rparr>)"
        using None False bytes.bound[of "ld_input s"] bytes.push_full[of "ld_input s" ?b]
          bytes.push_room[of "ld_input s" ?b]
        by (cases "bq_length (ld_input s) = bq_cap (ld_input s)") (auto simp: ld_receive_def Let_def)
      then show ?thesis using inv False by (auto simp: ld_inv_def)
    next
      case can: True
      have c: "ld_inv I L R (snd (ld_commit_line s nl))" for nl
        using ld_commit_line[OF inv can, of nl] inv by (auto split: if_splits)
      note e = ld_receive_canonical[OF can refl None]
      have "ld_inv I L R (s\<lparr>ld_line_length := ld_line_length s - 1\<rparr>)"
        "ld_inv I L R (s\<lparr>ld_line_length := 0\<rparr>)"
        "ld_line_length s \<noteq> length (ld_line s) \<Longrightarrow>
           ld_inv I L R (s\<lparr>ld_line := (ld_line s)[ld_line_length s := x], ld_line_length := ld_line_length s + 1\<rparr>)"
        for x using inv can by (auto simp: ld_inv_def)
      then show ?thesis unfolding e using c[of True] c[of False] inv by (simp only: if_split) blast
    qed
  qed
qed

text \<open>\<open>read\<close> in canonical mode, on the lines.\<close>

lemma ld_read_canonical:
  assumes inv: "ld_inv I L R s" and can: "tm_canonical (ld_termios s)"
  shows "case ld_lines s of
      [] \<Rightarrow> ld_read s n = Some (Inl WouldBlock, s)
    | l # ls \<Rightarrow> \<exists>s'. ld_read s n = Some (Inr (take n l), s') \<and> ld_inv I L R s'
        \<and> ld_lines s' = (if length l \<le> n then ls else drop n l # ls)
        \<and> ld_edit s' = ld_edit s \<and> ld_termios s' = ld_termios s"
proof -
  have i: "bq_wf (ld_input s)" "bq_cap (ld_input s) = I" "rq_wf (ld_records s)"
    "length (rq_lengths (ld_records s)) = R"
    "sum_list (rq_list (ld_records s)) = bq_length (ld_input s)"
    using inv can by (simp_all add: ld_inv_def)
  note front = rq_front_list[OF i(3)] and cons = rq_consume_list[OF i(3)]
  show ?thesis
  proof (cases "rq_list (ld_records s)")
    case Nil
    then show ?thesis using can by (simp add: ld_read_def front ld_lines_def)
  next
    case (Cons m ms)
    let ?xs = "bq_list (ld_input s)"
    have sum: "m + sum_list ms = bq_length (ld_input s)" using i(5) Cons by simp
    then have m: "m \<le> length ?xs" by simp
    have lines: "ld_lines s = take m ?xs # split_by ms (drop m ?xs)" by (simp add: ld_lines_def Cons)
    let ?c = "min m n"
    have "?c \<le> length ?xs" using m by linarith
    from bytes.pop_block[OF i(1) this] obtain q where
      q: "pop_times bq_pop ?c (ld_input s) = Some (take ?c ?xs, q)" "bq_wf q"
         "bq_list q = drop ?c ?xs" "bq_cap q = I" using i(2) by auto
    let ?r = "rq_consume (ld_records s) ?c"
    have r: "rq_list ?r = (if ?c < m then (m - ?c) # ms else ms)" using cons(1)[of ?c] Cons by simp
    let ?s = "s\<lparr>ld_input := q, ld_records := ?r\<rparr>"
    have read: "ld_read s n = Some (Inr (take n (take m ?xs)), if m = 0 then s\<lparr>ld_records := rq_consume (ld_records s) 0\<rparr> else ?s)"
      using can Cons q(1) by (simp add: ld_read_def front Let_def min.commute)
    have ql: "bq_length q = bq_length (ld_input s) - ?c" using bq_list_lengthD[OF q(3)] by simp
    have "sum_list (rq_list ?r) = bq_length q" using r ql sum by (cases "m \<le> n") (simp_all add: min_def)
    then have "ld_inv I L R ?s" using inv can q(2,4) cons(2,3)[of ?c] by (simp add: ld_inv_def)
    moreover have "ld_lines ?s = (if m \<le> n then split_by ms (drop m ?xs)
        else drop n (take m ?xs) # split_by ms (drop m ?xs))"
      using r q(3) by (cases "m \<le> n") (simp_all add: ld_lines_def min_def drop_take)
    moreover have "m = 0 \<Longrightarrow> s\<lparr>ld_records := rq_consume (ld_records s) 0\<rparr> = ?s" using q(1) by simp
    ultimately have "ld_read s n = Some (Inr (take n (take m ?xs)), ?s) \<and> ld_inv I L R ?s
        \<and> ld_lines ?s = (if length (take m ?xs) \<le> n then split_by ms (drop m ?xs)
             else drop n (take m ?xs) # split_by ms (drop m ?xs))
        \<and> ld_edit ?s = ld_edit s \<and> ld_termios ?s = ld_termios s"
      using read m by (cases "m = 0") (simp_all add: ld_edit_def min_def)
    then show ?thesis unfolding lines list.case by (rule exI)
  qed
qed

lemma ld_read_inv:
  assumes inv: "ld_inv I L R s"
  shows "\<exists>r s'. ld_read s n = Some (r, s') \<and> ld_inv I L R s'"
proof (cases "tm_canonical (ld_termios s)")
  case True
  then show ?thesis using ld_read_canonical[OF inv True, of n] inv by (cases "ld_lines s") auto
next
  case False
  have i: "bq_wf (ld_input s)" "bq_cap (ld_input s) = I" using inv by (simp_all add: ld_inv_def)
  let ?c = "min (bq_length (ld_input s)) n"
  obtain q xs where q: "pop_times bq_pop ?c (ld_input s) = Some (xs, q)" "bq_wf q" "bq_cap q = I"
    using bytes.pop_block[OF i(1), of ?c] i(2) by auto
  then have "ld_inv I L R (s\<lparr>ld_input := q\<rparr>)" using inv False by (simp add: ld_inv_def)
  then show ?thesis using False q(1) inv by (auto simp: ld_read_def Let_def)
qed

lemma ld_set_termios_inv:
  assumes inv: "ld_inv I L R s"
  shows "ld_inv I L R (snd (ld_set_termios s t))"
proof (cases "tm_canonical (ld_termios s) \<and> \<not> tm_canonical t")
  case True
  show ?thesis
  proof (cases "bq_remaining (ld_input s) < ld_line_length s")
    case full: True
    then show ?thesis using inv True by (simp add: ld_set_termios_def)
  next
    case False
    then have p: "bq_wf (ld_push_line s)" "bq_cap (ld_push_line s) = I" using ld_push_line[OF inv] by simp_all
    then show ?thesis using inv True False by (simp add: ld_set_termios_def Let_def ld_inv_def)
  qed
next
  case False
  then show ?thesis using inv by (auto simp: ld_set_termios_def Let_def ld_inv_def)
qed

section \<open>The operations as a system\<close>

datatype ld_op = LdReceive u8 | LdRead nat | LdSetTermios termios | LdFlushInput

fun ld_step :: "ld_op \<Rightarrow> line_discipline \<Rightarrow> line_discipline option" where
  "ld_step (LdReceive b) s = Some (snd (snd (ld_receive s b)))"
| "ld_step (LdRead n) s = map_option snd (ld_read s n)"
| "ld_step (LdSetTermios t) s = Some (snd (ld_set_termios s t))"
| "ld_step LdFlushInput s = Some (ld_flush_input s)"

lemma ld_new_inv: "ld_inv I L R (ld_new I L R t)"
  by (auto simp: ld_inv_def ld_new_def bq_new_def rq_new_def bq_wf_def rq_wf_def bq_cap_def rq_list_def)

lemma ld_step_total:
  assumes "ld_inv I L R s"
  shows "\<exists>s'. ld_step a s = Some s' \<and> ld_inv I L R s'"
proof (cases a)
  case (LdRead n)
  then show ?thesis using ld_read_inv[OF assms, of n] by auto
qed (use assms in \<open>auto intro: ld_receive_inv ld_set_termios_inv ld_flush_inv\<close>)

interpretation line_disc: partial_transition_system "ld_new I L R t" ld_step "ld_inv I L R"
  by unfold_locales (rule ld_new_inv, rule ld_step_total)

section \<open>Editing\<close>

text \<open>
  The abstract editor: erase drops the last byte, kill empties the line, everything else is
  appended. \<open>ld_editing\<close> are the bytes that only edit: not signals, end of file or newline.
\<close>

definition edit_byte :: "termios \<Rightarrow> u8 \<Rightarrow> u8 list \<Rightarrow> u8 list" where
  "edit_byte t b l = (if b = tm_erase t then butlast l else if b = tm_kill t then [] else l @ [b])"

definition ld_editing :: "termios \<Rightarrow> u8 \<Rightarrow> bool" where
  "ld_editing t b \<longleftrightarrow>
     \<not> (tm_map_cr_to_nl t \<and> b = 0x0d) \<and> \<not> (tm_signals t \<and> ld_signal_of t b \<noteq> None)
     \<and> (b = tm_erase t \<or> b = tm_kill t \<or> b \<noteq> tm_eof t \<and> b \<noteq> 0x0a)"

definition ld_feed :: "u8 list \<Rightarrow> line_discipline \<Rightarrow> line_discipline" where
  "ld_feed bs s = fold (\<lambda>b s. snd (snd (ld_receive s b))) bs s"

lemma ld_receive_edit:
  assumes inv: "ld_inv I L R s" and can: "tm_canonical (ld_termios s)" and e: "ld_editing (ld_termios s) b"
    and room: "length (ld_edit s) < L"
  shows "ld_edit (snd (snd (ld_receive s b))) = edit_byte (ld_termios s) b (ld_edit s)"
    "ld_lines (snd (snd (ld_receive s b))) = ld_lines s"
    "ld_termios (snd (snd (ld_receive s b))) = ld_termios s"
proof -
  let ?t = "ld_termios s"
  have i: "length (ld_line s) = L" "ld_line_length s \<le> L" using inv by (simp_all add: ld_inv_def)
  then have ll: "ld_line_length s < L" using room by (simp add: ld_edit_def)
  have b: "(if tm_map_cr_to_nl ?t \<and> b = 0x0d then 0x0a else b) = b"
    and N: "(if tm_signals ?t then ld_signal_of ?t b else None) = None" using e by (auto simp: ld_editing_def)
  have r: "snd (snd (ld_receive s b)) =
      (if b = tm_erase ?t then s\<lparr>ld_line_length := ld_line_length s - 1\<rparr>
       else if b = tm_kill ?t then s\<lparr>ld_line_length := 0\<rparr>
       else s\<lparr>ld_line := (ld_line s)[ld_line_length s := b], ld_line_length := ld_line_length s + 1\<rparr>)"
    using ld_receive_canonical[OF can b N] e i ll by (auto simp: ld_editing_def)
  show "ld_edit (snd (snd (ld_receive s b))) = edit_byte ?t b (ld_edit s)"
    unfolding r using i ll
    by (auto simp: ld_edit_def edit_byte_def butlast_take take_Suc_conv_app_nth)
  show "ld_lines (snd (snd (ld_receive s b))) = ld_lines s"
    "ld_termios (snd (snd (ld_receive s b))) = ld_termios s"
    unfolding r by (simp_all add: ld_lines_def)
qed

lemma edit_byte_length: "length (edit_byte t b l) \<le> Suc (length l)"
  by (auto simp: edit_byte_def)

lemma ld_feed_edit:
  "ld_inv I L R s \<Longrightarrow> tm_canonical (ld_termios s) \<Longrightarrow> list_all (ld_editing (ld_termios s)) bs \<Longrightarrow>
   length (ld_edit s) + length bs \<le> L \<Longrightarrow>
   ld_inv I L R (ld_feed bs s) \<and> ld_edit (ld_feed bs s) = fold (edit_byte (ld_termios s)) bs (ld_edit s)
   \<and> ld_lines (ld_feed bs s) = ld_lines s \<and> ld_termios (ld_feed bs s) = ld_termios s"
proof (induction bs arbitrary: s)
  case (Cons b bs)
  let ?s = "snd (snd (ld_receive s b))"
  have r: "ld_edit ?s = edit_byte (ld_termios s) b (ld_edit s)" "ld_lines ?s = ld_lines s"
      "ld_termios ?s = ld_termios s"
    using ld_receive_edit[OF Cons.prems(1,2), of b] Cons.prems(3,4) by simp_all
  have "length (ld_edit ?s) + length bs \<le> L"
    using r(1) edit_byte_length[of "ld_termios s" b "ld_edit s"] Cons.prems(4) by simp
  then show ?case using Cons.IH[OF ld_receive_inv[OF Cons.prems(1)], of b] r Cons.prems
    by (simp add: ld_feed_def)
qed (simp add: ld_feed_def)

section \<open>Properties\<close>

text \<open>C33: No sequence of received bytes, reads, mode changes and flushes makes the line discipline
  panic (its \<open>expect\<close> calls never fail): both rings stay well-formed, in canonical mode the record
  lengths add up to the buffered input, and in raw mode no records and no edit line are pending.\<close>

theorem ld_never_panics:
  "\<exists>s. run_steps ld_step ops (ld_new I L R t) = Some s \<and> ld_inv I L R s"
  by (rule line_disc.run_reach)

text \<open>C31: Canonical \<open>read\<close> returns one committed line at a time: the first line cut to the caller's
  buffer, leaving its rest or the following lines; it blocks exactly when no line is committed.\<close>

theorem ld_read_one_line:
  assumes "ld_inv I L R s" and "tm_canonical (ld_termios s)"
  shows "case ld_lines s of
      [] \<Rightarrow> ld_read s n = Some (Inl WouldBlock, s)
    | l # ls \<Rightarrow> \<exists>s'. ld_read s n = Some (Inr (take n l), s')
        \<and> ld_lines s' = (if length l \<le> n then ls else drop n l # ls) \<and> ld_edit s' = ld_edit s"
  using ld_read_canonical[OF assms, of n] by (cases "ld_lines s") auto

text \<open>C29: What is typed is what is read. From a canonical terminal with nothing pending, typing
  any bytes that edit (erase and kill included) within the line bound and then newline makes a read
  return the edited line and the newline, cut to the reader's buffer.\<close>

theorem ld_typed_line_read:
  assumes inv: "ld_inv I L R s" and can: "tm_canonical (ld_termios s)"
    and empty: "ld_lines s = []" "ld_edit s = []" and R: "0 < R"
    and bs: "list_all (ld_editing (ld_termios s)) bs" "length bs \<le> L"
    and nl: "\<not> (tm_signals (ld_termios s) \<and> ld_signal_of (ld_termios s) 0x0a \<noteq> None)"
      "tm_erase (ld_termios s) \<noteq> 0x0a" "tm_kill (ld_termios s) \<noteq> 0x0a" "tm_eof (ld_termios s) \<noteq> 0x0a"
    and I: "length (fold (edit_byte (ld_termios s)) bs []) < I"
  shows "fst (ld_receive (ld_feed bs s) 0x0a) = RxLineReady
    \<and> (\<exists>s'. ld_read (ld_feed (bs @ [0x0a]) s) n =
          Some (Inr (take n (fold (edit_byte (ld_termios s)) bs [] @ [0x0a])), s'))"
proof -
  let ?t = "ld_termios s" and ?s = "ld_feed bs s"
  have f: "ld_inv I L R ?s" "ld_edit ?s = fold (edit_byte ?t) bs []" "ld_lines ?s = []" "ld_termios ?s = ?t"
    using ld_feed_edit[OF inv can bs(1)] bs(2) empty by simp_all
  have can': "tm_canonical (ld_termios ?s)" using can f(4) by simp
  have rec: "rq_list (ld_records ?s) = []" using f(3) by (simp add: ld_lines_def)
  have il: "bq_length (ld_input ?s) = 0" "rq_length (ld_records ?s) = 0"
    using f(1) can' rec rq_list_lengthD[OF rec] by (simp_all add: ld_inv_def)
  obtain s1 where c: "ld_commit_line ?s True = (True, s1)" "ld_inv I L R s1"
      "ld_lines s1 = [fold (edit_byte ?t) bs [] @ [0x0a]]" "ld_termios s1 = ?t"
    using ld_commit_line[OF f(1) can', of True] il I R f by auto
  have b: "(if tm_map_cr_to_nl ?t \<and> (0x0a::u8) = 0x0d then 0x0a else 0x0a) = (0x0a::u8)"
    and N: "(if tm_signals ?t then ld_signal_of ?t 0x0a else None) = None" using nl(1) by auto
  have rx: "ld_receive ?s 0x0a = (RxLineReady, (if tm_echo ?t then [[0x0d, 0x0a]] else []), s1)"
    unfolding ld_receive_def Let_def f(4) b N using can nl(2-4) c(1) by simp
  have s1: "ld_feed (bs @ [0x0a]) s = s1" using rx by (simp add: ld_feed_def)
  have "tm_canonical (ld_termios s1)" using c(4) can by simp
  from ld_read_canonical[OF c(2) this, of n] show ?thesis using c(3) rx unfolding s1 by auto
qed

definition ld_sample :: line_discipline where
  "ld_sample = \<lparr>ld_termios = tm_sane,
     ld_input = \<lparr>bq_bytes = [0x0a, 0, 0, 0x61], bq_head = 3, bq_length = 2\<rparr>,
     ld_records = \<lparr>rq_lengths = [0, 2], rq_head = 1, rq_length = 1\<rparr>,
     ld_line = [0x7a, 0, 0, 0], ld_line_length = 1\<rparr>"

lemma ld_sample_lines: "ld_lines ld_sample = [[0x61, 0x0a]]" and ld_sample_inv: "ld_inv 4 4 2 ld_sample"
  by (simp_all add: ld_sample_def ld_lines_def ld_inv_def bq_list_def rq_list_def ring_list_def bq_wf_def
      rq_wf_def bq_cap_def tm_sane_def numeral_2_eq_2)

theorem ld_read_one_line_witness:
  "\<exists>s'. ld_read ld_sample 1 = Some (Inr [0x61], s') \<and> ld_lines s' = [[0x0a]]"
proof -
  have "tm_canonical (ld_termios ld_sample)" by (simp add: ld_sample_def tm_sane_def)
  from ld_read_one_line[OF ld_sample_inv this, of 1] show ?thesis by (auto simp: ld_sample_lines)
qed

theorem ld_typed_line_read_witness:
  "\<exists>s'. ld_read (ld_feed ([0x6c, 0x78, 0x7f, 0x73] @ [0x0a]) (ld_new 16 8 2 tm_sane)) 8 =
     Some (Inr [0x6c, 0x73, 0x0a], s')"
proof -
  let ?s = "ld_new 16 8 2 tm_sane"
  have t: "ld_termios ?s = tm_sane" by (simp add: ld_new_def)
  have e: "ld_lines ?s = []" "ld_edit ?s = []" by (simp_all add: ld_lines_def ld_edit_def ld_new_def rq_new_def rq_list_def)
  have ed: "fold (edit_byte tm_sane) [0x6c, 0x78, 0x7f, 0x73] [] = [0x6c, 0x73]"
    by (simp add: edit_byte_def tm_sane_def)
  have "list_all (ld_editing (ld_termios ?s)) [0x6c, 0x78, 0x7f, 0x73]"
    unfolding t by (simp add: ld_editing_def ld_signal_of_def tm_sane_def)
  from ld_typed_line_read[OF ld_new_inv _ e _ this, of 8] show ?thesis
    unfolding t ed by (simp add: tm_sane_def ld_signal_of_def)
qed

text \<open>C40: Output post-processing: with \<open>OPOST | ONLCR\<close> the writes to the sink concatenate to the
  input with every newline replaced by carriage return and newline; without it they are the input.\<close>

theorem ld_write_output_spec:
  "concat (ld_write_output s bytes) =
     (if tm_output_crlf (ld_termios s)
      then concat (map (\<lambda>b. if b = 0x0a then [0x0d, 0x0a] else [b]) bytes)
      else bytes)"
proof -
  have "bytes = pre @ mid @ rest \<Longrightarrow> 0x0a \<notin> set mid \<Longrightarrow>
      concat (ld_output_loop bytes (length pre) (length pre + length mid) rest) =
      mid @ concat (map (\<lambda>b. if b = 0x0a then [0x0d, 0x0a] else [b]) rest)" for pre mid rest
  proof (induction rest arbitrary: pre mid)
    case Nil
    then show ?case by (cases mid) auto
  next
    case (Cons b rest)
    show ?case
    proof (cases "b = 0x0a")
      case True
      have "concat (ld_output_loop bytes (length pre + length mid + 1) (length pre + length mid + 1) rest) =
          concat (map (\<lambda>b. if b = 0x0a then [0x0d, 0x0a] else [b]) rest)"
        using Cons.IH[of "pre @ mid @ [b]" "[]"] Cons.prems by simp
      then show ?thesis using True Cons.prems by (cases mid) auto
    next
      case False
      then show ?thesis using Cons.IH[of pre "mid @ [b]"] Cons.prems by simp
    qed
  qed
  from this[of "[]" "[]" bytes] show ?thesis by (simp add: ld_write_output_def)
qed

end
