(* ===== verification/Ansi_Parser.thy ===== *)
theory Ansi_Parser
  imports Prelude
begin

text \<open>
  The ANSI/VT parser of \<open>src/crates/tty/src/lib.rs\<close>: the escape-sequence state machine, CSI
  parameters with saturating 16-bit arithmetic, dispatch, and graphic attributes. Bytes are 8-bit
  words, parameters \<^typ>\<open>nat\<close> up to 65535, signed deltas \<^typ>\<open>int\<close>. The backend is the list of
  calls made on it.
\<close>

section \<open>Model\<close>

datatype erase_display = EdCursorToEnd | EdStartToCursor | EdAll | EdScrollback

datatype erase_line = ElCursorToEnd | ElStartToCursor | ElAll

record attributes =
  at_bold :: bool
  at_dim :: bool
  at_italic :: bool
  at_underline :: bool
  at_blink :: bool
  at_reverse :: bool
  at_foreground :: "nat option"
  at_background :: "nat option"

definition at_default_terminal :: attributes where
  "at_default_terminal = \<lparr>at_bold = False, at_dim = False, at_italic = False, at_underline = False,
     at_blink = False, at_reverse = False, at_foreground = None, at_background = None\<rparr>"

datatype report = DeviceStatus | CursorPosition | PrimaryDeviceAttributes

text \<open>The calls of the trait \<open>TerminalBackend\<close>.\<close>

datatype term_call =
    PutByte u8
  | CarriageReturn
  | LineFeed
  | Backspace
  | Tab
  | Bell
  | MoveCursor nat nat
  | SetCursorColumn nat
  | MoveRelative int int
  | EraseDisplay erase_display
  | EraseLine erase_line
  | SetAttributes attributes
  | SetCursorVisible bool
  | UseAlternateScreen bool
  | SaveCursor
  | RestoreCursor
  | SetScrollRegion nat "nat option"
  | Scroll int
  | InsertBlank nat
  | DeleteCharacters nat
  | EraseCharacters nat
  | InsertLines nat
  | DeleteLines nat
  | SetApplicationCursorKeys bool
  | SetApplicationKeypad bool
  | SetAutoWrap bool
  | SetBracketedPaste bool
  | SetInsertMode bool
  | RequestReport report
  | ResetTerminal

definition PARAMETER_CAPACITY :: nat where
  "PARAMETER_CAPACITY = 16"

datatype parser_state =
    PsGround | PsEscape | PsCsi | PsIgnoreCsi | PsOsc | PsOscEscape | PsControlString
  | PsControlStringEscape

record ansi_parser =
  ap_state :: parser_state
  ap_parameters :: "nat list"
  ap_parameter_count :: nat
  ap_value_started :: bool
  ap_private :: bool
  ap_attributes :: attributes

definition ap_new :: ansi_parser where
  "ap_new = \<lparr>ap_state = PsGround, ap_parameters = replicate PARAMETER_CAPACITY 0,
     ap_parameter_count = 0, ap_value_started = False, ap_private = False,
     ap_attributes = at_default_terminal\<rparr>"

definition ap_start_csi :: "ansi_parser \<Rightarrow> ansi_parser" where
  "ap_start_csi p = p\<lparr>ap_state := PsCsi, ap_parameters := replicate PARAMETER_CAPACITY 0,
     ap_parameter_count := 1, ap_value_started := False, ap_private := False\<rparr>"

definition ap_parameter :: "ansi_parser \<Rightarrow> nat \<Rightarrow> nat \<Rightarrow> nat" where
  "ap_parameter p index default_value =
     (if index < length (ap_parameters p) \<and> ap_parameters p ! index \<noteq> 0
      then ap_parameters p ! index else default_value)"

definition u16_sat_mul :: "nat \<Rightarrow> nat \<Rightarrow> nat" where
  "u16_sat_mul a b = min (a * b) 65535"

definition u16_sat_add :: "nat \<Rightarrow> nat \<Rightarrow> nat" where
  "u16_sat_add a b = min (a + b) 65535"

text \<open>One SGR parameter.\<close>

definition ap_sgr :: "nat \<Rightarrow> attributes \<Rightarrow> attributes" where
  "ap_sgr v a =
     (if v = 0 then at_default_terminal
      else if v = 1 then a\<lparr>at_bold := True\<rparr>
      else if v = 2 then a\<lparr>at_dim := True\<rparr>
      else if v = 3 then a\<lparr>at_italic := True\<rparr>
      else if v = 4 then a\<lparr>at_underline := True\<rparr>
      else if v = 5 then a\<lparr>at_blink := True\<rparr>
      else if v = 7 then a\<lparr>at_reverse := True\<rparr>
      else if v = 22 then a\<lparr>at_bold := False, at_dim := False\<rparr>
      else if v = 23 then a\<lparr>at_italic := False\<rparr>
      else if v = 24 then a\<lparr>at_underline := False\<rparr>
      else if v = 25 then a\<lparr>at_blink := False\<rparr>
      else if v = 27 then a\<lparr>at_reverse := False\<rparr>
      else if 30 \<le> v \<and> v \<le> 37 then a\<lparr>at_foreground := Some (v - 30)\<rparr>
      else if v = 39 then a\<lparr>at_foreground := None\<rparr>
      else if 40 \<le> v \<and> v \<le> 47 then a\<lparr>at_background := Some (v - 40)\<rparr>
      else if v = 49 then a\<lparr>at_background := None\<rparr>
      else if 90 \<le> v \<and> v \<le> 97 then a\<lparr>at_foreground := Some (v - 90 + 8)\<rparr>
      else if 100 \<le> v \<and> v \<le> 107 then a\<lparr>at_background := Some (v - 100 + 8)\<rparr>
      else a)"

definition ap_dispatch_sgr :: "ansi_parser \<Rightarrow> ansi_parser \<times> term_call list" where
  "ap_dispatch_sgr p =
     (let a = fold ap_sgr (take (ap_parameter_count p) (ap_parameters p)) (ap_attributes p)
      in (p\<lparr>ap_attributes := a\<rparr>, [SetAttributes a]))"

definition ap_private_mode :: "bool \<Rightarrow> nat \<Rightarrow> term_call list" where
  "ap_private_mode enabled mode =
     (if mode = 1 then [SetApplicationCursorKeys enabled]
      else if mode = 7 then [SetAutoWrap enabled]
      else if mode = 25 then [SetCursorVisible enabled]
      else if mode = 47 \<or> mode = 1047 \<or> mode = 1049 then [UseAlternateScreen enabled]
      else if mode = 2004 then [SetBracketedPaste enabled]
      else [])"

definition ap_dispatch_csi :: "ansi_parser \<Rightarrow> u8 \<Rightarrow> ansi_parser \<times> term_call list" where
  "ap_dispatch_csi p final_byte =
     (if ap_private p then
        (p, if final_byte = 0x68 \<or> final_byte = 0x6c
            then concat (map (ap_private_mode (final_byte = 0x68))
                   (take (ap_parameter_count p) (ap_parameters p)))
            else [])
      else
        (let amount = int (min (ap_parameter p 0 1) 32767);
             p0 = ap_parameters p ! 0
         in if final_byte = 0x41 then (p, [MoveRelative (- amount) 0])
            else if final_byte = 0x42 then (p, [MoveRelative amount 0])
            else if final_byte = 0x43 then (p, [MoveRelative 0 amount])
            else if final_byte = 0x44 then (p, [MoveRelative 0 (- amount)])
            else if final_byte = 0x45 then (p, [MoveRelative amount 0, CarriageReturn])
            else if final_byte = 0x46 then (p, [MoveRelative (- amount) 0, CarriageReturn])
            else if final_byte = 0x47 \<or> final_byte = 0x60 then
              (p, [SetCursorColumn (ap_parameter p 0 1 - 1)])
            else if final_byte = 0x48 \<or> final_byte = 0x66 then
              (p, [MoveCursor (ap_parameter p 0 1 - 1) (ap_parameter p 1 1 - 1)])
            else if final_byte = 0x4a then
              (p, [EraseDisplay (if p0 = 1 then EdStartToCursor else if p0 = 2 then EdAll
                                 else if p0 = 3 then EdScrollback else EdCursorToEnd)])
            else if final_byte = 0x4b then
              (p, [EraseLine (if p0 = 1 then ElStartToCursor else if p0 = 2 then ElAll
                              else ElCursorToEnd)])
            else if final_byte = 0x40 then (p, [InsertBlank (ap_parameter p 0 1)])
            else if final_byte = 0x4c then (p, [InsertLines (ap_parameter p 0 1)])
            else if final_byte = 0x4d then (p, [DeleteLines (ap_parameter p 0 1)])
            else if final_byte = 0x50 then (p, [DeleteCharacters (ap_parameter p 0 1)])
            else if final_byte = 0x58 then (p, [EraseCharacters (ap_parameter p 0 1)])
            else if final_byte = 0x6d then ap_dispatch_sgr p
            else if final_byte = 0x73 then (p, [SaveCursor])
            else if final_byte = 0x75 then (p, [RestoreCursor])
            else if final_byte = 0x72 then
              (p, [SetScrollRegion (ap_parameter p 0 1 - 1)
                     (if 1 < length (ap_parameters p) \<and> ap_parameters p ! 1 \<noteq> 0
                      then Some (ap_parameters p ! 1 - 1) else None)])
            else if final_byte = 0x53 then (p, [Scroll amount])
            else if final_byte = 0x54 then (p, [Scroll (- amount)])
            else if final_byte = 0x68 \<or> final_byte = 0x6c then
              (p, concat (map (\<lambda>mode. if mode = 4 then [SetInsertMode (final_byte = 0x68)] else [])
                    (take (ap_parameter_count p) (ap_parameters p))))
            else if final_byte = 0x6e then
              (p, if p0 = 5 then [RequestReport DeviceStatus]
                  else if p0 = 6 then [RequestReport CursorPosition] else [])
            else if final_byte = 0x63 then (p, [RequestReport PrimaryDeviceAttributes])
            else (p, [])))"

definition ap_advance_csi :: "ansi_parser \<Rightarrow> u8 \<Rightarrow> ansi_parser \<times> term_call list" where
  "ap_advance_csi p byte =
     (if byte = 0x3f \<and> \<not> ap_value_started p \<and> ap_parameter_count p = 1
      then (p\<lparr>ap_private := True\<rparr>, [])
      else if 0x30 \<le> byte \<and> byte \<le> 0x39 then
        (let index = ap_parameter_count p - 1;
             digit = unat (byte - 0x30)
         in (p\<lparr>ap_value_started := True,
               ap_parameters := (ap_parameters p)[index :=
                 u16_sat_add (u16_sat_mul (ap_parameters p ! index) 10) digit]\<rparr>, []))
      else if byte = 0x3b then
        (if ap_parameter_count p = PARAMETER_CAPACITY then (p\<lparr>ap_state := PsIgnoreCsi\<rparr>, [])
         else (p\<lparr>ap_parameter_count := ap_parameter_count p + 1, ap_value_started := False\<rparr>, []))
      else if 0x40 \<le> byte \<and> byte \<le> 0x7e then
        (let (p1, calls) = ap_dispatch_csi p byte in (p1\<lparr>ap_state := PsGround\<rparr>, calls))
      else if byte = 0x1b then (p\<lparr>ap_state := PsEscape\<rparr>, [])
      else (p\<lparr>ap_state := PsIgnoreCsi\<rparr>, []))"

definition ap_ground :: "ansi_parser \<Rightarrow> u8 \<Rightarrow> ansi_parser \<times> term_call list" where
  "ap_ground p byte =
     (if byte = 0x1b then (p\<lparr>ap_state := PsEscape\<rparr>, [])
      else if byte = 0x0d then (p, [CarriageReturn])
      else if byte = 0x0a \<or> byte = 0x0b \<or> byte = 0x0c then (p, [LineFeed])
      else if byte = 0x08 then (p, [Backspace])
      else if byte = 0x09 then (p, [Tab])
      else if byte = 0x07 then (p, [Bell])
      else if 0x20 \<le> byte then (p, [PutByte byte])
      else (p, []))"

definition ap_escape :: "ansi_parser \<Rightarrow> u8 \<Rightarrow> ansi_parser \<times> term_call list" where
  "ap_escape p0 byte =
     (let p = p0\<lparr>ap_state := PsGround\<rparr>
      in if byte = 0x5b then (ap_start_csi p, [])
         else if byte = 0x5d then (p\<lparr>ap_state := PsOsc\<rparr>, [])
         else if byte = 0x50 \<or> byte = 0x5e \<or> byte = 0x5f then (p\<lparr>ap_state := PsControlString\<rparr>, [])
         else if byte = 0x37 then (p, [SaveCursor])
         else if byte = 0x38 then (p, [RestoreCursor])
         else if byte = 0x3d then (p, [SetApplicationKeypad True])
         else if byte = 0x3e then (p, [SetApplicationKeypad False])
         else if byte = 0x44 then (p, [MoveRelative 1 0])
         else if byte = 0x45 then (p, [MoveRelative 1 0, CarriageReturn])
         else if byte = 0x4d then (p, [Scroll (- 1)])
         else if byte = 0x63 then (p\<lparr>ap_attributes := at_default_terminal\<rparr>, [ResetTerminal])
         else if byte = 0x1b then (p\<lparr>ap_state := PsEscape\<rparr>, [])
         else (p, []))"

definition ap_advance_byte :: "ansi_parser \<Rightarrow> u8 \<Rightarrow> ansi_parser \<times> term_call list" where
  "ap_advance_byte p byte =
     (case ap_state p of
        PsGround \<Rightarrow> ap_ground p byte
      | PsEscape \<Rightarrow> ap_escape p byte
      | PsCsi \<Rightarrow> ap_advance_csi p byte
      | PsIgnoreCsi \<Rightarrow>
          if 0x40 \<le> byte \<and> byte \<le> 0x7e then (p\<lparr>ap_state := PsGround\<rparr>, [])
          else if byte = 0x1b then (p\<lparr>ap_state := PsEscape\<rparr>, []) else (p, [])
      | PsOsc \<Rightarrow>
          if byte = 0x07 then (p\<lparr>ap_state := PsGround\<rparr>, [])
          else if byte = 0x1b then (p\<lparr>ap_state := PsOscEscape\<rparr>, []) else (p, [])
      | PsOscEscape \<Rightarrow>
          if byte = 0x5c then (p\<lparr>ap_state := PsGround\<rparr>, [])
          else if byte \<noteq> 0x1b then (p\<lparr>ap_state := PsOsc\<rparr>, []) else (p, [])
      | PsControlString \<Rightarrow>
          if byte = 0x1b then (p\<lparr>ap_state := PsControlStringEscape\<rparr>, []) else (p, [])
      | PsControlStringEscape \<Rightarrow>
          if byte = 0x5c then (p\<lparr>ap_state := PsGround\<rparr>, [])
          else if byte \<noteq> 0x1b then (p\<lparr>ap_state := PsControlString\<rparr>, []) else (p, []))"

fun ap_advance :: "ansi_parser \<Rightarrow> u8 list \<Rightarrow> ansi_parser \<times> term_call list" where
  "ap_advance p [] = (p, [])"
| "ap_advance p (b # bytes) =
     (let (p1, calls1) = ap_advance_byte p b;
          (p2, calls2) = ap_advance p1 bytes
      in (p2, calls1 @ calls2))"

section \<open>Bounds\<close>

text \<open>Palette indices are 0 to 15, coordinates and counts 16-bit, deltas within \<open>i16\<close>.\<close>

definition at_ok :: "attributes \<Rightarrow> bool" where
  "at_ok a \<longleftrightarrow> (case at_foreground a of None \<Rightarrow> True | Some c \<Rightarrow> c < 16)
     \<and> (case at_background a of None \<Rightarrow> True | Some c \<Rightarrow> c < 16)"

fun call_ok :: "term_call \<Rightarrow> bool" where
  "call_ok (MoveCursor r c) \<longleftrightarrow> r < 65535 \<and> c < 65535"
| "call_ok (SetCursorColumn c) \<longleftrightarrow> c < 65535"
| "call_ok (MoveRelative r c) \<longleftrightarrow> \<bar>r\<bar> \<le> 32767 \<and> \<bar>c\<bar> \<le> 32767"
| "call_ok (SetAttributes a) \<longleftrightarrow> at_ok a"
| "call_ok (SetScrollRegion t b) \<longleftrightarrow> t < 65535 \<and> (case b of None \<Rightarrow> True | Some x \<Rightarrow> x < 65535)"
| "call_ok (Scroll n) \<longleftrightarrow> \<bar>n\<bar> \<le> 32767"
| "call_ok (InsertBlank n) \<longleftrightarrow> 0 < n \<and> n \<le> 65535"
| "call_ok (DeleteCharacters n) \<longleftrightarrow> 0 < n \<and> n \<le> 65535"
| "call_ok (EraseCharacters n) \<longleftrightarrow> 0 < n \<and> n \<le> 65535"
| "call_ok (InsertLines n) \<longleftrightarrow> 0 < n \<and> n \<le> 65535"
| "call_ok (DeleteLines n) \<longleftrightarrow> 0 < n \<and> n \<le> 65535"
| "call_ok _ \<longleftrightarrow> True"

definition ap_ok :: "ansi_parser \<Rightarrow> bool" where
  "ap_ok p \<longleftrightarrow> length (ap_parameters p) = 16 \<and> list_all (\<lambda>v. v \<le> 65535) (ap_parameters p)
     \<and> ap_parameter_count p \<le> 16 \<and> (ap_state p = PsCsi \<longrightarrow> 1 \<le> ap_parameter_count p)
     \<and> at_ok (ap_attributes p)"

lemma at_ok_default: "at_ok at_default_terminal"
  by (simp add: at_ok_def at_default_terminal_def)

lemma at_ok_sgr: "at_ok a \<Longrightarrow> at_ok (ap_sgr v a)"
  unfolding ap_sgr_def using at_ok_default by (auto simp: at_ok_def split: option.splits)

lemma at_ok_fold_sgr: "at_ok a \<Longrightarrow> at_ok (fold ap_sgr vs a)"
  by (induction vs arbitrary: a) (simp_all add: at_ok_sgr)

lemma ap_parameter_bounds:
  "ap_ok p \<Longrightarrow> 0 < ap_parameter p i 1 \<and> ap_parameter p i 1 \<le> 65535"
  by (auto simp: ap_ok_def ap_parameter_def list_all_length)

lemma ap_private_mode_ok: "list_all call_ok (ap_private_mode e m)"
  by (simp add: ap_private_mode_def)

text \<open>A step is fine when parser and calls are; branches are checked one by one.\<close>

definition step_ok :: "ansi_parser \<times> term_call list \<Rightarrow> bool" where
  "step_ok r \<longleftrightarrow> ap_ok (fst r) \<and> list_all call_ok (snd r)"

lemma step_ok_pair: "ap_ok p \<Longrightarrow> list_all call_ok cs \<Longrightarrow> step_ok (p, cs)"
  by (simp add: step_ok_def)

lemma step_ok_if: "(c \<Longrightarrow> step_ok x) \<Longrightarrow> (\<not> c \<Longrightarrow> step_ok y) \<Longrightarrow> step_ok (if c then x else y)"
  by simp

lemma ap_dispatch_sgr_ok: "ap_ok p \<Longrightarrow> step_ok (ap_dispatch_sgr p)"
  using at_ok_fold_sgr[of "ap_attributes p"] by (simp add: step_ok_def ap_ok_def ap_dispatch_sgr_def Let_def)

lemma list_all_concat_map: "(\<And>x. list_all P (f x)) \<Longrightarrow> list_all P (concat (map f xs))"
  by (induction xs) simp_all

lemma ap_dispatch_csi_ok:
  assumes ok: "ap_ok p"
  shows "step_ok (ap_dispatch_csi p b)"
proof -
  have c1: "ap_parameter p 0 1 - 1 < 65535" "ap_parameter p 1 1 - 1 < 65535"
    using ap_parameter_bounds[OF ok, of 0] ap_parameter_bounds[OF ok, of 1] by linarith+
  have r: "1 < length (ap_parameters p) \<and> ap_parameters p ! 1 \<noteq> 0 \<Longrightarrow> ap_parameters p ! 1 - 1 < 65535"
    using ok by (auto simp: ap_ok_def list_all_length dest: spec[of _ 1])
  have m: "list_all call_ok (if c then concat (map (ap_private_mode e) xs) else [])" for c e and xs :: "nat list"
    by (simp add: list_all_concat_map ap_private_mode_ok)
  have i: "list_all call_ok (concat (map (\<lambda>mode. if mode = 4 then [SetInsertMode e] else []) xs))" for e and xs :: "nat list"
    by (rule list_all_concat_map) simp
  show ?thesis
    unfolding ap_dispatch_csi_def Let_def
    by (intro step_ok_if step_ok_pair ap_dispatch_sgr_ok ok i m)
      (use ap_parameter_bounds[OF ok, of 0] c1 r in \<open>simp_all\<close>)
qed

lemma ap_ok_state: "ap_ok p \<Longrightarrow> st \<noteq> PsCsi \<Longrightarrow> ap_ok (p\<lparr>ap_state := st\<rparr>)"
  by (simp add: ap_ok_def)

lemma ap_advance_csi_ok:
  assumes ok: "ap_ok p" and csi: "ap_state p = PsCsi"
  shows "step_ok (ap_advance_csi p b)"
proof -
  have d: "step_ok (let (p1, calls) = ap_dispatch_csi p b in (p1\<lparr>ap_state := PsGround\<rparr>, calls))"
    using ap_dispatch_csi_ok[OF ok, of b] by (auto simp: step_ok_def ap_ok_state split: prod.split)
  have u: "ap_ok (p\<lparr>ap_value_started := True, ap_parameters := (ap_parameters p)[k := u16_sat_add x y]\<rparr>)" for k x y
    using ok by (simp add: ap_ok_def u16_sat_add_def list_all_update)
  have n: "ap_parameter_count p \<noteq> PARAMETER_CAPACITY \<Longrightarrow>
      ap_ok (p\<lparr>ap_parameter_count := ap_parameter_count p + 1, ap_value_started := False\<rparr>)"
    using ok by (simp add: ap_ok_def PARAMETER_CAPACITY_def)
  have pr: "ap_ok (p\<lparr>ap_private := True\<rparr>)" using ok by (simp add: ap_ok_def)
  show ?thesis unfolding ap_advance_csi_def
    by (intro step_ok_if d) (use u n pr ok in \<open>simp_all add: step_ok_def ap_ok_state Let_def\<close>)
qed

lemma ap_advance_byte_ok:
  assumes ok: "ap_ok p"
  shows "step_ok (ap_advance_byte p b)"
proof (cases "ap_state p")
  case PsGround
  then show ?thesis unfolding ap_advance_byte_def ap_ground_def parser_state.case
    by (simp only: parser_state.case, intro step_ok_if step_ok_pair) (simp_all add: ok ap_ok_state)
next
  case PsEscape
  have g: "ap_ok (p\<lparr>ap_state := PsGround\<rparr>)" using ok by (simp add: ap_ok_state)
  have s: "ap_ok (ap_start_csi (p\<lparr>ap_state := PsGround\<rparr>))"
    using ok by (simp add: ap_ok_def ap_start_csi_def PARAMETER_CAPACITY_def list_all_iff)
  have a: "ap_ok (p\<lparr>ap_state := PsGround, ap_attributes := at_default_terminal\<rparr>)"
    using ok at_ok_default by (simp add: ap_ok_def)
  show ?thesis unfolding ap_advance_byte_def PsEscape parser_state.case ap_escape_def Let_def
    by (intro step_ok_if step_ok_pair) (simp_all add: g s a ok ap_ok_state)
next
  case PsCsi
  then show ?thesis using ap_advance_csi_ok[OF ok] by (simp add: ap_advance_byte_def)
qed (use ok in \<open>simp_all add: ap_advance_byte_def step_ok_def ap_ok_state\<close>)

lemma ap_advance_ok: "ap_ok p \<Longrightarrow> step_ok (ap_advance p bytes)"
proof (induction bytes arbitrary: p)
  case Nil
  then show ?case by (simp add: step_ok_def)
next
  case (Cons b bytes)
  obtain p1 c1 where 1: "ap_advance_byte p b = (p1, c1)" by force
  then have "ap_ok p1" "list_all call_ok c1" using ap_advance_byte_ok[OF Cons.prems, of b] by (simp_all add: step_ok_def)
  then show ?case using Cons.IH[of p1] by (auto simp: 1 step_ok_def Let_def split: prod.splits)
qed

lemma ap_new_ok: "ap_ok ap_new"
  by (simp add: ap_ok_def ap_new_def PARAMETER_CAPACITY_def list_all_iff at_ok_default)

text \<open>The parser as a state machine over bytes.\<close>

interpretation ansi: transition_system ap_new "\<lambda>b p. fst (ap_advance_byte p b)" ap_ok
  by unfold_locales (use ap_new_ok ap_advance_byte_ok in \<open>auto simp: step_ok_def\<close>)

section \<open>Decimal parameters\<close>

fun dec_digits :: "nat \<Rightarrow> u8 list" where
  "dec_digits n = (if n < 10 then [0x30 + of_nat n] else dec_digits (n div 10) @ [0x30 + of_nat (n mod 10)])"

declare dec_digits.simps [simp del]

lemma digit_byte:
  assumes "d < 10"
  shows "(0x30 + of_nat d :: u8) \<noteq> 0x3f" "0x30 \<le> (0x30 + of_nat d :: u8)" "(0x30 + of_nat d :: u8) \<le> 0x39"
    "unat ((0x30 + of_nat d :: u8) - 0x30) = d"
proof -
  have "d \<in> {0, 1, 2, 3, 4, 5, 6, 7, 8, 9}" using assms by auto
  then show "(0x30 + of_nat d :: u8) \<noteq> 0x3f" "0x30 \<le> (0x30 + of_nat d :: u8)" "(0x30 + of_nat d :: u8) \<le> 0x39"
    "unat ((0x30 + of_nat d :: u8) - 0x30) = d" by auto
qed

lemma ap_advance_append:
  "ap_advance p (xs @ ys) =
     (let (p1, c1) = ap_advance p xs; (p2, c2) = ap_advance p1 ys in (p2, c1 @ c2))"
  by (induction xs arbitrary: p) (auto simp: Let_def split: prod.splits)

lemma ap_advance_then:
  "ap_advance p xs = (p1, []) \<Longrightarrow> ap_advance p (xs @ ys) = ap_advance p1 ys"
  by (simp add: ap_advance_append)

definition ap_set_param :: "ansi_parser \<Rightarrow> nat \<Rightarrow> ansi_parser" where
  "ap_set_param p n = p\<lparr>ap_value_started := True,
     ap_parameters := (ap_parameters p)[ap_parameter_count p - 1 := n]\<rparr>"

lemma ap_advance_digit:
  assumes "ap_state p = PsCsi" "d < 10"
  shows "ap_advance_byte p (0x30 + of_nat d) =
    (ap_set_param p (u16_sat_add (u16_sat_mul (ap_parameters p ! (ap_parameter_count p - 1)) 10) d), [])"
  using assms digit_byte[OF assms(2)]
  by (simp add: ap_advance_byte_def ap_advance_csi_def ap_set_param_def Let_def)

lemma ap_advance_dec:
  "ap_state p = PsCsi \<Longrightarrow> ap_parameter_count p - 1 < length (ap_parameters p) \<Longrightarrow>
   ap_parameters p ! (ap_parameter_count p - 1) = 0 \<Longrightarrow> n \<le> 65535 \<Longrightarrow>
   ap_advance p (dec_digits n) = (ap_set_param p n, [])"
proof (induction n rule: dec_digits.induct)
  case (1 n)
  show ?case
  proof (cases "n < 10")
    case True
    then show ?thesis using ap_advance_digit[OF 1(2) True] 1(4)
      by (simp add: dec_digits.simps[of n] u16_sat_add_def u16_sat_mul_def)
  next
    case False
    have IH: "ap_advance p (dec_digits (n div 10)) = (ap_set_param p (n div 10), [])"
      using 1(1)[OF False 1(2-4)] 1(5) by linarith
    let ?p = "ap_set_param p (n div 10)"
    have p: "ap_state ?p = PsCsi" "ap_parameters ?p ! (ap_parameter_count ?p - 1) = n div 10"
      using 1(2,3) by (simp_all add: ap_set_param_def)
    have "u16_sat_add (u16_sat_mul (n div 10) 10) (n mod 10) = n"
      using 1(5) unfolding u16_sat_add_def u16_sat_mul_def min_def by presburger
    then have "ap_advance_byte ?p (0x30 + of_nat (n mod 10)) = (ap_set_param p n, [])"
      using ap_advance_digit[OF p(1), of "n mod 10"] p(2) by (simp add: ap_set_param_def)
    then show ?thesis using False IH by (simp add: dec_digits.simps[of n] ap_advance_append)
  qed
qed

section \<open>Properties\<close>

text \<open>C35: Whatever bytes arrive, in whatever chunks, the parser stays within its bounds: at most 16
  parameters of 16 bits, and every backend call has palette indices below 16, deltas within
  \<open>i16\<close>, zero-based 16-bit coordinates and positive counts (the one-based conversions never
  underflow).\<close>

theorem ap_bounded: "step_ok (ap_advance ap_new bytes)"
  by (rule ap_advance_ok) (rule ap_new_ok)

text \<open>C36: The cursor-position sequence round trips: from the ground state, \<open>ESC [ r ; c H\<close> with
  decimal row and column between 1 and 65535 makes exactly one call, to move the cursor to the
  zero-based position, and leaves the parser in the ground state with its attributes.\<close>

theorem ap_cursor_position_roundtrip:
  assumes "ap_state p = PsGround" "1 \<le> r" "r \<le> 65535" "1 \<le> c" "c \<le> 65535"
  shows "\<exists>p'. ap_advance p ([0x1b, 0x5b] @ dec_digits r @ [0x3b] @ dec_digits c @ [0x48]) =
      (p', [MoveCursor (r - 1) (c - 1)]) \<and> ap_state p' = PsGround \<and> ap_attributes p' = ap_attributes p"
proof -
  let ?p1 = "ap_start_csi (p\<lparr>ap_state := PsGround\<rparr>)"
  have 1: "ap_advance p [0x1b, 0x5b] = (?p1, [])"
    using assms(1) by (simp add: ap_advance_byte_def ap_ground_def ap_escape_def Let_def)
  have s1: "ap_state ?p1 = PsCsi" "ap_parameter_count ?p1 = 1" "ap_parameters ?p1 = replicate 16 0"
    "\<not> ap_private ?p1" by (simp_all add: ap_start_csi_def PARAMETER_CAPACITY_def)
  let ?p2 = "ap_set_param ?p1 r"
  have 2: "ap_advance ?p1 (dec_digits r) = (?p2, [])"
    using ap_advance_dec[OF s1(1)] s1 assms by simp
  let ?p3 = "?p2\<lparr>ap_parameter_count := 2, ap_value_started := False\<rparr>"
  have 3: "ap_advance ?p2 [0x3b] = (?p3, [])"
    using s1 by (simp add: ap_advance_byte_def ap_advance_csi_def ap_set_param_def PARAMETER_CAPACITY_def eval_nat_numeral(3)[symmetric] numeral_2_eq_2[symmetric])
  have s3: "ap_state ?p3 = PsCsi" "ap_parameters ?p3 = (replicate 16 0)[0 := r]"
    using s1 by (simp_all add: ap_set_param_def)
  let ?p4 = "ap_set_param ?p3 c"
  have 4: "ap_advance ?p3 (dec_digits c) = (?p4, [])"
    using ap_advance_dec[OF s3(1)] s3(2) assms by simp
  have s4: "ap_state ?p4 = PsCsi" "ap_parameters ?p4 = (replicate 16 0)[0 := r, 1 := c]" "\<not> ap_private ?p4"
    "ap_attributes ?p4 = ap_attributes p"
    using s3 s1(4) by (simp_all add: ap_set_param_def ap_start_csi_def)
  have "ap_advance ?p4 [0x48] = (?p4\<lparr>ap_state := PsGround\<rparr>, [MoveCursor (r - 1) (c - 1)])"
    using s4 assms by (simp add: ap_advance_byte_def ap_advance_csi_def ap_dispatch_csi_def ap_parameter_def Let_def)
  then show ?thesis
    unfolding ap_advance_then[OF 1] ap_advance_then[OF 2] ap_advance_then[OF 3] ap_advance_then[OF 4]
    using s4(4) by simp
qed

theorem ap_cursor_position_roundtrip_witness:
  "\<exists>p'. ap_advance ap_new ([0x1b, 0x5b] @ dec_digits 24 @ [0x3b] @ dec_digits 80 @ [0x48]) =
      (p', [MoveCursor 23 79])"
  using ap_cursor_position_roundtrip[of ap_new 24 80] by (auto simp: ap_new_def)

end
