(* ===== verification/Ipc.thy ===== *)
theory Ipc
  imports Prelude
begin

text \<open>
  The typed IPC core, \<open>crates/ipc/src/lib.rs\<close>: wire messages, rights, generation-tagged
  handles, reference-counted channel and service objects, bounded message and
  pending-connection queues, service routing and the unreachable-object collector. Every
  public operation and every helper is here, in the order of the source; a failing
  operation is \<open>Inl\<close> with the state it leaves behind, since some of them may already have
  collected garbage. The const generics \<open>H\<close> and \<open>O\<close> are the lengths of the tables.
  The recursion of \<open>release_object\<close> through queued transfers and pending connections, and
  the marking loop of the collector, are total functions with termination proofs.
\<close>

section \<open>Wire messages\<close>

definition WIRE_VERSION :: u8 where "WIRE_VERSION = 1"
definition MESSAGE_WIRE_SIZE :: nat where "MESSAGE_WIRE_SIZE = 64"
definition MESSAGE_PAYLOAD_SIZE :: nat where "MESSAGE_PAYLOAD_SIZE = 52"
definition CHANNEL_QUEUE_CAPACITY :: nat where "CHANNEL_QUEUE_CAPACITY = 16"
definition SERVICE_REGISTRY_CAPACITY :: nat where "SERVICE_REGISTRY_CAPACITY = 8"
definition SERVICE_NAME_CAPACITY :: nat where "SERVICE_NAME_CAPACITY = 31"
definition SERVICE_PENDING_CAPACITY :: nat where "SERVICE_PENDING_CAPACITY = 8"

record identity =
  id_pid :: u32w
  id_uid :: u32w
  id_session :: u64w

datatype ipc_error =
    MalformedMessage | InvalidName | InvalidRights | InvalidHandle | StaleHandle | AccessDenied
  | MissingRight | ExcessiveRights | WrongObjectType | HandleTableFull | ObjectTableFull
  | QueueFull | QueueEmpty | PeerClosed | DuplicateService | ServiceTableFull | ServiceNotFound
  | PendingQueueFull | PendingQueueEmpty | RoutingDenied | RefcountOverflow

record wire_message =
  wm_version :: u8
  wm_length :: u8
  wm_message_type :: u16w
  wm_sender_pid :: u32w
  wm_sender_uid :: u32w
  wm_payload :: "u8 list"

definition WIRE_EMPTY :: wire_message where
  "WIRE_EMPTY = \<lparr>wm_version = WIRE_VERSION, wm_length = 0, wm_message_type = 0, wm_sender_pid = 0,
     wm_sender_uid = 0, wm_payload = replicate MESSAGE_PAYLOAD_SIZE 0\<rparr>"

definition wm_new :: "u16w \<Rightarrow> u8 list \<Rightarrow> (ipc_error, wire_message) result" where
  "wm_new message_type payload =
     (if length payload > MESSAGE_PAYLOAD_SIZE then Inl MalformedMessage
      else Inr (WIRE_EMPTY\<lparr>wm_message_type := message_type, wm_length := of_nat (length payload),
             wm_payload := payload @ drop (length payload) (wm_payload WIRE_EMPTY)\<rparr>))"

definition wm_from_bytes :: "u8 list \<Rightarrow> (ipc_error, wire_message) result" where
  "wm_from_bytes bytes =
     (if bytes ! 0 \<noteq> WIRE_VERSION \<or> unat (bytes ! 1) > MESSAGE_PAYLOAD_SIZE then Inl MalformedMessage
      else Inr \<lparr>wm_version = bytes ! 0, wm_length = bytes ! 1,
             wm_message_type = from_le_bytes (take 2 (drop 2 bytes)),
             wm_sender_pid = from_le_bytes (take 4 (drop 4 bytes)),
             wm_sender_uid = from_le_bytes (take 4 (drop 8 bytes)),
             wm_payload = drop 12 bytes\<rparr>)"

definition wm_to_bytes :: "wire_message \<Rightarrow> u8 list" where
  "wm_to_bytes m =
     [wm_version m, wm_length m] @ to_le_bytes 2 (wm_message_type m) @ to_le_bytes 4 (wm_sender_pid m)
     @ to_le_bytes 4 (wm_sender_uid m) @ wm_payload m"

definition wm_payload_bytes :: "wire_message \<Rightarrow> u8 list" where
  "wm_payload_bytes m = take (unat (wm_length m)) (wm_payload m)"

definition wm_is_valid :: "wire_message \<Rightarrow> bool" where
  "wm_is_valid m \<longleftrightarrow> wm_version m = WIRE_VERSION \<and> unat (wm_length m) \<le> MESSAGE_PAYLOAD_SIZE"

definition wm_stamp_sender :: "wire_message \<Rightarrow> identity \<Rightarrow> wire_message" where
  "wm_stamp_sender m sender = m\<lparr>wm_sender_pid := id_pid sender, wm_sender_uid := id_uid sender\<rparr>"

section \<open>Rights and handles\<close>

type_synonym rights = u8

definition RIGHTS_NONE :: rights where "RIGHTS_NONE = 0"
definition RIGHTS_SEND :: rights where "RIGHTS_SEND = push_bit 0 1"
definition RIGHTS_RECEIVE :: rights where "RIGHTS_RECEIVE = push_bit 1 1"
definition RIGHTS_TRANSFER :: rights where "RIGHTS_TRANSFER = push_bit 2 1"
definition RIGHTS_ACCEPT :: rights where "RIGHTS_ACCEPT = push_bit 3 1"
definition CHANNEL_ALL :: rights where
  "CHANNEL_ALL = RIGHTS_SEND OR RIGHTS_RECEIVE OR RIGHTS_TRANSFER"

definition rights_from_bits :: "u8 \<Rightarrow> rights option" where
  "rights_from_bits b = (if b AND NOT 0x0f = 0 then Some b else None)"

definition rights_contains :: "rights \<Rightarrow> rights \<Rightarrow> bool" where
  "rights_contains r required \<longleftrightarrow> r AND required = required"

definition rights_is_empty :: "rights \<Rightarrow> bool" where
  "rights_is_empty r \<longleftrightarrow> r = 0"

definition rights_union :: "rights \<Rightarrow> rights \<Rightarrow> rights" where
  "rights_union a b = a OR b"

record handle =
  hd_slot :: nat
  hd_generation :: nat

record transfer =
  tr_handle :: handle
  tr_rights :: rights

record received_message =
  rm_message :: wire_message
  rm_transferred :: "handle option"

record cleanup_stats =
  cs_handles_closed :: nat
  cs_services_removed :: nat

record object_ref =
  or_slot :: nat
  or_generation :: nat

section \<open>Queues\<close>

record queued_transfer =
  qt_object :: object_ref
  qt_rights :: rights

record queued_message =
  qm_message :: wire_message
  qm_transfer :: "queued_transfer option"

definition QUEUED_EMPTY :: queued_message where
  "QUEUED_EMPTY = \<lparr>qm_message = WIRE_EMPTY, qm_transfer = None\<rparr>"

record message_queue =
  mq_entries :: "queued_message list"
  mq_head :: nat
  mq_len :: nat

definition MQ_EMPTY :: message_queue where
  "MQ_EMPTY = \<lparr>mq_entries = replicate CHANNEL_QUEUE_CAPACITY QUEUED_EMPTY, mq_head = 0, mq_len = 0\<rparr>"

definition mq_push :: "message_queue \<Rightarrow> queued_message \<Rightarrow> (ipc_error, unit) result \<times> message_queue" where
  "mq_push q m =
     (if mq_len q = CHANNEL_QUEUE_CAPACITY then (Inl QueueFull, q)
      else (let tail = (mq_head q + mq_len q) mod CHANNEL_QUEUE_CAPACITY
            in (Inr (), q\<lparr>mq_entries := (mq_entries q)[tail := m], mq_len := mq_len q + 1\<rparr>)))"

definition mq_front :: "message_queue \<Rightarrow> (ipc_error, queued_message) result" where
  "mq_front q = (if mq_len q = 0 then Inl QueueEmpty else Inr (mq_entries q ! mq_head q))"

definition mq_pop :: "message_queue \<Rightarrow> (ipc_error, queued_message) result \<times> message_queue" where
  "mq_pop q =
     (case mq_front q of
        Inl e \<Rightarrow> (Inl e, q)
      | Inr m \<Rightarrow> (Inr m, q\<lparr>mq_entries := (mq_entries q)[mq_head q := QUEUED_EMPTY],
                    mq_head := (mq_head q + 1) mod CHANNEL_QUEUE_CAPACITY, mq_len := mq_len q - 1\<rparr>))"

record pending_connection =
  pc_endpoint :: object_ref
  pc_rights :: rights

definition PENDING_EMPTY :: pending_connection where
  "PENDING_EMPTY = \<lparr>pc_endpoint = \<lparr>or_slot = 0, or_generation = 0\<rparr>, pc_rights = RIGHTS_NONE\<rparr>"

record pending_queue =
  pq_entries :: "pending_connection list"
  pq_head :: nat
  pq_len :: nat

definition PQ_EMPTY :: pending_queue where
  "PQ_EMPTY = \<lparr>pq_entries = replicate SERVICE_PENDING_CAPACITY PENDING_EMPTY, pq_head = 0, pq_len = 0\<rparr>"

definition pq_push :: "pending_queue \<Rightarrow> pending_connection \<Rightarrow> (ipc_error, unit) result \<times> pending_queue" where
  "pq_push q c =
     (if pq_len q = SERVICE_PENDING_CAPACITY then (Inl PendingQueueFull, q)
      else (let tail = (pq_head q + pq_len q) mod SERVICE_PENDING_CAPACITY
            in (Inr (), q\<lparr>pq_entries := (pq_entries q)[tail := c], pq_len := pq_len q + 1\<rparr>)))"

definition pq_pop :: "pending_queue \<Rightarrow> (ipc_error, pending_connection) result \<times> pending_queue" where
  "pq_pop q =
     (if pq_len q = 0 then (Inl PendingQueueEmpty, q)
      else (Inr (pq_entries q ! pq_head q),
            q\<lparr>pq_entries := (pq_entries q)[pq_head q := PENDING_EMPTY],
              pq_head := (pq_head q + 1) mod SERVICE_PENDING_CAPACITY, pq_len := pq_len q - 1\<rparr>))"

text \<open>\<open>while let Ok(..) = queue.pop()\<close> on a local copy: the popped elements in order.\<close>

lemma mq_pop_len: "mq_pop q = (Inr m, q') \<Longrightarrow> mq_len q' < mq_len q"
  by (auto simp: mq_pop_def mq_front_def split: sum.splits if_splits)

lemma pq_pop_len: "pq_pop q = (Inr m, q') \<Longrightarrow> pq_len q' < pq_len q"
  by (auto simp: pq_pop_def split: if_splits)

function mq_drain :: "message_queue \<Rightarrow> queued_message list" where
  "mq_drain q = (case mq_pop q of (Inl _, _) \<Rightarrow> [] | (Inr m, q') \<Rightarrow> m # mq_drain q')"
  by pat_completeness auto
termination by (relation "measure mq_len") (auto dest: mq_pop_len[OF sym])

function pq_drain :: "pending_queue \<Rightarrow> pending_connection list" where
  "pq_drain q = (case pq_pop q of (Inl _, _) \<Rightarrow> [] | (Inr c, q') \<Rightarrow> c # pq_drain q')"
  by pat_completeness auto
termination by (relation "measure pq_len") (auto dest: pq_pop_len[OF sym])

declare mq_drain.simps [simp del] pq_drain.simps [simp del]

section \<open>Tables\<close>

record channel_object =
  ch_peer :: "object_ref option"
  ch_queue :: message_queue

datatype object_kind = KFree | KChannel channel_object | KService (registry_slot: nat)

record object_slot =
  os_generation :: nat
  os_references :: nat
  os_kind :: object_kind

definition OBJECT_EMPTY :: object_slot where
  "OBJECT_EMPTY = \<lparr>os_generation = 0, os_references = 0, os_kind = KFree\<rparr>"

record handle_slot =
  hs_generation :: nat
  hs_occupied :: bool
  hs_owner :: identity
  hs_object :: object_ref
  hs_rights :: rights

definition HANDLE_EMPTY :: handle_slot where
  "HANDLE_EMPTY = \<lparr>hs_generation = 0, hs_occupied = False,
     hs_owner = \<lparr>id_pid = 0, id_uid = 0, id_session = 0\<rparr>,
     hs_object = \<lparr>or_slot = 0, or_generation = 0\<rparr>, hs_rights = RIGHTS_NONE\<rparr>"

record service_entry =
  se_occupied :: bool
  se_name :: "u8 list"
  se_name_len :: u8
  se_provider :: identity
  se_pending :: pending_queue

definition SERVICE_EMPTY :: service_entry where
  "SERVICE_EMPTY = \<lparr>se_occupied = False, se_name = replicate SERVICE_NAME_CAPACITY 0, se_name_len = 0,
     se_provider = \<lparr>id_pid = 0, id_uid = 0, id_session = 0\<rparr>, se_pending = PQ_EMPTY\<rparr>"

definition se_name_matches :: "service_entry \<Rightarrow> u8 list \<Rightarrow> bool" where
  "se_name_matches e name \<longleftrightarrow>
     se_occupied e \<and> unat (se_name_len e) = length name \<and> take (length name) (se_name e) = name"

record ipc_core =
  ip_handles :: "handle_slot list"
  ip_objects :: "object_slot list"
  ip_services :: "service_entry list"

definition ipc_new :: "nat \<Rightarrow> nat \<Rightarrow> ipc_core" where
  "ipc_new nh no = \<lparr>ip_handles = replicate nh HANDLE_EMPTY, ip_objects = replicate no OBJECT_EMPTY,
     ip_services = replicate SERVICE_REGISTRY_CAPACITY SERVICE_EMPTY\<rparr>"

definition next_generation :: "nat \<Rightarrow> nat" where
  "next_generation current = (let next = wrapping_add current 1 in if next = 0 then 1 else next)"

text \<open>Point updates \<open>self.objects[slot].kind = ..\<close>, \<open>self.objects[slot].references = ..\<close>.\<close>

definition set_kind :: "nat \<Rightarrow> object_kind \<Rightarrow> ipc_core \<Rightarrow> ipc_core" where
  "set_kind slot kind c = c\<lparr>ip_objects := (ip_objects c)[slot := (ip_objects c ! slot)\<lparr>os_kind := kind\<rparr>]\<rparr>"

definition set_references :: "nat \<Rightarrow> nat \<Rightarrow> ipc_core \<Rightarrow> ipc_core" where
  "set_references slot n c =
     c\<lparr>ip_objects := (ip_objects c)[slot := (ip_objects c ! slot)\<lparr>os_references := n\<rparr>]\<rparr>"

section \<open>Lookups and checks\<close>

definition ipc_service_count :: "ipc_core \<Rightarrow> nat" where
  "ipc_service_count c = count_if se_occupied (ip_services c)"

definition ipc_validate_name :: "u8 list \<Rightarrow> (ipc_error, unit) result" where
  "ipc_validate_name name =
     (if name = [] \<or> length name > SERVICE_NAME_CAPACITY \<or> list_ex (\<lambda>b. b = 0) name
      then Inl InvalidName else Inr ())"

definition ipc_validate_channel_rights :: "rights \<Rightarrow> (ipc_error, unit) result" where
  "ipc_validate_channel_rights r =
     (if rights_is_empty r \<or> \<not> rights_contains CHANNEL_ALL r then Inl InvalidRights else Inr ())"

definition ipc_require_right :: "rights \<Rightarrow> rights \<Rightarrow> (ipc_error, unit) result" where
  "ipc_require_right held required =
     (if rights_contains held required then Inr () else Inl MissingRight)"

definition ipc_find_service :: "ipc_core \<Rightarrow> u8 list \<Rightarrow> nat option" where
  "ipc_find_service c name = position (\<lambda>e. se_name_matches e name) (ip_services c)"

definition ipc_resolve_object :: "ipc_core \<Rightarrow> object_ref \<Rightarrow> (ipc_error, object_slot) result" where
  "ipc_resolve_object c object =
     (if or_slot object < length (ip_objects c) then
        (let slot = ip_objects c ! or_slot object
         in if os_generation slot \<noteq> or_generation object \<or> os_kind slot = KFree
            then Inl StaleHandle else Inr slot)
      else Inl StaleHandle)"

definition ipc_resolve_handle :: "ipc_core \<Rightarrow> identity \<Rightarrow> handle \<Rightarrow> (ipc_error, handle_slot) result" where
  "ipc_resolve_handle c owner h =
     (if hd_slot h < length (ip_handles c) then
        (let slot = ip_handles c ! hd_slot h
         in if \<not> hs_occupied slot \<or> hs_generation slot \<noteq> hd_generation h then Inl StaleHandle
            else if hs_owner slot \<noteq> owner then Inl AccessDenied
            else (case ipc_resolve_object c (hs_object slot) of Inl e \<Rightarrow> Inl e | Inr _ \<Rightarrow> Inr slot))
      else Inl InvalidHandle)"

definition ipc_object_ref_is_live :: "ipc_core \<Rightarrow> object_ref \<Rightarrow> bool" where
  "ipc_object_ref_is_live c object \<longleftrightarrow>
     or_slot object < length (ip_objects c)
     \<and> os_generation (ip_objects c ! or_slot object) = or_generation object
     \<and> os_kind (ip_objects c ! or_slot object) \<noteq> KFree"

definition ipc_free_handle_count :: "ipc_core \<Rightarrow> nat" where
  "ipc_free_handle_count c = count_if (\<lambda>s. \<not> hs_occupied s) (ip_handles c)"

definition ipc_free_object_count :: "ipc_core \<Rightarrow> nat" where
  "ipc_free_object_count c = count_if (\<lambda>s. os_kind s = KFree) (ip_objects c)"

section \<open>Object lifetime\<close>

definition ipc_allocate_object ::
  "ipc_core \<Rightarrow> object_kind \<Rightarrow> (ipc_error, object_ref) result \<times> ipc_core" where
  "ipc_allocate_object c kind =
     (case position (\<lambda>s. os_kind s = KFree) (ip_objects c) of
        None \<Rightarrow> (Inl ObjectTableFull, c)
      | Some slot \<Rightarrow>
          (let generation = next_generation (os_generation (ip_objects c ! slot))
           in (Inr \<lparr>or_slot = slot, or_generation = generation\<rparr>,
               c\<lparr>ip_objects := (ip_objects c)[slot :=
                 \<lparr>os_generation = generation, os_references = 0, os_kind = kind\<rparr>]\<rparr>)))"

definition ipc_retain_object :: "ipc_core \<Rightarrow> object_ref \<Rightarrow> (ipc_error, unit) result \<times> ipc_core" where
  "ipc_retain_object c object =
     (case ipc_resolve_object c object of
        Inl e \<Rightarrow> (Inl e, c)
      | Inr slot \<Rightarrow>
          (case checked_add (os_references slot) 1 of
             None \<Rightarrow> (Inl RefcountOverflow, c)
           | Some n \<Rightarrow> (Inr (), set_references (or_slot object) n c)))"

definition ipc_install_handle ::
  "ipc_core \<Rightarrow> identity \<Rightarrow> object_ref \<Rightarrow> rights \<Rightarrow> bool \<Rightarrow> (ipc_error, handle) result \<times> ipc_core" where
  "ipc_install_handle c owner object r retain =
     (case position (\<lambda>s. \<not> hs_occupied s) (ip_handles c) of
        None \<Rightarrow> (Inl HandleTableFull, c)
      | Some slot \<Rightarrow>
          (case ipc_resolve_object c object of
             Inl e \<Rightarrow> (Inl e, c)
           | Inr _ \<Rightarrow>
               (case (if retain then ipc_retain_object c object else (Inr (), c)) of
                  (Inl e, c1) \<Rightarrow> (Inl e, c1)
                | (Inr _, c1) \<Rightarrow>
                    (let generation = next_generation (hs_generation (ip_handles c1 ! slot))
                     in (Inr \<lparr>hd_slot = slot, hd_generation = generation\<rparr>,
                         c1\<lparr>ip_handles := (ip_handles c1)[slot :=
                           \<lparr>hs_generation = generation, hs_occupied = True, hs_owner = owner,
                             hs_object = object, hs_rights = r\<rparr>]\<rparr>)))))"

definition ipc_set_channel_peer :: "ipc_core \<Rightarrow> object_ref \<Rightarrow> object_ref option \<Rightarrow> ipc_core" where
  "ipc_set_channel_peer c object peer =
     (case os_kind (ip_objects c ! or_slot object) of
        KChannel ch \<Rightarrow> set_kind (or_slot object) (KChannel (ch\<lparr>ch_peer := peer\<rparr>)) c
      | _ \<Rightarrow> c)"

text \<open>Detaching the peer of a channel that is going away.\<close>

definition ipc_unlink_peer :: "ipc_core \<Rightarrow> object_ref \<Rightarrow> channel_object \<Rightarrow> ipc_core" where
  "ipc_unlink_peer c object ch =
     (case ch_peer ch of
        None \<Rightarrow> c
      | Some peer \<Rightarrow>
          (case ipc_resolve_object c peer of
             Inl _ \<Rightarrow> c
           | Inr peer_slot \<Rightarrow>
               (case os_kind peer_slot of
                  KChannel peer_channel \<Rightarrow>
                    if ch_peer peer_channel = Some object
                    then set_kind (or_slot peer) (KChannel (peer_channel\<lparr>ch_peer := None\<rparr>)) c
                    else c
                | _ \<Rightarrow> c)))"

definition qm_refs :: "queued_message \<Rightarrow> (object_ref \<times> rights) list" where
  "qm_refs m = (case qm_transfer m of None \<Rightarrow> [] | Some t \<Rightarrow> [(qt_object t, qt_rights t)])"

definition pc_ref :: "pending_connection \<Rightarrow> object_ref \<times> rights" where
  "pc_ref p = (pc_endpoint p, pc_rights p)"

text \<open>
  \<open>release_object\<close> frees an object whose last reference goes, and then releases what its
  queue or its pending connections refer to; \<open>ipc_release_each\<close> is the body of these loops.
\<close>

definition live_objects :: "ipc_core \<Rightarrow> nat" where
  "live_objects c = count_if (\<lambda>s. os_kind s \<noteq> KFree) (ip_objects c)"

function ipc_release_object :: "ipc_core \<Rightarrow> object_ref \<Rightarrow> ipc_core"
  and ipc_remove_service :: "ipc_core \<Rightarrow> nat \<Rightarrow> ipc_core"
  and ipc_release_each :: "ipc_core \<Rightarrow> object_ref list \<Rightarrow> ipc_core" where
  "ipc_release_object c object =
     (case ipc_resolve_object c object of
        Inl _ \<Rightarrow> c
      | Inr slot \<Rightarrow>
          if os_references slot = 0 then c
          else (let c1 = set_references (or_slot object) (os_references slot - 1) c
                in if os_references slot - 1 \<noteq> 0 then c1
                   else (let c2 = set_kind (or_slot object) KFree c1
                         in case os_kind slot of
                              KFree \<Rightarrow> c2
                            | KService r \<Rightarrow> ipc_remove_service c2 r
                            | KChannel ch \<Rightarrow>
                                ipc_release_each (ipc_unlink_peer c2 object ch)
                                  (map fst (concat (map qm_refs (mq_drain (ch_queue ch))))))))"
| "ipc_remove_service c r =
     (if SERVICE_REGISTRY_CAPACITY \<le> r \<or> \<not> se_occupied (ip_services c ! r) then c
      else (let entry = ip_services c ! r
            in ipc_release_each (c\<lparr>ip_services := (ip_services c)[r := SERVICE_EMPTY]\<rparr>)
                 (map pc_endpoint (pq_drain (se_pending entry)))))"
| "ipc_release_each c [] = c"
| "ipc_release_each c (object # rest) = ipc_release_each (ipc_release_object c object) rest"
  by pat_completeness auto


lemma set_kind_simps [simp]:
  "ip_handles (set_kind i k c) = ip_handles c" "ip_services (set_kind i k c) = ip_services c"
  "length (ip_objects (set_kind i k c)) = length (ip_objects c)"
  "ip_objects (set_kind i k c) ! j =
     (if i = j \<and> j < length (ip_objects c) then (ip_objects c ! j)\<lparr>os_kind := k\<rparr> else ip_objects c ! j)"
  by (simp_all add: set_kind_def nth_upd)

lemma set_references_simps [simp]:
  "ip_handles (set_references i n c) = ip_handles c" "ip_services (set_references i n c) = ip_services c"
  "length (ip_objects (set_references i n c)) = length (ip_objects c)"
  "ip_objects (set_references i n c) ! j =
     (if i = j \<and> j < length (ip_objects c) then (ip_objects c ! j)\<lparr>os_references := n\<rparr> else ip_objects c ! j)"
  by (simp_all add: set_references_def nth_upd)

lemma live_objects_set_kind:
  "slot < length (ip_objects c) \<Longrightarrow>
   live_objects (set_kind slot kind c) + (if os_kind (ip_objects c ! slot) \<noteq> KFree then 1 else 0) =
   live_objects c + (if kind \<noteq> KFree then 1 else 0)"
  using count_if_update[of slot "ip_objects c" "\<lambda>s. os_kind s \<noteq> KFree" "(ip_objects c ! slot)\<lparr>os_kind := kind\<rparr>"]
  by (simp add: live_objects_def set_kind_def)

lemma live_objects_set_references [simp]: "live_objects (set_references slot n c) = live_objects c"
proof (cases "slot < length (ip_objects c)")
  case True
  then show ?thesis
    using count_if_update[OF True, of "\<lambda>s. os_kind s \<noteq> KFree" "(ip_objects c ! slot)\<lparr>os_references := n\<rparr>"]
    by (simp add: live_objects_def set_references_def split: if_splits)
qed (simp add: live_objects_def set_references_def list_update_beyond)

lemma ipc_resolve_object_Inr:
  "ipc_resolve_object c object = Inr slot \<longleftrightarrow>
     ipc_object_ref_is_live c object \<and> slot = ip_objects c ! or_slot object"
  by (auto simp: ipc_resolve_object_def ipc_object_ref_is_live_def Let_def)

lemma live_objects_unlink_peer [simp]: "live_objects (ipc_unlink_peer c object ch) = live_objects c"
proof -
  have "live_objects (set_kind (or_slot peer) (KChannel (pc\<lparr>ch_peer := None\<rparr>)) c) = live_objects c"
    if "ipc_object_ref_is_live c peer" for peer pc
    using that live_objects_set_kind[of "or_slot peer" c "KChannel (pc\<lparr>ch_peer := None\<rparr>)"]
    by (simp add: ipc_object_ref_is_live_def)
  then show ?thesis
    by (auto simp: ipc_unlink_peer_def ipc_resolve_object_Inr split: option.splits sum.splits object_kind.splits)
qed

lemma live_objects_free:
  assumes "ipc_object_ref_is_live c object"
  shows "live_objects (set_kind (or_slot object) KFree (set_references (or_slot object) n c)) < live_objects c"
  using assms live_objects_set_kind[of "or_slot object" "set_references (or_slot object) n c" KFree]
  by (simp add: ipc_object_ref_is_live_def)

lemma live_objects_services [simp]: "live_objects (c\<lparr>ip_services := x\<rparr>) = live_objects c"
  by (simp add: live_objects_def)

text \<open>No release brings an object to life; with this the nested recursion terminates.\<close>

lemma live_objects_release_partial:
  "ipc_release_object_ipc_remove_service_ipc_release_each_dom (Inl (c, object)) \<Longrightarrow>
     live_objects (ipc_release_object c object) \<le> live_objects c"
  "ipc_release_object_ipc_remove_service_ipc_release_each_dom (Inr (Inl (c, r))) \<Longrightarrow>
     live_objects (ipc_remove_service c r) \<le> live_objects c"
  "ipc_release_object_ipc_remove_service_ipc_release_each_dom (Inr (Inr (c, os))) \<Longrightarrow>
     live_objects (ipc_release_each c os) \<le> live_objects c"
proof (induction c object and c r and c os
    rule: ipc_release_object_ipc_remove_service_ipc_release_each.pinduct)
  case (1 c object)
  show ?case
  proof (cases "ipc_resolve_object c object")
    case (Inl e)
    then show ?thesis by (simp add: ipc_release_object.psimps[OF 1(1)])
  next
    case (Inr slot)
    then have live: "ipc_object_ref_is_live c object" by (simp add: ipc_resolve_object_Inr)
    let ?c2 = "set_kind (or_slot object) KFree (set_references (or_slot object) 0 c)"
    have free: "live_objects ?c2 < live_objects c" by (rule live_objects_free[OF live])
    have svc: "live_objects (ipc_remove_service ?c2 r) \<le> live_objects ?c2"
      if "os_references slot = 1" "os_kind slot = KService r" for r
      using 1(3)[OF Inr _ refl _ refl that(2)] that(1) by simp
    have chan: "live_objects (ipc_release_each (ipc_unlink_peer ?c2 object ch)
        (map fst (concat (map qm_refs (mq_drain (ch_queue ch)))))) \<le> live_objects ?c2"
      if "os_references slot = 1" "os_kind slot = KChannel ch" for ch
      using 1(2)[OF Inr _ refl _ refl that(2)] that(1) by simp
    consider "os_references slot = 0" | "os_references slot = 1" | "1 < os_references slot" by linarith
    then show ?thesis
      using free svc chan
      by cases (auto simp: ipc_release_object.psimps[OF 1(1)] Inr Let_def split: object_kind.split
          dest: order_le_less_trans)
  qed
next
  case (2 c r)
  then show ?case by (auto simp: ipc_remove_service.psimps[OF 2(1)] Let_def)
next
  case (3 c)
  then show ?case by (simp add: ipc_release_each.psimps)
next
  case (4 c object rest)
  then show ?case by (simp add: ipc_release_each.psimps)
qed

termination ipc_release_object
proof (relation "inv_image (less_than <*lex*> less_than <*lex*> less_than)
    (\<lambda>x. case x of Inl (c, _) \<Rightarrow> (live_objects c, 0, 0) | Inr (Inl (c, _)) \<Rightarrow> (live_objects c, 2, 0)
       | Inr (Inr (c, os)) \<Rightarrow> (live_objects c, 1, length os))")
  show "wf (inv_image (less_than <*lex*> less_than <*lex*> less_than)
    (\<lambda>x. case x of Inl (c, _) \<Rightarrow> (live_objects c, 0, 0) | Inr (Inl (c, _)) \<Rightarrow> (live_objects c, 2, 0)
       | Inr (Inr (c, os)) \<Rightarrow> (live_objects c, 1, length os)))"
    by (intro wf_inv_image wf_lex_prod wf_less_than)
qed (use live_objects_free live_objects_release_partial(1) in
    \<open>auto simp: ipc_resolve_object_Inr order_le_less\<close>)

declare ipc_release_object.simps [simp del] ipc_remove_service.simps [simp del]

section \<open>The collector\<close>

text \<open>
  \<open>collect_unreachable_objects\<close>: mark from the occupied handles, follow queued transfers and
  pending connections until nothing changes, free the rest, drop dead peers and recount.
  The reachable array has one flag per object, so the index test of \<open>mark_ref\<close> is the
  bound of that array.
\<close>

definition collect_roots :: "ipc_core \<Rightarrow> bool list" where
  "collect_roots c =
     fold (\<lambda>h reachable. if hs_occupied h \<and> ipc_object_ref_is_live c (hs_object h)
                         then reachable[or_slot (hs_object h) := True] else reachable)
       (ip_handles c) (replicate (length (ip_objects c)) False)"

definition mark_ref :: "ipc_core \<Rightarrow> object_ref \<Rightarrow> bool list \<times> bool \<Rightarrow> bool list \<times> bool" where
  "mark_ref c object acc =
     (case acc of (reachable, changed) \<Rightarrow>
        if ipc_object_ref_is_live c object \<and> or_slot object < length reachable \<and> \<not> reachable ! or_slot object
        then (reachable[or_slot object := True], True) else (reachable, changed))"

definition mark_slot :: "ipc_core \<Rightarrow> nat \<Rightarrow> bool list \<times> bool \<Rightarrow> bool list \<times> bool" where
  "mark_slot c slot acc =
     (if \<not> fst acc ! slot then acc
      else case os_kind (ip_objects c ! slot) of
        KFree \<Rightarrow> acc
      | KService r \<Rightarrow>
          if SERVICE_REGISTRY_CAPACITY \<le> r \<or> \<not> se_occupied (ip_services c ! r) then acc
          else (let pending = se_pending (ip_services c ! r)
                in fold (\<lambda>offset. mark_ref c (pc_endpoint
                           (pq_entries pending ! ((pq_head pending + offset) mod SERVICE_PENDING_CAPACITY))))
                     [0..<pq_len pending] acc)
      | KChannel ch \<Rightarrow>
          fold (\<lambda>offset a. case qm_transfer (mq_entries (ch_queue ch) !
                               ((mq_head (ch_queue ch) + offset) mod CHANNEL_QUEUE_CAPACITY)) of
                   Some t \<Rightarrow> mark_ref c (qt_object t) a
                 | None \<Rightarrow> a)
            [0..<mq_len (ch_queue ch)] acc)"

definition mark_pass :: "ipc_core \<Rightarrow> bool list \<Rightarrow> bool list \<times> bool" where
  "mark_pass c reachable = fold (mark_slot c) [0..<length (ip_objects c)] (reachable, False)"

text \<open>A pass only sets flags, and reports a change exactly when it set one.\<close>

definition mark_grows :: "bool list \<times> bool \<Rightarrow> bool list \<times> bool \<Rightarrow> bool" where
  "mark_grows a b \<longleftrightarrow> length (fst b) = length (fst a)
     \<and> count_if Not (fst b) \<le> count_if Not (fst a)
     \<and> (\<forall>i < length (fst a). fst a ! i \<longrightarrow> fst b ! i)
     \<and> (if fst b = fst a then snd b = snd a else snd b \<and> count_if Not (fst b) < count_if Not (fst a))"

lemma mark_grows_refl [simp]: "mark_grows a a"
  by (simp add: mark_grows_def)

lemma mark_grows_trans: "mark_grows a b \<Longrightarrow> mark_grows b d \<Longrightarrow> mark_grows a d"
  by (auto simp: mark_grows_def split: if_splits)

lemma mark_grows_ref: "mark_grows a (mark_ref c object a)"
proof (cases a)
  case (Pair reachable changed)
  show ?thesis
  proof (cases "ipc_object_ref_is_live c object \<and> or_slot object < length reachable \<and> \<not> reachable ! or_slot object")
    case True
    then have "reachable[or_slot object := True] ! or_slot object" by simp
    then have "reachable[or_slot object := True] \<noteq> reachable" using True by metis
    then show ?thesis
      using True Pair count_if_update[of "or_slot object" reachable Not True]
      by (simp add: mark_ref_def mark_grows_def nth_upd)
  next
    case False
    then have "mark_ref c object a = a" by (auto simp: Pair mark_ref_def)
    then show ?thesis by simp
  qed
qed

lemma mark_grows_fold:
  assumes "\<And>x a. mark_grows a (f x a)"
  shows "mark_grows a (fold f xs a)"
proof (induction xs arbitrary: a)
  case (Cons x xs)
  have "mark_grows a (fold f xs (f x a))" by (rule mark_grows_trans[OF assms Cons.IH])
  then show ?case by simp
qed simp

lemma mark_grows_slot: "mark_grows a (mark_slot c slot a)"
  by (auto simp: mark_slot_def Let_def mark_grows_ref split: object_kind.splits option.splits
      intro!: mark_grows_fold)

lemma mark_grows_pass: "mark_grows (reachable, False) (mark_pass c reachable)"
  unfolding mark_pass_def by (rule mark_grows_fold) (rule mark_grows_slot)

lemma mark_pass_decreases:
  "(reachable', True) = mark_pass c reachable \<Longrightarrow> count_if Not reachable' < count_if Not reachable"
  using mark_grows_pass[of reachable c] by (auto simp: mark_grows_def split: if_splits dest: sym)

function mark_loop :: "ipc_core \<Rightarrow> bool list \<Rightarrow> bool list" where
  "mark_loop c reachable =
     (case mark_pass c reachable of (reachable', changed) \<Rightarrow>
        if \<not> changed then reachable' else mark_loop c reachable')"
  by pat_completeness auto
termination
  by (relation "measure (\<lambda>(c, reachable). count_if Not reachable)") (auto dest: mark_pass_decreases)

declare mark_loop.simps [simp del]

definition sweep_slot :: "bool list \<Rightarrow> nat \<Rightarrow> ipc_core \<times> nat \<Rightarrow> ipc_core \<times> nat" where
  "sweep_slot reachable slot acc =
     (case acc of (c, reclaimed) \<Rightarrow>
        if \<not> reachable ! slot \<and> os_kind (ip_objects c ! slot) \<noteq> KFree then
          (let c1 = (case os_kind (ip_objects c ! slot) of
                       KService r \<Rightarrow>
                         if r < SERVICE_REGISTRY_CAPACITY
                         then c\<lparr>ip_services := (ip_services c)[r := SERVICE_EMPTY]\<rparr> else c
                     | _ \<Rightarrow> c)
           in (set_references slot 0 (set_kind slot KFree c1), reclaimed + 1))
        else acc)"

definition drop_dead_peer :: "nat \<Rightarrow> ipc_core \<Rightarrow> ipc_core" where
  "drop_dead_peer slot c =
     (case os_kind (ip_objects c ! slot) of
        KChannel ch \<Rightarrow>
          if (case ch_peer ch of None \<Rightarrow> False | Some peer \<Rightarrow> \<not> ipc_object_ref_is_live c peer)
          then set_kind slot (KChannel (ch\<lparr>ch_peer := None\<rparr>)) c else c
      | _ \<Rightarrow> c)"

definition reset_slot :: "nat \<Rightarrow> ipc_core \<Rightarrow> ipc_core" where
  "reset_slot slot c0 =
     (let c = drop_dead_peer slot c0
      in if os_kind (ip_objects c ! slot) \<noteq> KFree then set_references slot 0 c else c)"

definition recount_ref :: "object_ref \<Rightarrow> ipc_core \<Rightarrow> ipc_core" where
  "recount_ref object c =
     (if ipc_object_ref_is_live c object
      then set_references (or_slot object) (wrapping_add (os_references (ip_objects c ! or_slot object)) 1) c
      else c)"

definition recount_handle :: "nat \<Rightarrow> ipc_core \<Rightarrow> ipc_core" where
  "recount_handle index c =
     (let h = ip_handles c ! index in if hs_occupied h then recount_ref (hs_object h) c else c)"

definition recount_service :: "nat \<Rightarrow> ipc_core \<Rightarrow> ipc_core" where
  "recount_service index c =
     (let service = ip_services c ! index; pending = se_pending service
      in if \<not> se_occupied service then c
         else fold (\<lambda>offset. recount_ref (pc_endpoint
                (pq_entries pending ! ((pq_head pending + offset) mod SERVICE_PENDING_CAPACITY))))
              [0..<pq_len pending] c)"

definition recount_channel :: "nat \<Rightarrow> ipc_core \<Rightarrow> ipc_core" where
  "recount_channel slot c =
     (case os_kind (ip_objects c ! slot) of
        KChannel ch \<Rightarrow>
          fold (\<lambda>offset c. case qm_transfer (mq_entries (ch_queue ch) !
                               ((mq_head (ch_queue ch) + offset) mod CHANNEL_QUEUE_CAPACITY)) of
                   Some t \<Rightarrow> recount_ref (qt_object t) c
                 | None \<Rightarrow> c)
            [0..<mq_len (ch_queue ch)] c
      | _ \<Rightarrow> c)"

definition ipc_collect_unreachable_objects :: "ipc_core \<Rightarrow> nat \<times> ipc_core" where
  "ipc_collect_unreachable_objects c =
     (let n = length (ip_objects c);
          reachable = mark_loop c (collect_roots c);
          (c1, reclaimed) = fold (sweep_slot reachable) [0..<n] (c, 0);
          c2 = fold reset_slot [0..<n] c1;
          c3 = fold recount_handle [0..<length (ip_handles c)] c2;
          c4 = fold recount_service [0..<SERVICE_REGISTRY_CAPACITY] c3;
          c5 = fold recount_channel [0..<n] c4
      in (reclaimed, c5))"

definition ipc_ensure_free_objects :: "ipc_core \<Rightarrow> nat \<Rightarrow> bool \<times> ipc_core" where
  "ipc_ensure_free_objects c required =
     (let c1 = (if ipc_free_object_count c < required then snd (ipc_collect_unreachable_objects c) else c)
      in (required \<le> ipc_free_object_count c1, c1))"

section \<open>Public operations\<close>

text \<open>The \<open>?\<close> operator, on a step that may change the state and on a pure check.\<close>

definition try_step ::
  "('e, 'a) result \<times> 's \<Rightarrow> ('a \<Rightarrow> 's \<Rightarrow> ('e, 'b) result \<times> 's) \<Rightarrow> ('e, 'b) result \<times> 's" where
  "try_step r k = (case r of (Inl e, c) \<Rightarrow> (Inl e, c) | (Inr x, c) \<Rightarrow> k x c)"

definition try_check ::
  "('e, 'a) result \<Rightarrow> 's \<Rightarrow> ('a \<Rightarrow> ('e, 'b) result \<times> 's) \<Rightarrow> ('e, 'b) result \<times> 's" where
  "try_check r c k = (case r of Inl e \<Rightarrow> (Inl e, c) | Inr x \<Rightarrow> k x)"

definition ipc_channel :: "object_ref option \<Rightarrow> object_kind" where
  "ipc_channel peer = KChannel \<lparr>ch_peer = peer, ch_queue = MQ_EMPTY\<rparr>"

definition ipc_create_channel ::
  "ipc_core \<Rightarrow> identity \<Rightarrow> rights \<Rightarrow> identity \<Rightarrow> rights \<Rightarrow> (ipc_error, handle \<times> handle) result \<times> ipc_core" where
  "ipc_create_channel c left_owner left_rights right_owner right_rights =
     try_check (ipc_validate_channel_rights left_rights) c (\<lambda>_.
     try_check (ipc_validate_channel_rights right_rights) c (\<lambda>_.
     (case ipc_ensure_free_objects c 2 of (free, c) \<Rightarrow>
      if \<not> free then (Inl ObjectTableFull, c)
      else if ipc_free_handle_count c < 2 then (Inl HandleTableFull, c)
      else
        try_step (ipc_allocate_object c (ipc_channel None)) (\<lambda>left c.
        try_step (ipc_allocate_object c (ipc_channel (Some left))) (\<lambda>right c.
        let c = ipc_set_channel_peer c left (Some right)
        in try_step (ipc_install_handle c left_owner left left_rights True) (\<lambda>left_handle c.
           try_step (ipc_install_handle c right_owner right right_rights True) (\<lambda>right_handle c.
           (Inr (left_handle, right_handle), c))))))))"

definition ipc_publish :: "ipc_core \<Rightarrow> identity \<Rightarrow> u8 list \<Rightarrow> (ipc_error, handle) result \<times> ipc_core" where
  "ipc_publish c provider name =
     try_check (ipc_validate_name name) c (\<lambda>_.
     if ipc_find_service c name \<noteq> None then (Inl DuplicateService, c)
     else case position (\<lambda>e. \<not> se_occupied e) (ip_services c) of
       None \<Rightarrow> (Inl ServiceTableFull, c)
     | Some registry \<Rightarrow>
         (case ipc_ensure_free_objects c 1 of (free, c) \<Rightarrow>
          if \<not> free then (Inl ObjectTableFull, c)
          else if ipc_free_handle_count c = 0 then (Inl HandleTableFull, c)
          else
            try_step (ipc_allocate_object c (KService registry)) (\<lambda>object c.
            try_step (ipc_install_handle c provider object RIGHTS_ACCEPT True) (\<lambda>listener c.
            let entry = SERVICE_EMPTY\<lparr>se_occupied := True, se_provider := provider,
                  se_name_len := of_nat (length name),
                  se_name := name @ drop (length name) (se_name SERVICE_EMPTY)\<rparr>
            in (Inr listener, c\<lparr>ip_services := (ip_services c)[registry := entry]\<rparr>)))))"

definition ipc_push_pending ::
  "ipc_core \<Rightarrow> nat \<Rightarrow> pending_connection \<Rightarrow> (ipc_error, unit) result \<times> ipc_core" where
  "ipc_push_pending c registry connection =
     (case pq_push (se_pending (ip_services c ! registry)) connection of (r, q) \<Rightarrow>
        (r, c\<lparr>ip_services := (ip_services c)[registry := (ip_services c ! registry)\<lparr>se_pending := q\<rparr>]\<rparr>))"

definition ipc_connect :: "ipc_core \<Rightarrow> identity \<Rightarrow> u8 list \<Rightarrow> (ipc_error, handle) result \<times> ipc_core" where
  "ipc_connect c client name =
     try_check (ipc_validate_name name) c (\<lambda>_.
     case ipc_find_service c name of
       None \<Rightarrow> (Inl ServiceNotFound, c)
     | Some registry \<Rightarrow>
         (let provider = se_provider (ip_services c ! registry)
          in if id_uid client \<noteq> id_uid provider \<or> id_session client \<noteq> id_session provider
             then (Inl RoutingDenied, c)
             else if pq_len (se_pending (ip_services c ! registry)) = SERVICE_PENDING_CAPACITY
             then (Inl PendingQueueFull, c)
             else
               (case ipc_ensure_free_objects c 2 of (free, c) \<Rightarrow>
                if \<not> free then (Inl ObjectTableFull, c)
                else if ipc_free_handle_count c = 0 then (Inl HandleTableFull, c)
                else
                  try_step (ipc_allocate_object c (ipc_channel None)) (\<lambda>client_object c.
                  try_step (ipc_allocate_object c (ipc_channel (Some client_object))) (\<lambda>server_object c.
                  let c = ipc_set_channel_peer c client_object (Some server_object)
                  in try_step (ipc_install_handle c client client_object CHANNEL_ALL True) (\<lambda>client_handle c.
                     try_step (ipc_retain_object c server_object) (\<lambda>_ c.
                     try_step (ipc_push_pending c registry
                         \<lparr>pc_endpoint = server_object, pc_rights = CHANNEL_ALL\<rparr>) (\<lambda>_ c.
                     (Inr client_handle, c)))))))))"

definition ipc_accept :: "ipc_core \<Rightarrow> identity \<Rightarrow> handle \<Rightarrow> (ipc_error, handle) result \<times> ipc_core" where
  "ipc_accept c provider listener =
     try_check (ipc_resolve_handle c provider listener) c (\<lambda>listener_slot.
     try_check (ipc_require_right (hs_rights listener_slot) RIGHTS_ACCEPT) c (\<lambda>_.
     try_check (ipc_resolve_object c (hs_object listener_slot)) c (\<lambda>slot.
     case os_kind slot of
       KService registry \<Rightarrow>
         if se_provider (ip_services c ! registry) \<noteq> provider then (Inl AccessDenied, c)
         else if pq_len (se_pending (ip_services c ! registry)) = 0 then (Inl PendingQueueEmpty, c)
         else if ipc_free_handle_count c = 0 then (Inl HandleTableFull, c)
         else
           (case pq_pop (se_pending (ip_services c ! registry)) of
              (Inl e, _) \<Rightarrow> (Inl e, c)
            | (Inr pending, q) \<Rightarrow>
                ipc_install_handle
                  (c\<lparr>ip_services := (ip_services c)[registry := (ip_services c ! registry)\<lparr>se_pending := q\<rparr>]\<rparr>)
                  provider (pc_endpoint pending) (pc_rights pending) False)
     | _ \<Rightarrow> (Inl WrongObjectType, c))))"

definition ipc_close :: "ipc_core \<Rightarrow> identity \<Rightarrow> handle \<Rightarrow> (ipc_error, unit) result \<times> ipc_core" where
  "ipc_close c owner h =
     try_check (ipc_resolve_handle c owner h) c (\<lambda>slot.
     let c1 = c\<lparr>ip_handles := (ip_handles c)[hd_slot h :=
           (ip_handles c ! hd_slot h)\<lparr>hs_occupied := False, hs_rights := RIGHTS_NONE\<rparr>]\<rparr>;
         c2 = ipc_release_object c1 (hs_object slot)
     in (Inr (), snd (ipc_collect_unreachable_objects c2)))"

definition ipc_unpublish :: "ipc_core \<Rightarrow> identity \<Rightarrow> handle \<Rightarrow> (ipc_error, unit) result \<times> ipc_core" where
  "ipc_unpublish c provider listener =
     try_check (ipc_resolve_handle c provider listener) c (\<lambda>slot.
     try_check (ipc_require_right (hs_rights slot) RIGHTS_ACCEPT) c (\<lambda>_.
     try_check (ipc_resolve_object c (hs_object slot)) c (\<lambda>object.
     case os_kind object of
       KService _ \<Rightarrow> ipc_close c provider listener
     | _ \<Rightarrow> (Inl WrongObjectType, c))))"

text \<open>The transfer part of \<open>send\<close>: the checks on the transferred handle and its reference.\<close>

definition ipc_queue_transfer ::
  "ipc_core \<Rightarrow> identity \<Rightarrow> transfer option \<Rightarrow> (ipc_error, queued_transfer option) result \<times> ipc_core" where
  "ipc_queue_transfer c sender transfer =
     (case transfer of
        None \<Rightarrow> (Inr None, c)
      | Some request \<Rightarrow>
          if rights_is_empty (tr_rights request) then (Inl InvalidRights, c)
          else
            try_check (ipc_resolve_handle c sender (tr_handle request)) c (\<lambda>source.
            try_check (ipc_require_right (hs_rights source) RIGHTS_TRANSFER) c (\<lambda>_.
            if \<not> rights_contains (hs_rights source) (tr_rights request) then (Inl ExcessiveRights, c)
            else
              try_check (ipc_resolve_object c (hs_object source)) c (\<lambda>object.
              case os_kind object of
                KChannel _ \<Rightarrow>
                  if \<not> rights_contains CHANNEL_ALL (tr_rights request) then (Inl ExcessiveRights, c)
                  else try_step (ipc_retain_object c (hs_object source)) (\<lambda>_ c.
                    (Inr (Some \<lparr>qt_object = hs_object source, qt_rights = tr_rights request\<rparr>), c))
              | _ \<Rightarrow> (Inl WrongObjectType, c)))))"

definition ipc_push_message ::
  "ipc_core \<Rightarrow> object_ref \<Rightarrow> queued_message \<Rightarrow> (ipc_error, unit) result \<times> ipc_core" where
  "ipc_push_message c peer queued =
     (case os_kind (ip_objects c ! or_slot peer) of
        KChannel ch \<Rightarrow>
          (case mq_push (ch_queue ch) queued of (r, q) \<Rightarrow>
             (r, set_kind (or_slot peer) (KChannel (ch\<lparr>ch_queue := q\<rparr>)) c))
      | _ \<Rightarrow> (Inl PeerClosed, c))"

definition ipc_send ::
  "ipc_core \<Rightarrow> identity \<Rightarrow> handle \<Rightarrow> wire_message \<Rightarrow> transfer option \<Rightarrow> (ipc_error, unit) result \<times> ipc_core" where
  "ipc_send c sender endpoint message transfer =
     (if \<not> wm_is_valid message then (Inl MalformedMessage, c)
      else
        try_check (ipc_resolve_handle c sender endpoint) c (\<lambda>endpoint_slot.
        try_check (ipc_require_right (hs_rights endpoint_slot) RIGHTS_SEND) c (\<lambda>_.
        try_check (ipc_resolve_object c (hs_object endpoint_slot)) c (\<lambda>object.
        case os_kind object of
          KChannel channel \<Rightarrow>
            (case ch_peer channel of
               None \<Rightarrow> (Inl PeerClosed, c)
             | Some peer \<Rightarrow>
                 try_check (ipc_resolve_object c peer) c (\<lambda>peer_slot.
                 case os_kind peer_slot of
                   KChannel peer_channel \<Rightarrow>
                     if mq_len (ch_queue peer_channel) = CHANNEL_QUEUE_CAPACITY then (Inl QueueFull, c)
                     else
                       try_step (ipc_queue_transfer c sender transfer) (\<lambda>queued_transfer c.
                       (case ipc_push_message c peer
                          \<lparr>qm_message = wm_stamp_sender message sender, qm_transfer = queued_transfer\<rparr> of
                          (Inl error, c) \<Rightarrow>
                            (Inl error, case queued_transfer of
                                          None \<Rightarrow> c
                                        | Some t \<Rightarrow> ipc_release_object c (qt_object t))
                        | (Inr _, c) \<Rightarrow> (Inr (), c)))
                 | _ \<Rightarrow> (Inl PeerClosed, c)))
        | _ \<Rightarrow> (Inl WrongObjectType, c)))))"

definition ipc_pop_message ::
  "ipc_core \<Rightarrow> object_ref \<Rightarrow> (ipc_error, queued_message) result \<times> ipc_core" where
  "ipc_pop_message c object =
     (case os_kind (ip_objects c ! or_slot object) of
        KChannel ch \<Rightarrow>
          (case mq_pop (ch_queue ch) of (r, q) \<Rightarrow>
             (r, set_kind (or_slot object) (KChannel (ch\<lparr>ch_queue := q\<rparr>)) c))
      | _ \<Rightarrow> (Inl WrongObjectType, c))"

definition ipc_receive ::
  "ipc_core \<Rightarrow> identity \<Rightarrow> handle \<Rightarrow> (ipc_error, received_message) result \<times> ipc_core" where
  "ipc_receive c receiver endpoint =
     try_check (ipc_resolve_handle c receiver endpoint) c (\<lambda>endpoint_slot.
     try_check (ipc_require_right (hs_rights endpoint_slot) RIGHTS_RECEIVE) c (\<lambda>_.
     let object = hs_object endpoint_slot
     in try_check (ipc_resolve_object c object) c (\<lambda>slot.
        case os_kind slot of
          KChannel channel \<Rightarrow>
            try_check (mq_front (ch_queue channel)) c (\<lambda>front.
            if qm_transfer front \<noteq> None \<and> ipc_free_handle_count c = 0 then (Inl HandleTableFull, c)
            else
              try_step (ipc_pop_message c object) (\<lambda>queued c.
              case qm_transfer queued of
                None \<Rightarrow> (Inr \<lparr>rm_message = qm_message queued, rm_transferred = None\<rparr>, c)
              | Some t \<Rightarrow>
                  try_step (ipc_install_handle c receiver (qt_object t) (qt_rights t) False) (\<lambda>h c.
                  (Inr \<lparr>rm_message = qm_message queued, rm_transferred = Some h\<rparr>, c))))
        | _ \<Rightarrow> (Inl WrongObjectType, c))))"

text \<open>The loop of both cleanups: close the handles of a matching owner, slot by slot.\<close>

definition cleanup_slot :: "(identity \<Rightarrow> bool) \<Rightarrow> nat \<Rightarrow> ipc_core \<times> nat \<Rightarrow> ipc_core \<times> nat" where
  "cleanup_slot matches slot acc =
     (case acc of (c, handles_closed) \<Rightarrow>
        (let h = ip_handles c ! slot
         in if hs_occupied h \<and> matches (hs_owner h)
            then (case ipc_close c (hs_owner h) \<lparr>hd_slot = slot, hd_generation = hs_generation h\<rparr> of
                    (Inl _, c1) \<Rightarrow> (c1, handles_closed)
                  | (Inr _, c1) \<Rightarrow> (c1, handles_closed + 1))
            else acc))"

definition ipc_cleanup :: "(identity \<Rightarrow> bool) \<Rightarrow> ipc_core \<Rightarrow> cleanup_stats \<times> ipc_core" where
  "ipc_cleanup matches c =
     (let services_before = ipc_service_count c;
          (c1, handles_closed) = fold (cleanup_slot matches) [0..<length (ip_handles c)] (c, 0)
      in (\<lparr>cs_handles_closed = handles_closed,
           cs_services_removed = services_before - ipc_service_count c1\<rparr>, c1))"

definition ipc_cleanup_identity :: "ipc_core \<Rightarrow> identity \<Rightarrow> cleanup_stats \<times> ipc_core" where
  "ipc_cleanup_identity c owner = ipc_cleanup (\<lambda>o'. o' = owner) c"

definition ipc_cleanup_pid :: "ipc_core \<Rightarrow> u32w \<Rightarrow> cleanup_stats \<times> ipc_core" where
  "ipc_cleanup_pid c pid = ipc_cleanup (\<lambda>o'. id_pid o' = pid) c"

definition ipc_rights :: "ipc_core \<Rightarrow> identity \<Rightarrow> handle \<Rightarrow> (ipc_error, rights) result" where
  "ipc_rights c owner h = (case ipc_resolve_handle c owner h of Inl e \<Rightarrow> Inl e | Inr s \<Rightarrow> Inr (hs_rights s))"

text \<open>The channel or the service behind a handle, for the queries.\<close>

definition ipc_peer_is_open :: "ipc_core \<Rightarrow> identity \<Rightarrow> handle \<Rightarrow> (ipc_error, bool) result" where
  "ipc_peer_is_open c owner h =
     (case ipc_resolve_handle c owner h of
        Inl e \<Rightarrow> Inl e
      | Inr s \<Rightarrow>
          (case ipc_resolve_object c (hs_object s) of
             Inl e \<Rightarrow> Inl e
           | Inr object \<Rightarrow>
               (case os_kind object of KChannel ch \<Rightarrow> Inr (ch_peer ch \<noteq> None) | _ \<Rightarrow> Inl WrongObjectType)))"

definition ipc_queued_messages :: "ipc_core \<Rightarrow> identity \<Rightarrow> handle \<Rightarrow> (ipc_error, nat) result" where
  "ipc_queued_messages c owner h =
     (case ipc_resolve_handle c owner h of
        Inl e \<Rightarrow> Inl e
      | Inr s \<Rightarrow>
          (case ipc_resolve_object c (hs_object s) of
             Inl e \<Rightarrow> Inl e
           | Inr object \<Rightarrow>
               (case os_kind object of KChannel ch \<Rightarrow> Inr (mq_len (ch_queue ch)) | _ \<Rightarrow> Inl WrongObjectType)))"

definition ipc_pending_connections :: "ipc_core \<Rightarrow> identity \<Rightarrow> handle \<Rightarrow> (ipc_error, nat) result" where
  "ipc_pending_connections c provider listener =
     (case ipc_resolve_handle c provider listener of
        Inl e \<Rightarrow> Inl e
      | Inr s \<Rightarrow>
          (case ipc_require_right (hs_rights s) RIGHTS_ACCEPT of
             Inl e \<Rightarrow> Inl e
           | Inr _ \<Rightarrow>
               (case ipc_resolve_object c (hs_object s) of
                  Inl e \<Rightarrow> Inl e
                | Inr object \<Rightarrow>
                    (case os_kind object of
                       KService registry \<Rightarrow> Inr (pq_len (se_pending (ip_services c ! registry)))
                     | _ \<Rightarrow> Inl WrongObjectType))))"

end
