(* ===== verification/Ipc_Invariant.thy ===== *)
theory Ipc_Invariant
  imports Ipc "HOL-Library.Multiset"
begin

text \<open>
  What the IPC core of \<open>Ipc\<close> keeps: its two kinds of queues are bounded FIFOs, reference counts
  are exactly the numbers of references in handles, queues and pending lists, every
  reference is live and carries rights that fit its object, peers point at each other,
  services and listener objects correspond, and every live object can be reached from a
  handle. The collector computes reachability and, on such a state, changes nothing.
\<close>

section \<open>The queues as FIFOs\<close>

definition mq_list :: "message_queue \<Rightarrow> queued_message list" where
  "mq_list q = ring_list (mq_entries q) (mq_head q) (mq_len q)"

definition mq_wf :: "message_queue \<Rightarrow> bool" where
  "mq_wf q \<longleftrightarrow> length (mq_entries q) = CHANNEL_QUEUE_CAPACITY \<and> mq_head q < CHANNEL_QUEUE_CAPACITY
     \<and> mq_len q \<le> CHANNEL_QUEUE_CAPACITY"

definition pq_list :: "pending_queue \<Rightarrow> pending_connection list" where
  "pq_list q = ring_list (pq_entries q) (pq_head q) (pq_len q)"

definition pq_wf :: "pending_queue \<Rightarrow> bool" where
  "pq_wf q \<longleftrightarrow> length (pq_entries q) = SERVICE_PENDING_CAPACITY \<and> pq_head q < SERVICE_PENDING_CAPACITY
     \<and> pq_len q \<le> SERVICE_PENDING_CAPACITY"

lemma mq_list_length [simp]: "length (mq_list q) = mq_len q"
  by (simp add: mq_list_def)

lemma pq_list_length [simp]: "length (pq_list q) = pq_len q"
  by (simp add: pq_list_def)

lemma MQ_EMPTY_ok [simp]: "mq_wf MQ_EMPTY" "mq_list MQ_EMPTY = []"
  by (simp_all add: mq_wf_def mq_list_def MQ_EMPTY_def CHANNEL_QUEUE_CAPACITY_def)

lemma PQ_EMPTY_ok [simp]: "pq_wf PQ_EMPTY" "pq_list PQ_EMPTY = []" "pq_len PQ_EMPTY = 0"
  by (simp_all add: pq_wf_def pq_list_def PQ_EMPTY_def SERVICE_PENDING_CAPACITY_def)

lemma mq_push_list:
  assumes "mq_wf q" "mq_len q \<noteq> CHANNEL_QUEUE_CAPACITY"
  obtains q' where "mq_push q m = (Inr (), q')" "mq_wf q'" "mq_list q' = mq_list q @ [m]"
proof -
  have l: "mq_len q < length (mq_entries q)" using assms by (simp add: mq_wf_def)
  show ?thesis
    by (rule that[of "snd (mq_push q m)"])
      (use assms l ring_list_push[OF l, of "mq_head q" m] in \<open>simp_all add: mq_push_def Let_def mq_wf_def mq_list_def\<close>)
qed

lemma mq_pop_list:
  assumes "mq_wf q"
  shows "mq_list q = [] \<Longrightarrow> mq_front q = Inl QueueEmpty \<and> mq_pop q = (Inl QueueEmpty, q)"
    and "mq_list q = m # ms \<Longrightarrow> mq_front q = Inr m \<and>
      (\<exists>q'. mq_pop q = (Inr m, q') \<and> mq_wf q' \<and> mq_list q' = ms)"
proof -
  show "mq_front q = Inl QueueEmpty \<and> mq_pop q = (Inl QueueEmpty, q)" if "mq_list q = []"
    using arg_cong[OF that, of length] by (simp add: mq_pop_def mq_front_def)
  assume e: "mq_list q = m # ms"
  have l: "0 < mq_len q" using arg_cong[OF e, of length] by simp
  have h: "mq_head q < length (mq_entries q)" "mq_len q \<le> length (mq_entries q)" using assms by (simp_all add: mq_wf_def)
  have "m = mq_entries q ! mq_head q"
    "ms = ring_list (mq_entries q) ((mq_head q + 1) mod length (mq_entries q)) (mq_len q - 1)"
    using e ring_list_pop[OF l h(1)] by (simp_all add: mq_list_def)
  then show "mq_front q = Inr m \<and> (\<exists>q'. mq_pop q = (Inr m, q') \<and> mq_wf q' \<and> mq_list q' = ms)"
    using l h assms ring_list_tail_update[OF h(2,1), of QUEUED_EMPTY]
    by (auto simp: mq_pop_def mq_front_def mq_wf_def mq_list_def)
qed

lemma pq_push_list:
  assumes "pq_wf q" "pq_len q \<noteq> SERVICE_PENDING_CAPACITY"
  obtains q' where "pq_push q c = (Inr (), q')" "pq_wf q'" "pq_list q' = pq_list q @ [c]"
proof -
  have l: "pq_len q < length (pq_entries q)" using assms by (simp add: pq_wf_def)
  show ?thesis
    by (rule that[of "snd (pq_push q c)"])
      (use assms l ring_list_push[OF l, of "pq_head q" c] in \<open>simp_all add: pq_push_def Let_def pq_wf_def pq_list_def\<close>)
qed

lemma pq_pop_list:
  assumes "pq_wf q"
  shows "pq_list q = [] \<Longrightarrow> pq_pop q = (Inl PendingQueueEmpty, q)"
    and "pq_list q = m # ms \<Longrightarrow> \<exists>q'. pq_pop q = (Inr m, q') \<and> pq_wf q' \<and> pq_list q' = ms"
proof -
  show "pq_pop q = (Inl PendingQueueEmpty, q)" if "pq_list q = []"
    using arg_cong[OF that, of length] by (simp add: pq_pop_def)
  assume e: "pq_list q = m # ms"
  have l: "0 < pq_len q" using arg_cong[OF e, of length] by simp
  have h: "pq_head q < length (pq_entries q)" "pq_len q \<le> length (pq_entries q)" using assms by (simp_all add: pq_wf_def)
  have "m = pq_entries q ! pq_head q"
    "ms = ring_list (pq_entries q) ((pq_head q + 1) mod length (pq_entries q)) (pq_len q - 1)"
    using e ring_list_pop[OF l h(1)] by (simp_all add: pq_list_def)
  then show "\<exists>q'. pq_pop q = (Inr m, q') \<and> pq_wf q' \<and> pq_list q' = ms"
    using l h assms ring_list_tail_update[OF h(2,1), of PENDING_EMPTY]
    by (auto simp: pq_pop_def pq_wf_def pq_list_def)
qed

text \<open>Both are instances of the bounded-queue contract.\<close>

interpretation messages: bounded_queue
  "\<lambda>q m. (\<not> isl (fst (mq_push q m)), snd (mq_push q m))"
  "\<lambda>q. (case fst (mq_pop q) of Inl _ \<Rightarrow> None | Inr m \<Rightarrow> Some m, snd (mq_pop q))"
  mq_list "\<lambda>_. CHANNEL_QUEUE_CAPACITY" mq_wf
proof
  fix q :: message_queue and m :: queued_message
  assume wf: "mq_wf q"
  show "length (mq_list q) \<le> CHANNEL_QUEUE_CAPACITY" using wf by (simp add: mq_wf_def)
  show "(\<not> isl (fst (mq_push q m)), snd (mq_push q m)) = (False, q)" if "length (mq_list q) = CHANNEL_QUEUE_CAPACITY"
    using that by (simp add: mq_push_def)
  show "\<exists>q'. (\<not> isl (fst (mq_push q m)), snd (mq_push q m)) = (True, q') \<and> mq_wf q' \<and> mq_list q' = mq_list q @ [m]
      \<and> CHANNEL_QUEUE_CAPACITY = CHANNEL_QUEUE_CAPACITY" if "length (mq_list q) < CHANNEL_QUEUE_CAPACITY"
    by (rule mq_push_list[OF wf, of m]) (use that in auto)
qed (use mq_pop_list in \<open>fastforce\<close>)+

interpretation pending: bounded_queue
  "\<lambda>q m. (\<not> isl (fst (pq_push q m)), snd (pq_push q m))"
  "\<lambda>q. (case fst (pq_pop q) of Inl _ \<Rightarrow> None | Inr m \<Rightarrow> Some m, snd (pq_pop q))"
  pq_list "\<lambda>_. SERVICE_PENDING_CAPACITY" pq_wf
proof
  fix q :: pending_queue and m :: pending_connection
  assume wf: "pq_wf q"
  show "length (pq_list q) \<le> SERVICE_PENDING_CAPACITY" using wf by (simp add: pq_wf_def)
  show "(\<not> isl (fst (pq_push q m)), snd (pq_push q m)) = (False, q)" if "length (pq_list q) = SERVICE_PENDING_CAPACITY"
    using that by (simp add: pq_push_def)
  show "\<exists>q'. (\<not> isl (fst (pq_push q m)), snd (pq_push q m)) = (True, q') \<and> pq_wf q' \<and> pq_list q' = pq_list q @ [m]
      \<and> SERVICE_PENDING_CAPACITY = SERVICE_PENDING_CAPACITY" if "length (pq_list q) < SERVICE_PENDING_CAPACITY"
    by (rule pq_push_list[OF wf, of m]) (use that in auto)
qed (use pq_pop_list in \<open>fastforce\<close>)+

lemma mq_drain_list: "mq_wf q \<Longrightarrow> mq_drain q = mq_list q"
proof (induction q rule: mq_drain.induct)
  case (1 q)
  show ?case
  proof (cases "mq_list q")
    case Nil
    then show ?thesis using mq_pop_list(1)[OF 1(2)] by (simp add: mq_drain.simps[of q])
  next
    case (Cons m ms)
    then obtain q' where q': "mq_pop q = (Inr m, q')" "mq_wf q'" "mq_list q' = ms" using mq_pop_list(2)[OF 1(2)] by blast
    then show ?thesis using 1(1)[OF q'(1)[symmetric] refl] Cons by (simp add: mq_drain.simps[of q])
  qed
qed

lemma pq_drain_list: "pq_wf q \<Longrightarrow> pq_drain q = pq_list q"
proof (induction q rule: pq_drain.induct)
  case (1 q)
  show ?case
  proof (cases "pq_list q")
    case Nil
    then show ?thesis using pq_pop_list(1)[OF 1(2)] by (simp add: pq_drain.simps[of q])
  next
    case (Cons m ms)
    then obtain q' where q': "pq_pop q = (Inr m, q')" "pq_wf q'" "pq_list q' = ms" using pq_pop_list(2)[OF 1(2)] by blast
    then show ?thesis using 1(1)[OF q'(1)[symmetric] refl] Cons by (simp add: pq_drain.simps[of q])
  qed
qed

section \<open>References\<close>

text \<open>All references of a state, with their rights: in handles, pending lists and queues.\<close>

definition h_refs :: "handle_slot \<Rightarrow> (object_ref \<times> rights) list" where
  "h_refs h = (if hs_occupied h then [(hs_object h, hs_rights h)] else [])"

definition s_refs :: "service_entry \<Rightarrow> (object_ref \<times> rights) list" where
  "s_refs e = (if se_occupied e then map pc_ref (pq_list (se_pending e)) else [])"

definition q_refs :: "message_queue \<Rightarrow> (object_ref \<times> rights) list" where
  "q_refs q = concat (map qm_refs (mq_list q))"

definition o_refs :: "object_slot \<Rightarrow> (object_ref \<times> rights) list" where
  "o_refs s = (case os_kind s of KChannel ch \<Rightarrow> q_refs (ch_queue ch) | _ \<Rightarrow> [])"

definition inner_refs :: "ipc_core \<Rightarrow> (object_ref \<times> rights) multiset" where
  "inner_refs c = (\<Sum>e \<leftarrow> ip_services c. mset (s_refs e)) + (\<Sum>s \<leftarrow> ip_objects c. mset (o_refs s))"

definition handle_refs :: "ipc_core \<Rightarrow> (object_ref \<times> rights) multiset" where
  "handle_refs c = (\<Sum>h \<leftarrow> ip_handles c. mset (h_refs h))"

definition all_refs :: "ipc_core \<Rightarrow> (object_ref \<times> rights) multiset" where
  "all_refs c = handle_refs c + inner_refs c"

abbreviation ref_at :: "ipc_core \<Rightarrow> nat \<Rightarrow> object_ref" where
  "ref_at c i \<equiv> \<lparr>or_slot = i, or_generation = os_generation (ip_objects c ! i)\<rparr>"

abbreviation kind_of :: "ipc_core \<Rightarrow> object_ref \<Rightarrow> object_kind" where
  "kind_of c object \<equiv> os_kind (ip_objects c ! or_slot object)"

definition chan_rights :: "rights \<Rightarrow> bool" where
  "chan_rights r \<longleftrightarrow> r \<noteq> 0 \<and> rights_contains CHANNEL_ALL r"

text \<open>A reference is fine when it is live and its rights are those of its kind of object.\<close>

definition ref_ok :: "ipc_core \<Rightarrow> object_ref \<times> rights \<Rightarrow> bool" where
  "ref_ok c x \<longleftrightarrow> ipc_object_ref_is_live c (fst x)
     \<and> (case kind_of c (fst x) of KService _ \<Rightarrow> snd x = RIGHTS_ACCEPT | _ \<Rightarrow> chan_rights (snd x))"

definition kind_wf :: "object_kind \<Rightarrow> bool" where
  "kind_wf k = (case k of KChannel ch \<Rightarrow> mq_wf (ch_queue ch) | _ \<Rightarrow> True)"

definition ip_shape :: "ipc_core \<Rightarrow> bool" where
  "ip_shape c \<longleftrightarrow> length (ip_services c) = SERVICE_REGISTRY_CAPACITY
     \<and> list_all (\<lambda>e. pq_wf (se_pending e)) (ip_services c)
     \<and> list_all kind_wf (map os_kind (ip_objects c))
     \<and> length (ip_handles c) + 16 * length (ip_objects c) + 64 < 2 ^ 63"

text \<open>
  The accounts: every reference is fine, and each live object's count is the number of
  references to it plus the references in \<open>X\<close>, which an operation under way has counted but
  not stored, or removed but not released.
\<close>

definition ip_counts :: "ipc_core \<Rightarrow> object_ref multiset \<Rightarrow> bool" where
  "ip_counts c X \<longleftrightarrow> (\<forall>i < length (ip_objects c). os_kind (ip_objects c ! i) \<noteq> KFree \<longrightarrow>
     os_references (ip_objects c ! i) = count (image_mset fst (all_refs c) + X) (ref_at c i))"

definition ip_acct :: "ipc_core \<Rightarrow> object_ref multiset \<Rightarrow> bool" where
  "ip_acct c X \<longleftrightarrow> ip_shape c \<and> (\<forall>x \<in># all_refs c. ref_ok c x) \<and> (\<forall>x \<in># inner_refs c. chan_rights (snd x))
     \<and> (\<forall>object \<in># X. ipc_object_ref_is_live c object) \<and> ip_counts c X"

text \<open>Peers point at each other.\<close>

definition ip_peers :: "ipc_core \<Rightarrow> bool" where
  "ip_peers c \<longleftrightarrow> (\<forall>i ch p. i < length (ip_objects c) \<longrightarrow> os_kind (ip_objects c ! i) = KChannel ch \<longrightarrow>
     ch_peer ch = Some p \<longrightarrow>
     ipc_object_ref_is_live c p \<and> (\<exists>ch'. kind_of c p = KChannel ch' \<and> ch_peer ch' = Some (ref_at c i)))"

text \<open>Registry entries and listener objects correspond; published names are valid and unique.\<close>

definition se_label :: "service_entry \<Rightarrow> u8 list" where
  "se_label e = take (unat (se_name_len e)) (se_name e)"

definition ip_services_ok :: "ipc_core \<Rightarrow> bool" where
  "ip_services_ok c \<longleftrightarrow>
     (\<forall>i < length (ip_objects c). \<forall>r. os_kind (ip_objects c ! i) = KService r \<longrightarrow>
        r < SERVICE_REGISTRY_CAPACITY \<and> se_occupied (ip_services c ! r)
        \<and> (\<forall>j < length (ip_objects c). os_kind (ip_objects c ! j) = KService r \<longrightarrow> j = i))
     \<and> (\<forall>r < length (ip_services c). se_occupied (ip_services c ! r) \<longrightarrow>
        (\<exists>i < length (ip_objects c). os_kind (ip_objects c ! i) = KService r))"

definition ip_names_ok :: "ipc_core \<Rightarrow> bool" where
  "ip_names_ok c \<longleftrightarrow>
     (\<forall>e \<in> set (ip_services c). se_occupied e \<longrightarrow>
        ipc_validate_name (se_label e) = Inr () \<and> length (se_label e) = unat (se_name_len e))
     \<and> (\<forall>r < length (ip_services c). \<forall>r' < length (ip_services c).
        se_occupied (ip_services c ! r) \<longrightarrow> se_occupied (ip_services c ! r') \<longrightarrow>
        se_label (ip_services c ! r) = se_label (ip_services c ! r') \<longrightarrow> r = r')"

text \<open>What an object refers to, and the objects reachable from occupied handles.\<close>

definition children :: "ipc_core \<Rightarrow> nat \<Rightarrow> object_ref list" where
  "children c slot =
     (case os_kind (ip_objects c ! slot) of
        KFree \<Rightarrow> []
      | KService r \<Rightarrow>
          if SERVICE_REGISTRY_CAPACITY \<le> r \<or> \<not> se_occupied (ip_services c ! r) then []
          else map pc_endpoint (pq_list (se_pending (ip_services c ! r)))
      | KChannel ch \<Rightarrow> map fst (q_refs (ch_queue ch)))"

inductive_set ipc_reach :: "ipc_core \<Rightarrow> object_ref set" for c where
  root: "h \<in> set (ip_handles c) \<Longrightarrow> hs_occupied h \<Longrightarrow> ipc_object_ref_is_live c (hs_object h) \<Longrightarrow>
    hs_object h \<in> ipc_reach c"
| edge: "x \<in> ipc_reach c \<Longrightarrow> y \<in> set (children c (or_slot x)) \<Longrightarrow> ipc_object_ref_is_live c y \<Longrightarrow>
    y \<in> ipc_reach c"

definition ip_reachable :: "ipc_core \<Rightarrow> bool" where
  "ip_reachable c \<longleftrightarrow> (\<forall>i < length (ip_objects c). os_kind (ip_objects c ! i) \<noteq> KFree \<longrightarrow> ref_at c i \<in> ipc_reach c)"

definition ipc_inv :: "ipc_core \<Rightarrow> bool" where
  "ipc_inv c \<longleftrightarrow> ip_acct c {#} \<and> ip_peers c \<and> ip_services_ok c \<and> ip_names_ok c \<and> ip_reachable c"

subsection \<open>Basic facts\<close>

lemma object_ref_eta [simp]: "\<lparr>or_slot = or_slot x, or_generation = or_generation x\<rparr> = x" for x :: object_ref
  by (cases x) simp

lemma live_ref_at: "ipc_object_ref_is_live c (ref_at c i) \<longleftrightarrow> i < length (ip_objects c) \<and> os_kind (ip_objects c ! i) \<noteq> KFree"
  by (auto simp: ipc_object_ref_is_live_def)

lemma live_eq_ref_at: "ipc_object_ref_is_live c x \<Longrightarrow> x = ref_at c (or_slot x)"
  by (simp add: ipc_object_ref_is_live_def)

lemma live_slot_inj:
  "ipc_object_ref_is_live c x \<Longrightarrow> ipc_object_ref_is_live c y \<Longrightarrow> or_slot x = or_slot y \<Longrightarrow> x = y"
  by (metis live_eq_ref_at)

lemma resolve_live: "ipc_object_ref_is_live c x \<Longrightarrow> ipc_resolve_object c x = Inr (ip_objects c ! or_slot x)"
  by (simp add: ipc_resolve_object_Inr)

lemma resolve_dead: "\<not> ipc_object_ref_is_live c x \<Longrightarrow> ipc_resolve_object c x = Inl StaleHandle"
  by (auto simp: ipc_object_ref_is_live_def ipc_resolve_object_def Let_def)

lemma reach_live: "x \<in> ipc_reach c \<Longrightarrow> ipc_object_ref_is_live c x"
  by (induction rule: ipc_reach.induct) auto

lemma in_handle_refs: "x \<in># handle_refs c \<longleftrightarrow> (\<exists>h \<in> set (ip_handles c). hs_occupied h \<and> x = (hs_object h, hs_rights h))"
  by (auto simp: handle_refs_def h_refs_def in_mset_fold_plus_iff set_mset_sum_list)

lemma in_inner_refs:
  "x \<in># inner_refs c \<longleftrightarrow> (\<exists>e \<in> set (ip_services c). x \<in> set (s_refs e)) \<or> (\<exists>s \<in> set (ip_objects c). x \<in> set (o_refs s))"
  by (auto simp: inner_refs_def set_mset_sum_list)

lemma all_refs_cases:
  assumes "x \<in># all_refs c"
  obtains h where "h \<in> set (ip_handles c)" "hs_occupied h" "x = (hs_object h, hs_rights h)"
    | r where "r < length (ip_services c)" "x \<in> set (s_refs (ip_services c ! r))"
    | i where "i < length (ip_objects c)" "x \<in> set (o_refs (ip_objects c ! i))"
  using assms unfolding all_refs_def union_iff in_handle_refs in_inner_refs
    bex_set_nth[of "ip_services c"] bex_set_nth[of "ip_objects c"] by blast

lemma nth_in_inner_refs:
  "r < length (ip_services c) \<Longrightarrow> x \<in> set (s_refs (ip_services c ! r)) \<Longrightarrow> x \<in># inner_refs c"
  "i < length (ip_objects c) \<Longrightarrow> x \<in> set (o_refs (ip_objects c ! i)) \<Longrightarrow> x \<in># inner_refs c"
  by (auto simp: in_inner_refs)

text \<open>Liveness, the fitness of references and the registry only depend on the class of each object.\<close>

definition os_class :: "object_slot \<Rightarrow> nat \<times> nat option option" where
  "os_class s = (os_generation s,
     case os_kind s of KFree \<Rightarrow> None | KChannel _ \<Rightarrow> Some None | KService r \<Rightarrow> Some (Some r))"

definition os_skel :: "object_slot \<Rightarrow> (nat \<times> nat option option) \<times> object_ref option" where
  "os_skel s = (os_class s, case os_kind s of KChannel ch \<Rightarrow> ch_peer ch | _ \<Rightarrow> None)"

abbreviation classes :: "ipc_core \<Rightarrow> (nat \<times> nat option option) list" where
  "classes c \<equiv> map os_class (ip_objects c)"

abbreviation skel :: "ipc_core \<Rightarrow> ((nat \<times> nat option option) \<times> object_ref option) list" where
  "skel c \<equiv> map os_skel (ip_objects c)"

lemma class_eqs:
  "snd (os_class s) = None \<longleftrightarrow> os_kind s = KFree"
  "snd (os_class s) = Some (Some r) \<longleftrightarrow> os_kind s = KService r"
  "snd (os_class s) = Some None \<longleftrightarrow> (\<exists>ch. os_kind s = KChannel ch)"
  "fst (os_class s) = os_generation s"
  by (auto simp: os_class_def split: object_kind.splits)

lemma classes_nth:
  assumes "classes c' = classes c" "i < length (ip_objects c)"
  shows "os_class (ip_objects c' ! i) = os_class (ip_objects c ! i)"
  using assms by (rule map_eq_nth)

lemma classes_length: "classes c' = classes c \<Longrightarrow> length (ip_objects c') = length (ip_objects c)"
  by (metis length_map)

lemma skel_classes: "skel c' = skel c \<Longrightarrow> classes c' = classes c"
  by (drule arg_cong[of _ _ "map fst"]) (simp add: os_skel_def comp_def)

lemma live_class:
  "ipc_object_ref_is_live c x \<longleftrightarrow> or_slot x < length (classes c)
     \<and> fst (classes c ! or_slot x) = or_generation x \<and> snd (classes c ! or_slot x) \<noteq> None"
  by (cases "or_slot x < length (ip_objects c)")
    (simp_all add: ipc_object_ref_is_live_def class_eqs del: not_None_eq)

lemma ref_ok_class:
  "ref_ok c x \<longleftrightarrow> ipc_object_ref_is_live c (fst x)
     \<and> (case classes c ! or_slot (fst x) of
          (_, Some (Some _)) \<Rightarrow> snd x = RIGHTS_ACCEPT | _ \<Rightarrow> chan_rights (snd x))"
  by (auto simp: ref_ok_def ipc_object_ref_is_live_def os_class_def split: object_kind.splits)

lemma live_cong: "classes c' = classes c \<Longrightarrow> ipc_object_ref_is_live c' = ipc_object_ref_is_live c"
  by (intro ext) (simp only: live_class)

lemma ref_ok_cong:
  assumes "classes c' = classes c"
  shows "ref_ok c' = ref_ok c"
  by (intro ext) (simp only: ref_ok_class live_cong[OF assms] assms)

lemma ref_at_cong:
  assumes "classes c' = classes c" "i < length (ip_objects c)"
  shows "ref_at c' i = ref_at c i" "(os_kind (ip_objects c' ! i) = KFree) = (os_kind (ip_objects c ! i) = KFree)"
  using classes_nth[OF assms] class_eqs(1,4)[of "ip_objects c ! i"] class_eqs(1,4)[of "ip_objects c' ! i"]
  by simp_all

lemma services_ok_cong:
  assumes "classes c' = classes c" "map se_occupied (ip_services c') = map se_occupied (ip_services c)"
    "ip_shape c" "ip_services_ok c"
  shows "ip_services_ok c'"
proof -
  have k: "os_kind (ip_objects c' ! i) = KService r \<longleftrightarrow> os_kind (ip_objects c ! i) = KService r"
    if "i < length (ip_objects c)" for i r
    using classes_nth[OF assms(1) that] by (simp add: class_eqs(2)[symmetric])
  have l: "length (ip_services c') = length (ip_services c)" using assms(2) by (rule map_eq_imp_length_eq)
  have o: "se_occupied (ip_services c' ! r) = se_occupied (ip_services c ! r)" if "r < length (ip_services c)" for r
    using assms(2) that by (rule map_eq_nth)
  have e: "length (ip_services c) = SERVICE_REGISTRY_CAPACITY" using assms(3) by (simp add: ip_shape_def)
  note n = classes_length[OF assms(1)] and ok = assms(4)[unfolded ip_services_ok_def]
  show ?thesis unfolding ip_services_ok_def n l
  proof (intro conjI allI impI)
    fix i r assume i: "i < length (ip_objects c)" "os_kind (ip_objects c' ! i) = KService r"
    then have r: "r < SERVICE_REGISTRY_CAPACITY" "se_occupied (ip_services c ! r)"
      "\<forall>j < length (ip_objects c). os_kind (ip_objects c ! j) = KService r \<longrightarrow> j = i"
      using ok k[OF i(1)] by blast+
    show "r < SERVICE_REGISTRY_CAPACITY" by (rule r)
    show "se_occupied (ip_services c' ! r)" using r(1,2) o e by simp
    show "j = i" if "j < length (ip_objects c)" "os_kind (ip_objects c' ! j) = KService r" for j
      using r(3) that k[OF that(1)] by blast
  next
    fix r assume "r < length (ip_services c)" "se_occupied (ip_services c' ! r)"
    then show "\<exists>i < length (ip_objects c). os_kind (ip_objects c' ! i) = KService r" using ok k o by blast
  qed
qed

lemma names_ok_cong:
  assumes "map (\<lambda>e. (se_occupied e, se_name_len e, se_name e)) (ip_services c') =
      map (\<lambda>e. (se_occupied e, se_name_len e, se_name e)) (ip_services c)" (is "map ?f _ = map ?f _")
    "ip_names_ok c"
  shows "ip_names_ok c'"
proof -
  have l: "length (ip_services c') = length (ip_services c)" using assms(1) by (rule map_eq_imp_length_eq)
  have "?f (ip_services c' ! r) = ?f (ip_services c ! r)" if "r < length (ip_services c)" for r
    using assms(1) that by (rule map_eq_nth)
  then have "se_occupied (ip_services c' ! r) = se_occupied (ip_services c ! r)"
    "se_label (ip_services c' ! r) = se_label (ip_services c ! r)"
    "se_name_len (ip_services c' ! r) = se_name_len (ip_services c ! r)" if "r < length (ip_services c)" for r
    using that by (simp_all add: se_label_def)
  then show ?thesis using assms(2) l unfolding ip_names_ok_def all_set_conv_all_nth by simp
qed

lemma peers_cong:
  assumes "skel c' = skel c" "ip_peers c"
  shows "ip_peers c'"
proof -
  note cl = skel_classes[OF assms(1)]
  have k: "(\<exists>ch. os_kind (ip_objects c' ! i) = KChannel ch \<and> ch_peer ch = p) \<longleftrightarrow>
      (\<exists>ch. os_kind (ip_objects c ! i) = KChannel ch \<and> ch_peer ch = p)" if "i < length (ip_objects c)" for i p
  proof -
    have "os_skel (ip_objects c' ! i) = os_skel (ip_objects c ! i)"
      using assms(1) that by (rule map_eq_nth)
    then show ?thesis by (auto simp: os_skel_def os_class_def split: object_kind.splits)
  qed
  show ?thesis unfolding ip_peers_def
  proof (intro allI impI)
    fix i ch p assume i: "i < length (ip_objects c')" "os_kind (ip_objects c' ! i) = KChannel ch" "ch_peer ch = Some p"
    then have i': "i < length (ip_objects c)" using classes_length[OF cl] by simp
    obtain ch0 where "os_kind (ip_objects c ! i) = KChannel ch0" "ch_peer ch0 = Some p" using k[OF i', of "Some p"] i by auto
    then have p: "ipc_object_ref_is_live c p" "\<exists>ch'. kind_of c p = KChannel ch' \<and> ch_peer ch' = Some (ref_at c i)"
      using assms(2) i' by (auto simp: ip_peers_def)
    then show "ipc_object_ref_is_live c' p \<and> (\<exists>ch'. kind_of c' p = KChannel ch' \<and> ch_peer ch' = Some (ref_at c' i))"
      using k[of "or_slot p" "Some (ref_at c i)"] live_cong[OF cl] ref_at_cong(1)[OF cl i']
      by (auto simp: ipc_object_ref_is_live_def)
  qed
qed

subsection \<open>References under updates\<close>

lemma handle_refs_update:
  "i < length (ip_handles c) \<Longrightarrow>
   handle_refs (c\<lparr>ip_handles := (ip_handles c)[i := h]\<rparr>) + mset (h_refs (ip_handles c ! i)) = handle_refs c + mset (h_refs h)"
  using sum_list_map_update[of i "ip_handles c" "\<lambda>h. mset (h_refs h)" h] by (simp add: handle_refs_def)

lemma inner_refs_update:
  "r < length (ip_services c) \<Longrightarrow>
   inner_refs (c\<lparr>ip_services := (ip_services c)[r := e]\<rparr>) + mset (s_refs (ip_services c ! r)) = inner_refs c + mset (s_refs e)"
  "i < length (ip_objects c) \<Longrightarrow>
   inner_refs (c\<lparr>ip_objects := (ip_objects c)[i := s]\<rparr>) + mset (o_refs (ip_objects c ! i)) = inner_refs c + mset (o_refs s)"
  using sum_list_map_update[of r "ip_services c" "\<lambda>e. mset (s_refs e)" e]
    sum_list_map_update[of i "ip_objects c" "\<lambda>s. mset (o_refs s)" s]
  by (simp_all add: inner_refs_def ac_simps)

lemma handle_refs_cong: "ip_handles c' = ip_handles c \<Longrightarrow> handle_refs c' = handle_refs c"
  by (simp add: handle_refs_def)

lemma inner_refs_cong:
  "ip_services c' = ip_services c \<Longrightarrow> map o_refs (ip_objects c') = map o_refs (ip_objects c) \<Longrightarrow> inner_refs c' = inner_refs c"
  by (drule arg_cong[of _ _ "\<lambda>xs. sum_list (map mset xs)"]) (simp add: inner_refs_def comp_def)

lemma inner_refs_handles [simp]: "inner_refs (c\<lparr>ip_handles := x\<rparr>) = inner_refs c"
  by (simp add: inner_refs_def)

lemma handle_refs_others [simp]:
  "handle_refs (c\<lparr>ip_objects := x\<rparr>) = handle_refs c" "handle_refs (c\<lparr>ip_services := y\<rparr>) = handle_refs c"
  "handle_refs (set_kind i k c) = handle_refs c" "handle_refs (set_references i n c) = handle_refs c"
  by (simp_all add: handle_refs_def)

lemma map_update_same: "f y = f (xs ! i) \<Longrightarrow> map f (xs[i := y]) = map f xs"
  by (rule nth_equalityI) (auto simp: nth_upd)

lemma set_references_same:
  "inner_refs (set_references i n c) = inner_refs c" "skel (set_references i n c) = skel c"
  "map os_kind (ip_objects (set_references i n c)) = map os_kind (ip_objects c)"
proof -
  show "inner_refs (set_references i n c) = inner_refs c"
    by (rule inner_refs_cong) (simp_all add: set_references_def map_update_same o_refs_def)
qed (simp_all add: set_references_def map_update_same os_skel_def os_class_def)

lemma size_sum_list_le:
  fixes f :: "'a \<Rightarrow> 'b multiset"
  shows "\<forall>x \<in> set xs. size (f x) \<le> k \<Longrightarrow> size (sum_list (map f xs)) \<le> k * length xs"
  by (induction xs) auto

lemma size_qm_refs: "length (concat (map qm_refs ms)) \<le> length ms"
  by (induction ms) (auto simp: qm_refs_def split: option.split)

lemma size_all_refs:
  assumes "ip_shape c"
  shows "size (all_refs c) < 2 ^ 63"
proof -
  have h: "size (handle_refs c) \<le> 1 * length (ip_handles c)"
    unfolding handle_refs_def by (rule size_sum_list_le) (simp add: h_refs_def)
  have "size (\<Sum>e \<leftarrow> ip_services c. mset (s_refs e)) \<le> 8 * length (ip_services c)"
    by (rule size_sum_list_le)
      (use assms in \<open>auto simp: s_refs_def ip_shape_def list_all_iff pq_wf_def SERVICE_PENDING_CAPACITY_def\<close>)
  moreover have "size (\<Sum>s \<leftarrow> ip_objects c. mset (o_refs s)) \<le> 16 * length (ip_objects c)"
  proof (rule size_sum_list_le, intro ballI)
    fix s assume s: "s \<in> set (ip_objects c)"
    show "size (mset (o_refs s)) \<le> 16"
    proof (cases "os_kind s")
      case (KChannel ch)
      then have "mq_wf (ch_queue ch)" using assms s by (auto simp: ip_shape_def list_all_iff kind_wf_def)
      then have "mq_len (ch_queue ch) \<le> 16" by (simp add: mq_wf_def CHANNEL_QUEUE_CAPACITY_def)
      then show ?thesis using size_qm_refs[of "mq_list (ch_queue ch)"] KChannel by (simp add: o_refs_def q_refs_def)
    qed (simp_all add: o_refs_def)
  qed
  ultimately show ?thesis using h assms
    by (simp add: all_refs_def inner_refs_def ip_shape_def SERVICE_REGISTRY_CAPACITY_def)
qed

section \<open>Accounts of the primitive steps\<close>

lemma acctD:
  assumes "ip_acct c X"
  shows "ip_shape c" "\<And>x. x \<in># all_refs c \<Longrightarrow> ref_ok c x" "\<And>x. x \<in># inner_refs c \<Longrightarrow> chan_rights (snd x)"
    "\<And>x. x \<in># X \<Longrightarrow> ipc_object_ref_is_live c x"
    "\<And>i. i < length (ip_objects c) \<Longrightarrow> os_kind (ip_objects c ! i) \<noteq> KFree \<Longrightarrow>
       os_references (ip_objects c ! i) = count (image_mset fst (all_refs c) + X) (ref_at c i)"
  using assms by (auto simp: ip_acct_def ip_counts_def)

lemma acct_live:
  assumes "ip_acct c X" "x \<in># image_mset fst (all_refs c) + X"
  shows "ipc_object_ref_is_live c x"
  using assms acctD(2,4)[OF assms(1)] by (auto simp: ref_ok_def)

lemma acct_references:
  assumes "ip_acct c X" "ipc_object_ref_is_live c x"
  shows "os_references (ip_objects c ! or_slot x) = count (image_mset fst (all_refs c) + X) x"
  using acctD(5)[OF assms(1), of "or_slot x"] assms(2) live_eq_ref_at[OF assms(2)]
  by (simp add: ipc_object_ref_is_live_def)

text \<open>Moving references between the structures and \<open>X\<close>, the counts untouched.\<close>

lemma acct_move:
  assumes "ip_acct c X" and cl: "classes c' = classes c" and "ip_shape c'"
    and refs: "map os_references (ip_objects c') = map os_references (ip_objects c)"
    and sum: "image_mset fst (all_refs c') + X' = image_mset fst (all_refs c) + X"
    and new: "\<And>x. x \<in># all_refs c' \<Longrightarrow> x \<in># all_refs c \<or> ref_ok c x"
    and inner: "\<And>x. x \<in># inner_refs c' \<Longrightarrow> x \<in># inner_refs c \<or> chan_rights (snd x)"
  shows "ip_acct c' X'"
proof -
  have "os_references (ip_objects c' ! i) = count (image_mset fst (all_refs c') + X') (ref_at c' i)"
    if i: "i < length (ip_objects c')" "os_kind (ip_objects c' ! i) \<noteq> KFree" for i
  proof -
    have i': "i < length (ip_objects c)" using i(1) classes_length[OF cl] by simp
    then show ?thesis using acctD(5)[OF assms(1) i'] ref_at_cong[OF cl i'] map_eq_nth[OF refs i'] i(2)
      unfolding sum by simp
  qed
  moreover have "ipc_object_ref_is_live c' x" if "x \<in># X'" for x
    using acct_live[OF assms(1), of x] that sum live_cong[OF cl] by (metis union_iff)
  ultimately show ?thesis
    using assms(3) new inner acctD(2,3)[OF assms(1)] unfolding ip_acct_def ip_counts_def ref_ok_cong[OF cl] by blast
qed

text \<open>Counting one more or one less reference to a live object.\<close>

lemma ip_shape_set_references [simp]: "ip_shape (set_references i n c) = ip_shape c"
  unfolding ip_shape_def set_references_same(3) by simp

lemma all_refs_set_references [simp]: "all_refs (set_references i n c) = all_refs c"
  by (simp add: all_refs_def set_references_same(1))

lemma acct_set_references:
  assumes "ip_acct c X" "ipc_object_ref_is_live c x" "n = count (image_mset fst (all_refs c) + X') x"
    and others: "\<And>y. y \<noteq> x \<Longrightarrow> count X' y = count X y" and live: "\<And>y. y \<in># X' \<Longrightarrow> ipc_object_ref_is_live c y"
  shows "ip_acct (set_references (or_slot x) n c) X'"
proof -
  let ?c = "set_references (or_slot x) n c"
  note cl = skel_classes[OF set_references_same(2), of "or_slot x" n c]
  have refs: "all_refs ?c = all_refs c" "inner_refs ?c = inner_refs c"
    by (simp_all add: set_references_same(1))
  have "os_references (ip_objects ?c ! i) = count (image_mset fst (all_refs ?c) + X') (ref_at ?c i)"
    if i: "i < length (ip_objects ?c)" "os_kind (ip_objects ?c ! i) \<noteq> KFree" for i
  proof (cases "i = or_slot x")
    case True
    then show ?thesis using assms(2,3) i live_eq_ref_at[OF assms(2)] by (simp add: refs)
  next
    case False
    then have "ref_at c i \<noteq> x" by auto
    then show ?thesis using False acctD(5)[OF assms(1), of i] i others[of "ref_at c i"] by (simp add: refs)
  qed
  then show ?thesis
    using assms(1) live live_cong[OF cl] ref_ok_cong[OF cl] unfolding ip_acct_def ip_counts_def refs by auto
qed

lemma acct_retain:
  assumes "ip_acct c X" "ipc_object_ref_is_live c x" "size X < 2 ^ 62"
  defines "c' \<equiv> set_references (or_slot x) (os_references (ip_objects c ! or_slot x) + 1) c"
  shows "ipc_retain_object c x = (Inr (), c')" "ip_acct c' (add_mset x X)"
proof -
  note r = acct_references[OF assms(1,2)]
  have "count (image_mset fst (all_refs c) + X) x \<le> size (image_mset fst (all_refs c) + X)" by (rule count_le_size)
  then have "os_references (ip_objects c ! or_slot x) + 1 < 2 ^ 64"
    using r size_all_refs[OF acctD(1)[OF assms(1)]] assms(3) by simp
  then show "ipc_retain_object c x = (Inr (), c')"
    by (simp add: ipc_retain_object_def c'_def checked_add_def resolve_live[OF assms(2)])
  show "ip_acct c' (add_mset x X)" unfolding c'_def
    by (rule acct_set_references[OF assms(1,2)]) (use r assms(1,2) in \<open>auto simp: acctD(4)\<close>)
qed

text \<open>Storing a counted reference in a free handle slot.\<close>

definition put_handle :: "ipc_core \<Rightarrow> nat \<Rightarrow> identity \<Rightarrow> object_ref \<Rightarrow> rights \<Rightarrow> ipc_core" where
  "put_handle c slot owner object r = c\<lparr>ip_handles := (ip_handles c)[slot :=
     \<lparr>hs_generation = next_generation (hs_generation (ip_handles c ! slot)), hs_occupied = True,
       hs_owner = owner, hs_object = object, hs_rights = r\<rparr>]\<rparr>"

lemma put_handle_simps [simp]:
  "ip_objects (put_handle c slot owner object r) = ip_objects c"
  "ip_services (put_handle c slot owner object r) = ip_services c"
  "length (ip_handles (put_handle c slot owner object r)) = length (ip_handles c)"
  "inner_refs (put_handle c slot owner object r) = inner_refs c"
  "ipc_object_ref_is_live (put_handle c slot owner object r) = ipc_object_ref_is_live c"
  by (simp_all add: put_handle_def ipc_object_ref_is_live_def fun_eq_iff)

lemma put_handle_refs:
  assumes "slot < length (ip_handles c)" "\<not> hs_occupied (ip_handles c ! slot)"
  shows "all_refs (put_handle c slot owner object r) = add_mset (object, r) (all_refs c)"
  using handle_refs_update[OF assms(1)] assms(2)
  by (simp add: all_refs_def) (simp add: put_handle_def h_refs_def)

lemma acct_put_handle:
  assumes "ip_acct c (add_mset object X)" "slot < length (ip_handles c)" "\<not> hs_occupied (ip_handles c ! slot)"
    "ref_ok c (object, r)"
  shows "ip_acct (put_handle c slot owner object r) X"
  by (rule acct_move[OF assms(1)]) (use acctD(1)[OF assms(1)] put_handle_refs[OF assms(2,3)] assms(4) in
      \<open>auto simp: ip_shape_def\<close>)

lemma free_handle:
  assumes "0 < ipc_free_handle_count c"
  obtains slot where "position (\<lambda>s. \<not> hs_occupied s) (ip_handles c) = Some slot"
    "slot < length (ip_handles c)" "\<not> hs_occupied (ip_handles c ! slot)"
  using count_if_position[OF assms[unfolded ipc_free_handle_count_def]] position_SomeD by blast

lemma install_adopt:
  assumes "ip_acct c (add_mset object X)" "0 < ipc_free_handle_count c" "ref_ok c (object, r)"
  obtains slot where "slot < length (ip_handles c)" "\<not> hs_occupied (ip_handles c ! slot)"
    "ipc_install_handle c owner object r False =
      (Inr \<lparr>hd_slot = slot, hd_generation = next_generation (hs_generation (ip_handles c ! slot))\<rparr>,
       put_handle c slot owner object r)"
    "ip_acct (put_handle c slot owner object r) X"
proof -
  from free_handle[OF assms(2)] obtain slot where
    s: "position (\<lambda>s. \<not> hs_occupied s) (ip_handles c) = Some slot"
      "slot < length (ip_handles c)" "\<not> hs_occupied (ip_handles c ! slot)" by blast
  have live: "ipc_object_ref_is_live c object" using assms(3) by (simp add: ref_ok_def)
  show ?thesis
    by (rule that[OF s(2,3)])
      (simp_all add: ipc_install_handle_def s(1) resolve_live[OF live] put_handle_def[symmetric] Let_def
        acct_put_handle[OF assms(1) s(2,3) assms(3)])
qed

lemma install_retain:
  assumes "ip_acct c X" "0 < ipc_free_handle_count c" "ref_ok c (object, r)" "size X < 2 ^ 62"
  obtains slot where "slot < length (ip_handles c)" "\<not> hs_occupied (ip_handles c ! slot)"
    "ipc_install_handle c owner object r True =
      (Inr \<lparr>hd_slot = slot, hd_generation = next_generation (hs_generation (ip_handles c ! slot))\<rparr>,
       put_handle (set_references (or_slot object) (os_references (ip_objects c ! or_slot object) + 1) c) slot owner object r)"
    "ip_acct (put_handle (set_references (or_slot object) (os_references (ip_objects c ! or_slot object) + 1) c)
       slot owner object r) X"
proof -
  from free_handle[OF assms(2)] obtain slot where
    s: "position (\<lambda>s. \<not> hs_occupied s) (ip_handles c) = Some slot"
      "slot < length (ip_handles c)" "\<not> hs_occupied (ip_handles c ! slot)" by blast
  have live: "ipc_object_ref_is_live c object" using assms(3) by (simp add: ref_ok_def)
  let ?c1 = "set_references (or_slot object) (os_references (ip_objects c ! or_slot object) + 1) c"
  note r = acct_retain[OF assms(1) live assms(4)]
  have ok: "ref_ok ?c1 (object, r)"
    using assms(3) ref_ok_cong[OF skel_classes[OF set_references_same(2)]] by simp
  have "ip_acct (put_handle ?c1 slot owner object r) X"
    by (rule acct_put_handle[OF r(2) _ _ ok]) (use s in simp_all)
  moreover have "ipc_install_handle c owner object r True =
      (Inr \<lparr>hd_slot = slot, hd_generation = next_generation (hs_generation (ip_handles c ! slot))\<rparr>,
       put_handle ?c1 slot owner object r)"
    using r(1) by (simp add: ipc_install_handle_def s(1) resolve_live[OF live] put_handle_def Let_def)
  ultimately show ?thesis by (intro that[OF s(2,3)])
qed

text \<open>Allocating an object in a free slot: nothing refers to it yet.\<close>

definition put_object :: "ipc_core \<Rightarrow> nat \<Rightarrow> object_kind \<Rightarrow> ipc_core" where
  "put_object c slot kind = c\<lparr>ip_objects := (ip_objects c)[slot :=
     \<lparr>os_generation = next_generation (os_generation (ip_objects c ! slot)), os_references = 0, os_kind = kind\<rparr>]\<rparr>"

definition fresh_ref :: "ipc_core \<Rightarrow> nat \<Rightarrow> object_ref" where
  "fresh_ref c slot = \<lparr>or_slot = slot, or_generation = next_generation (os_generation (ip_objects c ! slot))\<rparr>"

lemma put_object_simps [simp]:
  "ip_handles (put_object c slot kind) = ip_handles c" "ip_services (put_object c slot kind) = ip_services c"
  "length (ip_objects (put_object c slot kind)) = length (ip_objects c)"
  "handle_refs (put_object c slot kind) = handle_refs c"
  by (simp_all add: put_object_def)

lemma put_object_nth:
  "i < length (ip_objects c) \<Longrightarrow> ip_objects (put_object c slot kind) ! i = (if i = slot then
     \<lparr>os_generation = next_generation (os_generation (ip_objects c ! slot)), os_references = 0, os_kind = kind\<rparr>
     else ip_objects c ! i)"
  by (simp add: put_object_def nth_upd)

lemma allocate_object:
  assumes "0 < ipc_free_object_count c"
  obtains slot where "slot < length (ip_objects c)" "os_kind (ip_objects c ! slot) = KFree"
    "ipc_allocate_object c kind = (Inr (fresh_ref c slot), put_object c slot kind)"
proof -
  obtain slot where s: "position (\<lambda>s. os_kind s = KFree) (ip_objects c) = Some slot"
    using count_if_position[OF assms[unfolded ipc_free_object_count_def]] by blast
  show ?thesis using position_SomeD[OF s]
    by (intro that[of slot]) (simp_all add: ipc_allocate_object_def s fresh_ref_def put_object_def Let_def)
qed

lemma free_object_count_put:
  assumes "slot < length (ip_objects c)" "os_kind (ip_objects c ! slot) = KFree" "kind \<noteq> KFree"
  shows "ipc_free_object_count (put_object c slot kind) + 1 = ipc_free_object_count c"
  using count_if_update[OF assms(1), of "\<lambda>s. os_kind s = KFree"] assms(2,3)
  by (simp add: ipc_free_object_count_def put_object_def)

lemma put_object_live:
  assumes "slot < length (ip_objects c)" "os_kind (ip_objects c ! slot) = KFree" "kind \<noteq> KFree"
  shows "ipc_object_ref_is_live (put_object c slot kind) x \<longleftrightarrow>
      x = fresh_ref c slot \<or> ipc_object_ref_is_live c x"
  using assms by (cases x) (auto simp: ipc_object_ref_is_live_def put_object_nth fresh_ref_def split: if_splits)

lemma put_object_refs:
  assumes "slot < length (ip_objects c)" "os_kind (ip_objects c ! slot) = KFree"
    "o_refs \<lparr>os_generation = g, os_references = 0, os_kind = kind\<rparr> = []"
  shows "inner_refs (put_object c slot kind) = inner_refs c" "all_refs (put_object c slot kind) = all_refs c"
proof -
  have "o_refs \<lparr>os_generation = next_generation (os_generation (ip_objects c ! slot)), os_references = 0, os_kind = kind\<rparr> = []"
    using assms(3) by (simp add: o_refs_def)
  then show 1: "inner_refs (put_object c slot kind) = inner_refs c"
    using inner_refs_update(2)[OF assms(1)] assms(2) by (simp add: put_object_def o_refs_def[of "ip_objects c ! slot"])
  show "all_refs (put_object c slot kind) = all_refs c" by (simp add: all_refs_def 1)
qed

lemma acct_put_object:
  assumes "ip_acct c X" and s: "slot < length (ip_objects c)" "os_kind (ip_objects c ! slot) = KFree"
    and k: "kind \<noteq> KFree" "kind_wf kind" "o_refs \<lparr>os_generation = g, os_references = 0, os_kind = kind\<rparr> = []"
  shows "ip_acct (put_object c slot kind) X"
proof -
  let ?c = "put_object c slot kind"
  note refs = put_object_refs[OF s k(3)]
  have dead: "\<not> ipc_object_ref_is_live c x" if "or_slot x = slot" for x
    using that s by (simp add: ipc_object_ref_is_live_def)
  have ok: "ref_ok ?c x" if "ref_ok c x" for x
  proof -
    have "or_slot (fst x) \<noteq> slot" using that dead by (auto simp: ref_ok_def)
    then show ?thesis using that
      by (simp add: ref_ok_def put_object_live[OF s k(1)]) (simp add: ipc_object_ref_is_live_def put_object_nth)
  qed
  have z: "count (image_mset fst (all_refs c) + X) x = 0" if "or_slot x = slot" for x
    using acct_live[OF assms(1), of x] dead[OF that] by (meson not_in_iff)
  have "os_references (ip_objects ?c ! i) = count (image_mset fst (all_refs c) + X) (ref_at ?c i)"
    if "i < length (ip_objects ?c)" "os_kind (ip_objects ?c ! i) \<noteq> KFree" for i
    using that acctD(5)[OF assms(1), of i] z[of "ref_at ?c i"] by (auto simp: put_object_nth)
  moreover have "ip_shape ?c" using acctD(1)[OF assms(1)] k(2) s
    by (auto simp: ip_shape_def put_object_def map_update list_all_update)
  ultimately show ?thesis
    using acctD(2-4)[OF assms(1)] ok by (auto simp: ip_acct_def ip_counts_def refs put_object_live[OF s k(1)])
qed

section \<open>Releasing\<close>

text \<open>Releasing and collecting only take things away.\<close>

definition kind_shrinks :: "object_kind \<Rightarrow> object_kind \<Rightarrow> bool" where
  "kind_shrinks k k' \<longleftrightarrow> k' = KFree \<or> k' = k \<or> (\<exists>ch. k = KChannel ch \<and> k' = KChannel (ch\<lparr>ch_peer := None\<rparr>))"

definition shrinks :: "ipc_core \<Rightarrow> ipc_core \<Rightarrow> bool" where
  "shrinks c c' \<longleftrightarrow> ip_handles c' = ip_handles c
     \<and> length (ip_objects c') = length (ip_objects c) \<and> length (ip_services c') = length (ip_services c)
     \<and> (\<forall>i < length (ip_objects c). os_generation (ip_objects c' ! i) = os_generation (ip_objects c ! i)
          \<and> kind_shrinks (os_kind (ip_objects c ! i)) (os_kind (ip_objects c' ! i)))
     \<and> (\<forall>r < length (ip_services c). ip_services c' ! r = ip_services c ! r \<or> ip_services c' ! r = SERVICE_EMPTY)"

lemma kind_shrinks_refl [simp]: "kind_shrinks k k"
  by (simp add: kind_shrinks_def)

lemma kind_shrinks_trans: "kind_shrinks k k' \<Longrightarrow> kind_shrinks k' k'' \<Longrightarrow> kind_shrinks k k''"
  by (auto simp: kind_shrinks_def)

lemma kind_shrinks_channel:
  assumes "kind_shrinks k (KChannel ch')"
  obtains ch where "k = KChannel ch" "ch_queue ch = ch_queue ch'" "ch' = ch \<or> ch_peer ch' = None"
  using assms that by (cases k) (auto simp: kind_shrinks_def)

lemma shrinks_refl [simp]: "shrinks c c"
  by (simp add: shrinks_def)

lemma shrinksD:
  assumes "shrinks c c'"
  shows "ip_handles c' = ip_handles c" "length (ip_objects c') = length (ip_objects c)"
    "length (ip_services c') = length (ip_services c)"
    "\<And>i. i < length (ip_objects c) \<Longrightarrow> os_generation (ip_objects c' ! i) = os_generation (ip_objects c ! i)"
    "\<And>i. i < length (ip_objects c) \<Longrightarrow> kind_shrinks (os_kind (ip_objects c ! i)) (os_kind (ip_objects c' ! i))"
    "\<And>r. r < length (ip_services c) \<Longrightarrow> ip_services c' ! r = ip_services c ! r \<or> ip_services c' ! r = SERVICE_EMPTY"
  using assms unfolding shrinks_def by blast+

lemma shrinks_trans:
  assumes "shrinks c c'" "shrinks c' c''"
  shows "shrinks c c''"
proof -
  note 1 = shrinksD[OF assms(1)] and 2 = shrinksD[OF assms(2)]
  have "kind_shrinks (os_kind (ip_objects c ! i)) (os_kind (ip_objects c'' ! i))" if "i < length (ip_objects c)" for i
    by (rule kind_shrinks_trans[OF 1(5)[OF that] 2(5)]) (use 1(2) that in simp)
  moreover have "ip_services c'' ! r = ip_services c ! r \<or> ip_services c'' ! r = SERVICE_EMPTY"
    if "r < length (ip_services c)" for r
    using 1(6)[OF that] 2(6)[of r] 1(3) that by auto
  ultimately show ?thesis using 1(1-4) 2(1-4) by (simp add: shrinks_def)
qed

lemma shrinks_live: "shrinks c c' \<Longrightarrow> ipc_object_ref_is_live c' x \<Longrightarrow> ipc_object_ref_is_live c x"
  using shrinksD(2)[of c c'] shrinksD(4,5)[of c c' "or_slot x"]
  by (auto simp: ipc_object_ref_is_live_def kind_shrinks_def)

lemma SERVICE_EMPTY_simps [simp]:
  "\<not> se_occupied SERVICE_EMPTY" "se_pending SERVICE_EMPTY = PQ_EMPTY" "s_refs SERVICE_EMPTY = []"
  by (simp_all add: SERVICE_EMPTY_def s_refs_def)

lemma shrinks_refs:
  assumes "shrinks c c'"
  shows "x \<in># inner_refs c' \<Longrightarrow> x \<in># inner_refs c" "x \<in># all_refs c' \<Longrightarrow> x \<in># all_refs c"
proof -
  show 1: "x \<in># inner_refs c" if x: "x \<in># inner_refs c'"
  proof -
    consider r where "r < length (ip_services c')" "x \<in> set (s_refs (ip_services c' ! r))"
      | i where "i < length (ip_objects c')" "x \<in> set (o_refs (ip_objects c' ! i))"
      using x unfolding in_inner_refs by (metis in_set_conv_nth)
    then show ?thesis
    proof cases
      case 1
      then show ?thesis using shrinksD(3,6)[OF assms] by (metis SERVICE_EMPTY_simps(3) empty_iff empty_set nth_in_inner_refs(1))
    next
      case 2
      then have "x \<in> set (o_refs (ip_objects c ! i))"
        using shrinksD(2)[OF assms] shrinksD(5)[OF assms, of i]
        by (auto simp: kind_shrinks_def o_refs_def split: object_kind.splits)
      then show ?thesis using 2(1) shrinksD(2)[OF assms] by (intro nth_in_inner_refs(2)) simp_all
    qed
  qed
  show "x \<in># all_refs c" if "x \<in># all_refs c'"
    using that 1 handle_refs_cong[OF shrinksD(1)[OF assms]] by (auto simp: all_refs_def)
qed

lemma shrinks_shape:
  assumes "shrinks c c'" "ip_shape c"
  shows "ip_shape c'"
proof -
  have "kind_wf (os_kind (ip_objects c' ! i))" if "i < length (ip_objects c')" for i
    using shrinksD(2)[OF assms(1)] shrinksD(5)[OF assms(1), of i] that assms(2)
    by (auto simp: ip_shape_def list_all_length kind_shrinks_def kind_wf_def split: object_kind.splits)
  moreover have "pq_wf (se_pending (ip_services c' ! r))" if "r < length (ip_services c')" for r
    using shrinksD(3)[OF assms(1)] shrinksD(6)[OF assms(1), of r] that assms(2) by (auto simp: ip_shape_def list_all_length)
  ultimately show ?thesis using shrinksD(1,2,3)[OF assms(1)] assms(2) by (simp add: ip_shape_def list_all_length)
qed

lemma shrinks_names:
  assumes "shrinks c c'" "ip_names_ok c"
  shows "ip_names_ok c'"
proof -
  have "ip_services c' ! r = ip_services c ! r" if "r < length (ip_services c)" "se_occupied (ip_services c' ! r)" for r
    using shrinksD(6)[OF assms(1) that(1)] that(2) by auto
  then show ?thesis using assms(2) unfolding ip_names_ok_def all_set_conv_all_nth shrinksD(3)[OF assms(1)] by metis
qed

lemma shrinks_set_references [simp]: "shrinks c (set_references i n c)"
  by (simp add: shrinks_def)

lemma shrinks_set_kind: "i < length (ip_objects c) \<Longrightarrow> kind_shrinks (os_kind (ip_objects c ! i)) k \<Longrightarrow> shrinks c (set_kind i k c)"
  by (simp add: shrinks_def)

lemma shrinks_services [simp]: "shrinks c (c\<lparr>ip_services := (ip_services c)[r := SERVICE_EMPTY]\<rparr>)"
  by (simp add: shrinks_def nth_upd)

text \<open>Giving up a counted reference that is not the last.\<close>

definition ip_core :: "ipc_core \<Rightarrow> object_ref multiset \<Rightarrow> bool" where
  "ip_core c X \<longleftrightarrow> ip_acct c X \<and> ip_peers c \<and> ip_services_ok c"

lemma core_release_one:
  assumes "ip_core c (add_mset x X)"
  shows "ip_core (set_references (or_slot x) (os_references (ip_objects c ! or_slot x) - 1) c) X"
proof -
  have a: "ip_acct c (add_mset x X)" using assms by (simp add: ip_core_def)
  then have live: "ipc_object_ref_is_live c x" by (auto dest: acctD(4))
  note cl = skel_classes[OF set_references_same(2)]
  have "ip_acct (set_references (or_slot x) (os_references (ip_objects c ! or_slot x) - 1) c) X"
    by (rule acct_set_references[OF a live]) (use acct_references[OF a live] acctD(4)[OF a] in auto)
  moreover have "ip_peers (set_references (or_slot x) (os_references (ip_objects c ! or_slot x) - 1) c)"
    by (rule peers_cong[OF set_references_same(2)]) (use assms in \<open>simp add: ip_core_def\<close>)
  moreover have "ip_services_ok (set_references (or_slot x) (os_references (ip_objects c ! or_slot x) - 1) c)"
    by (rule services_ok_cong[OF cl _ acctD(1)[OF a]]) (use assms in \<open>simp_all add: ip_core_def\<close>)
  ultimately show ?thesis by (simp add: ip_core_def)
qed

text \<open>Freeing an object whose last reference went: what it referred to is still to be released.\<close>

lemma set_kind_refs:
  assumes "i < length (ip_objects c)"
  shows "inner_refs (set_kind i k c) + mset (o_refs (ip_objects c ! i)) =
      inner_refs c + mset (o_refs ((ip_objects c ! i)\<lparr>os_kind := k\<rparr>))"
  using inner_refs_update(2)[OF assms] by (simp add: set_kind_def)

lemma acct_free:
  assumes a: "ip_acct c (add_mset x X)" and one: "os_references (ip_objects c ! or_slot x) = 1"
  defines "c2 \<equiv> set_kind (or_slot x) KFree (set_references (or_slot x) 0 c)"
  shows "ip_acct c2 (X + mset (map fst (o_refs (ip_objects c ! or_slot x))))"
    "\<And>y. ipc_object_ref_is_live c2 y \<longleftrightarrow> ipc_object_ref_is_live c y \<and> y \<noteq> x"
proof -
  let ?m = "mset (o_refs (ip_objects c ! or_slot x))"
  have live: "ipc_object_ref_is_live c x" using a by (auto dest: acctD(4))
  then have xi: "or_slot x < length (ip_objects c)" by (simp add: ipc_object_ref_is_live_def)
  show l2: "ipc_object_ref_is_live c2 y \<longleftrightarrow> ipc_object_ref_is_live c y \<and> y \<noteq> x" for y
    using live by (cases x; cases y) (auto simp: ipc_object_ref_is_live_def c2_def)
  have "inner_refs c2 + ?m = inner_refs c"
    using set_kind_refs[of "or_slot x" "set_references (or_slot x) 0 c" KFree] xi
    by (simp add: c2_def set_references_same(1)) (simp add: o_refs_def)
  then have refs: "inner_refs c2 + ?m = inner_refs c" "all_refs c2 + ?m = all_refs c"
    by (simp_all add: all_refs_def c2_def ac_simps)
  have sub: "y \<in># all_refs c2 \<Longrightarrow> y \<in># all_refs c" "y \<in># inner_refs c2 \<Longrightarrow> y \<in># inner_refs c" for y
    using refs by (metis union_iff)+
  have none: "x \<notin># image_mset fst (all_refs c) + X"
    using acct_references[OF a live] one by (simp add: count_eq_zero_iff del: count_image_mset)
  have ok: "ref_ok c2 y" if "y \<in># all_refs c2" for y
  proof -
    have y: "ref_ok c y" "y \<in># all_refs c" using acctD(2)[OF a] sub(1) that by blast+
    then have "fst y \<noteq> x" using none by auto
    moreover have ly: "ipc_object_ref_is_live c (fst y)" using y(1) by (simp add: ref_ok_def)
    ultimately have "ipc_object_ref_is_live c2 (fst y)" "or_slot (fst y) \<noteq> or_slot x"
      using l2 live_slot_inj[OF ly live] by blast+
    then show ?thesis using y(1) by (simp add: ref_ok_def c2_def)
  qed
  have sum: "image_mset fst (all_refs c2) + (X + mset (map fst (o_refs (ip_objects c ! or_slot x)))) =
      image_mset fst (all_refs c) + X"
    by (simp add: refs(2)[symmetric] ac_simps)
  have "os_references (ip_objects c2 ! i) = count (image_mset fst (all_refs c) + X) (ref_at c2 i)"
    if "i < length (ip_objects c2)" "os_kind (ip_objects c2 ! i) \<noteq> KFree" for i
  proof -
    have i: "i \<noteq> or_slot x" "i < length (ip_objects c)" "ip_objects c2 ! i = ip_objects c ! i"
      using that by (auto simp: c2_def split: if_splits)
    then have "ref_at c i \<noteq> x" by auto
    then show ?thesis using acctD(5)[OF a i(2)] that(2) i(3) by simp
  qed
  then have "ip_counts c2 (X + mset (map fst (o_refs (ip_objects c ! or_slot x))))" unfolding ip_counts_def sum by blast
  moreover have "ipc_object_ref_is_live c2 y" if "y \<in># X + mset (map fst (o_refs (ip_objects c ! or_slot x)))" for y
  proof -
    have y: "y \<in># image_mset fst (all_refs c) + X" using that sum by (metis union_iff)
    then have "ipc_object_ref_is_live c y" using acct_live[OF a] by auto
    then show ?thesis using l2 y none by blast
  qed
  moreover have "ip_shape c2" unfolding c2_def
    by (rule shrinks_shape[OF shrinks_set_kind]) (use acctD(1)[OF a] xi in \<open>simp_all add: kind_shrinks_def\<close>)
  ultimately show "ip_acct c2 (X + mset (map fst (o_refs (ip_objects c ! or_slot x))))"
    unfolding ip_acct_def using ok acctD(3)[OF a] sub(2) by blast
qed

end
