(* ===== verification/Ipc_Collector.thy ===== *)
theory Ipc_Collector
  imports Ipc_Invariant
begin

text \<open>
  Reclamation in the IPC core: releasing a reference frees the object when it was the last
  one and releases, recursively, what the object referred to, keeping the accounts; the
  collector marks exactly the reachable objects, frees the others and restores exact counts.
\<close>

section \<open>Release\<close>

lemma acct_set_peer:
  assumes "ip_acct c X" "i < length (ip_objects c)" "os_kind (ip_objects c ! i) = KChannel ch"
  shows "ip_acct (set_kind i (KChannel (ch\<lparr>ch_peer := p\<rparr>)) c) X"
proof -
  let ?c = "set_kind i (KChannel (ch\<lparr>ch_peer := p\<rparr>)) c"
  have r: "inner_refs ?c = inner_refs c"
    by (rule inner_refs_cong) (use assms in \<open>simp_all add: set_kind_def map_update_same o_refs_def\<close>)
  have w: "kind_wf (KChannel (ch\<lparr>ch_peer := p\<rparr>))"
    using acctD(1)[OF assms(1)] assms(2,3) by (auto simp: ip_shape_def list_all_length kind_wf_def)
  have k: "map os_kind (ip_objects ?c) = (map os_kind (ip_objects c))[i := KChannel (ch\<lparr>ch_peer := p\<rparr>)]"
    by (simp add: set_kind_def map_update)
  have s: "ip_shape ?c"
    using acctD(1)[OF assms(1)] list_all_update[of kind_wf "map os_kind (ip_objects c)" _ i] w
    unfolding ip_shape_def k by simp
  show ?thesis
    by (rule acct_move[OF assms(1) _ s])
      (use assms(3) in \<open>auto simp: all_refs_def r, auto simp: set_kind_def map_update_same os_class_def\<close>)
qed

text \<open>Peers and the registry when objects go away: no peer of a live channel may dangle.\<close>

lemma peers_shrink:
  assumes peers: "ip_peers c" and sh: "shrinks c c'"
    and keep: "\<And>i ch p. i < length (ip_objects c) \<Longrightarrow> os_kind (ip_objects c' ! i) = KChannel ch \<Longrightarrow>
      ch_peer ch = Some p \<Longrightarrow> ipc_object_ref_is_live c' p"
    and drop: "\<And>i ch ch' p. i < length (ip_objects c) \<Longrightarrow> os_kind (ip_objects c ! i) = KChannel ch \<Longrightarrow>
      os_kind (ip_objects c' ! i) = KChannel ch' \<Longrightarrow> ch_peer ch = Some p \<Longrightarrow> ch_peer ch' = None \<Longrightarrow>
      \<not> ipc_object_ref_is_live c' p"
  shows "ip_peers c'"
  unfolding ip_peers_def
proof (intro allI impI)
  fix i ch p
  assume i: "i < length (ip_objects c')" "os_kind (ip_objects c' ! i) = KChannel ch" "ch_peer ch = Some p"
  have n: "i < length (ip_objects c)" using i(1) shrinksD(2)[OF sh] by simp
  have p: "ipc_object_ref_is_live c' p" by (rule keep[OF n i(2,3)])
  have ri: "ref_at c' i = ref_at c i" using shrinksD(4)[OF sh n] by simp
  obtain ch0 where "os_kind (ip_objects c ! i) = KChannel ch0" "ch_peer ch0 = Some p"
    using shrinksD(5)[OF sh n] i(2,3) by (auto elim: kind_shrinks_channel)
  then obtain pc where pc: "kind_of c p = KChannel pc" "ch_peer pc = Some (ref_at c i)"
    using peers n unfolding ip_peers_def by blast
  have pn: "or_slot p < length (ip_objects c)" using p shrinksD(2)[OF sh] by (simp add: ipc_object_ref_is_live_def)
  obtain pc' where pc': "kind_of c' p = KChannel pc'" "ch_peer pc' = None \<or> pc' = pc"
    using shrinksD(5)[OF sh pn] pc(1) p by (auto simp: kind_shrinks_def ipc_object_ref_is_live_def)
  have "ipc_object_ref_is_live c' (ref_at c i)"
    unfolding ri[symmetric] live_ref_at using i(1,2) by simp
  then have "ch_peer pc' \<noteq> None" using drop[OF pn pc(1) pc'(1) pc(2)] by blast
  then have "ch_peer pc' = Some (ref_at c' i)" using pc'(2) pc(2) ri by auto
  then show "ipc_object_ref_is_live c' p \<and> (\<exists>ch'. kind_of c' p = KChannel ch' \<and> ch_peer ch' = Some (ref_at c' i))"
    using p pc'(1) by blast
qed

lemma services_okD:
  assumes "ip_services_ok c" "i < length (ip_objects c)" "os_kind (ip_objects c ! i) = KService r"
  shows "r < SERVICE_REGISTRY_CAPACITY" "se_occupied (ip_services c ! r)"
    "\<And>j. j < length (ip_objects c) \<Longrightarrow> os_kind (ip_objects c ! j) = KService r \<Longrightarrow> j = i"
  using assms unfolding ip_services_ok_def by blast+

lemma services_ok_shrink:
  assumes ok: "ip_services_ok c" and shape: "ip_shape c" and sh: "shrinks c c'"
    and keep: "\<And>i r. i < length (ip_objects c) \<Longrightarrow> os_kind (ip_objects c ! i) = KService r \<Longrightarrow>
      (os_kind (ip_objects c' ! i) = KService r) = se_occupied (ip_services c' ! r)"
  shows "ip_services_ok c'"
proof -
  note D = shrinksD[OF sh]
  have old: "os_kind (ip_objects c ! i) = KService r"
    if "i < length (ip_objects c)" "os_kind (ip_objects c' ! i) = KService r" for i r
    using D(5)[OF that(1)] that(2) by (auto simp: kind_shrinks_def)
  have occ: "se_occupied (ip_services c ! r)" if "r < length (ip_services c)" "se_occupied (ip_services c' ! r)" for r
    using D(6)[OF that(1)] that(2) by auto
  show ?thesis unfolding ip_services_ok_def D(2,3)
  proof (intro conjI allI impI)
    fix i r assume i: "i < length (ip_objects c)" "os_kind (ip_objects c' ! i) = KService r"
    note o = old[OF i]
    show "r < SERVICE_REGISTRY_CAPACITY" using ok i(1) o unfolding ip_services_ok_def by blast
    show "se_occupied (ip_services c' ! r)" using keep[OF i(1) o] i(2) by simp
    show "j = i" if "j < length (ip_objects c)" "os_kind (ip_objects c' ! j) = KService r" for j
      using ok i(1) o that(1) old[OF that] unfolding ip_services_ok_def by blast
  next
    fix r assume r: "r < length (ip_services c)" "se_occupied (ip_services c' ! r)"
    then obtain i where i: "i < length (ip_objects c)" "os_kind (ip_objects c ! i) = KService r"
      using ok occ unfolding ip_services_ok_def by blast
    then show "\<exists>i < length (ip_objects c). os_kind (ip_objects c' ! i) = KService r" using keep[OF i] r(2) by blast
  qed
qed

text \<open>The state after freeing a channel and detaching its peer.\<close>

lemma core_free_channel:
  assumes core: "ip_core c (add_mset x X)" and one: "os_references (ip_objects c ! or_slot x) = 1"
    and ch: "kind_of c x = KChannel ch"
  defines "c2 \<equiv> set_kind (or_slot x) KFree (set_references (or_slot x) 0 c)"
  shows "ip_core (ipc_unlink_peer c2 x ch) (X + mset (map fst (q_refs (ch_queue ch))))"
    "shrinks c (ipc_unlink_peer c2 x ch)"
proof -
  have a: "ip_acct c (add_mset x X)" and p: "ip_peers c" and sv: "ip_services_ok c"
    using core by (simp_all add: ip_core_def)
  have live: "ipc_object_ref_is_live c x" using a by (auto dest: acctD(4))
  then have xi: "or_slot x < length (ip_objects c)" and xg: "x = ref_at c (or_slot x)"
    by (simp add: ipc_object_ref_is_live_def, rule live_eq_ref_at)
  note f = acct_free[OF a one, folded c2_def]
  have q: "o_refs (ip_objects c ! or_slot x) = q_refs (ch_queue ch)" using ch by (simp add: o_refs_def)
  have o2: "ip_objects c2 ! i = (if i = or_slot x then (ip_objects c ! i)\<lparr>os_references := 0, os_kind := KFree\<rparr>
      else ip_objects c ! i)" "length (ip_objects c2) = length (ip_objects c)" for i using xi by (auto simp: c2_def)
  have sh2: "shrinks c c2" unfolding c2_def
    by (rule shrinks_trans[OF shrinks_set_references shrinks_set_kind]) (use xi in \<open>simp_all add: kind_shrinks_def\<close>)
  define c3 where "c3 = ipc_unlink_peer c2 x ch"
  consider (same) "c3 = c2" "\<And>y. ch_peer ch = Some y \<Longrightarrow> y = x"
    | (unlink) y ych where "ch_peer ch = Some y" "y \<noteq> x" "ipc_object_ref_is_live c y" "kind_of c y = KChannel ych"
        "ch_peer ych = Some x" "c3 = set_kind (or_slot y) (KChannel (ych\<lparr>ch_peer := None\<rparr>)) c2"
  proof (cases "ch_peer ch")
    case None
    then show ?thesis by (intro same) (simp_all add: c3_def ipc_unlink_peer_def)
  next
    case (Some y)
    then obtain ych where y: "ipc_object_ref_is_live c y" "kind_of c y = KChannel ych" "ch_peer ych = Some x"
      using p xi ch xg unfolding ip_peers_def by metis
    show ?thesis
    proof (cases "y = x")
      case True
      then show ?thesis using Some f(2)[of y] by (intro same) (simp_all add: c3_def ipc_unlink_peer_def resolve_dead)
    next
      case False
      then have "ipc_object_ref_is_live c2 y" "or_slot y \<noteq> or_slot x" using f(2) y(1) live_slot_inj[OF y(1) live] by blast+
      then show ?thesis using Some False y by (intro unlink[of y ych])
        (simp_all add: c3_def ipc_unlink_peer_def resolve_live o2)
    qed
  qed
  then have "ip_acct c3 (X + mset (map fst (q_refs (ch_queue ch)))) \<and> shrinks c c3 \<and> ip_peers c3
      \<and> ip_services c3 = ip_services c
      \<and> (\<forall>i r. i < length (ip_objects c) \<longrightarrow> os_kind (ip_objects c ! i) = KService r \<longrightarrow> os_kind (ip_objects c3 ! i) = KService r)"
  proof cases
    case same
    have "ip_peers c2"
    proof (rule peers_shrink[OF p sh2])
      fix i ich y assume i: "i < length (ip_objects c)" "os_kind (ip_objects c2 ! i) = KChannel ich" "ch_peer ich = Some y"
      then have k: "i \<noteq> or_slot x" "os_kind (ip_objects c ! i) = KChannel ich" by (auto simp: o2 split: if_splits)
      have y: "ipc_object_ref_is_live c y" "y = x \<Longrightarrow> ch_peer ch = Some (ref_at c i)"
        using p i(1,3) k(2) ch unfolding ip_peers_def by auto
      have "ref_at c i \<noteq> x" using k(1) by (metis object_ref.select_convs(1))
      then have "y \<noteq> x" using y(2) same(2) by blast
      then show "ipc_object_ref_is_live c2 y" using y(1) by (simp add: f(2))
    qed (auto simp: o2 split: if_splits)
    then show ?thesis using f(1) sh2 same(1) ch by (simp add: q o2) (auto simp: c2_def)
  next
    case (unlink y ych)
    have yi: "or_slot y < length (ip_objects c)" "or_slot y \<noteq> or_slot x"
      using unlink(2,3) live_slot_inj[OF unlink(3) live] by (auto simp: ipc_object_ref_is_live_def)
    have o3: "ip_objects c3 ! i = (if i = or_slot y then (ip_objects c ! i)\<lparr>os_kind := KChannel (ych\<lparr>ch_peer := None\<rparr>)\<rparr>
        else ip_objects c2 ! i)" "length (ip_objects c3) = length (ip_objects c)" for i
      using unlink(6) yi by (auto simp: o2)
    have l3: "ipc_object_ref_is_live c3 z \<longleftrightarrow> ipc_object_ref_is_live c z \<and> z \<noteq> x" for z
      using f(2)[of z] unlink(4) yi by (auto simp: ipc_object_ref_is_live_def o3 o2)
    have sh3: "shrinks c c3" unfolding unlink(6)
      by (rule shrinks_trans[OF sh2 shrinks_set_kind]) (use yi unlink(4) in \<open>auto simp: o2 kind_shrinks_def\<close>)
    have "ip_peers c3"
    proof (rule peers_shrink[OF p sh3])
      fix i ich z assume i: "i < length (ip_objects c)" "os_kind (ip_objects c3 ! i) = KChannel ich" "ch_peer ich = Some z"
      then have k: "i \<noteq> or_slot x" "i \<noteq> or_slot y" "os_kind (ip_objects c ! i) = KChannel ich"
        using yi(2) by (auto simp: o3 o2 split: if_splits)
      have z: "ipc_object_ref_is_live c z" "z = x \<Longrightarrow> ch_peer ch = Some (ref_at c i)"
        using p i(1,3) k(3) ch unfolding ip_peers_def by auto
      have "ref_at c i \<noteq> y" using k(2) by (metis object_ref.select_convs(1))
      then have "z \<noteq> x" using z(2) unlink(1) by force
      then show "ipc_object_ref_is_live c3 z" using z(1) by (simp add: l3)
    next
      fix i ich ich' z
      assume "i < length (ip_objects c)" "os_kind (ip_objects c ! i) = KChannel ich"
        "os_kind (ip_objects c3 ! i) = KChannel ich'" "ch_peer ich = Some z" "ch_peer ich' = None"
      then show "\<not> ipc_object_ref_is_live c3 z" using unlink(4,5) by (auto simp: l3 o3 o2 split: if_splits)
    qed
    moreover have "ip_acct c3 (X + mset (map fst (q_refs (ch_queue ch))))" unfolding unlink(6)
      by (rule acct_set_peer[OF f(1)[unfolded q]]) (use yi unlink(4) in \<open>auto simp: o2\<close>)
    ultimately show ?thesis using sh3 unlink(4,6) ch yi by (simp add: o2 o3 q) (auto simp: c2_def)
  qed
  moreover from this have "ip_services_ok c3"
    by (intro services_ok_shrink[OF sv acctD(1)[OF a]]) (use sv in \<open>auto simp: ip_services_ok_def\<close>)
  ultimately show "ip_core (ipc_unlink_peer c2 x ch) (X + mset (map fst (q_refs (ch_queue ch))))"
    "shrinks c (ipc_unlink_peer c2 x ch)" unfolding c3_def ip_core_def by blast+
qed

lemma core_free_service:
  assumes core: "ip_core c (add_mset x X)" and one: "os_references (ip_objects c ! or_slot x) = 1"
    and kind: "kind_of c x = KService r"
  defines "c2 \<equiv> set_kind (or_slot x) KFree (set_references (or_slot x) 0 c)"
  defines "c3 \<equiv> c2\<lparr>ip_services := (ip_services c2)[r := SERVICE_EMPTY]\<rparr>"
  shows "ip_core c3 (X + mset (map pc_endpoint (pq_list (se_pending (ip_services c2 ! r)))))"
    "shrinks c c3" "r < SERVICE_REGISTRY_CAPACITY" "se_occupied (ip_services c2 ! r)"
    "pq_wf (se_pending (ip_services c2 ! r))"
proof -
  have a: "ip_acct c (add_mset x X)" and p: "ip_peers c" and sv: "ip_services_ok c"
    using core by (simp_all add: ip_core_def)
  have live: "ipc_object_ref_is_live c x" using a by (auto dest: acctD(4))
  then have xi: "or_slot x < length (ip_objects c)" by (simp add: ipc_object_ref_is_live_def)
  show r: "r < SERVICE_REGISTRY_CAPACITY" "se_occupied (ip_services c2 ! r)"
    using sv xi kind by (auto simp: ip_services_ok_def c2_def)
  have len: "length (ip_services c) = SERVICE_REGISTRY_CAPACITY" using acctD(1)[OF a] by (simp add: ip_shape_def)
  show "pq_wf (se_pending (ip_services c2 ! r))"
    using acctD(1)[OF a] r(1) by (simp add: ip_shape_def list_all_length c2_def)
  note f = acct_free[OF a one, folded c2_def]
  have sh2: "shrinks c c2" unfolding c2_def
    by (rule shrinks_trans[OF shrinks_set_references shrinks_set_kind]) (use xi in \<open>simp_all add: kind_shrinks_def\<close>)
  show sh: "shrinks c c3" unfolding c3_def by (rule shrinks_trans[OF sh2 shrinks_services])
  have a2: "ip_acct c2 X" using f(1) kind by (simp add: o_refs_def)
  have inner: "inner_refs c3 + mset (s_refs (ip_services c2 ! r)) = inner_refs c2"
    using inner_refs_update(1)[of r c2 SERVICE_EMPTY] r(1) len by (simp add: c3_def c2_def)
  have "handle_refs c3 = handle_refs c2" by (simp add: c3_def)
  then have refs: "all_refs c3 + mset (s_refs (ip_services c2 ! r)) = all_refs c2"
    using inner by (simp add: all_refs_def ac_simps)
  have "image_mset fst (mset (s_refs (ip_services c2 ! r))) = mset (map pc_endpoint (pq_list (se_pending (ip_services c2 ! r))))"
    using r(2) by (simp add: s_refs_def pc_ref_def multiset.map_comp comp_def)
  then have "ip_acct c3 (X + mset (map pc_endpoint (pq_list (se_pending (ip_services c2 ! r)))))"
    by (intro acct_move[OF a2 _ shrinks_shape[OF sh acctD(1)[OF a]]])
      (use inner in \<open>auto simp: c3_def refs[symmetric] ac_simps\<close>, metis inner union_iff c3_def)
  moreover have "ip_peers c3"
  proof (rule peers_shrink[OF p sh])
    have o: "os_kind (ip_objects c3 ! i) = (if i = or_slot x then KFree else os_kind (ip_objects c ! i))" for i
      using xi by (auto simp: c3_def c2_def)
    fix i ch y assume i: "i < length (ip_objects c)" "os_kind (ip_objects c3 ! i) = KChannel ch" "ch_peer ch = Some y"
    then have "ipc_object_ref_is_live c y" "y \<noteq> x" using p kind unfolding ip_peers_def by (auto simp: o split: if_splits)
    then have "ipc_object_ref_is_live c2 y" by (simp add: f(2))
    then show "ipc_object_ref_is_live c3 y" by (simp add: c3_def ipc_object_ref_is_live_def)
  qed (use xi in \<open>auto simp: c3_def c2_def split: if_splits\<close>)
  moreover have "ip_services_ok c3"
  proof (rule services_ok_shrink[OF sv acctD(1)[OF a] sh])
    fix i r' assume i: "i < length (ip_objects c)" "os_kind (ip_objects c ! i) = KService r'"
    note r' = services_okD[OF sv i]
    have "r' = r \<longleftrightarrow> i = or_slot x" using r'(3)[OF xi] kind i(2) by auto
    then show "(os_kind (ip_objects c3 ! i) = KService r') = se_occupied (ip_services c3 ! r')"
      using xi i len r'(1,2) by (simp add: c3_def c2_def nth_upd) blast
  qed
  ultimately show "ip_core c3 (X + mset (map pc_endpoint (pq_list (se_pending (ip_services c2 ! r)))))"
    by (simp add: ip_core_def)
qed

text \<open>Releasing keeps the accounts, whatever else is still owed.\<close>

lemma release_core:
  "ip_core c (add_mset x X) \<Longrightarrow> ip_core (ipc_release_object c x) X \<and> shrinks c (ipc_release_object c x)"
  "\<lbrakk>r < SERVICE_REGISTRY_CAPACITY; se_occupied (ip_services d ! r); pq_wf (se_pending (ip_services d ! r));
    ip_core (d\<lparr>ip_services := (ip_services d)[r := SERVICE_EMPTY]\<rparr>)
      (X + mset (map pc_endpoint (pq_list (se_pending (ip_services d ! r)))))\<rbrakk> \<Longrightarrow>
   ip_core (ipc_remove_service d r) X \<and> shrinks (d\<lparr>ip_services := (ip_services d)[r := SERVICE_EMPTY]\<rparr>) (ipc_remove_service d r)"
  "ip_core e (X + mset xs) \<Longrightarrow> ip_core (ipc_release_each e xs) X \<and> shrinks e (ipc_release_each e xs)"
proof (induction c x and d r and e xs arbitrary: X and X and X
    rule: ipc_release_object_ipc_remove_service_ipc_release_each.induct)
  case (1 c x)
  have a: "ip_acct c (add_mset x X)" using 1(3) by (simp add: ip_core_def)
  then have live: "ipc_object_ref_is_live c x" by (auto dest: acctD(4))
  note res = resolve_live[OF live]
  have pos: "os_references (ip_objects c ! or_slot x) \<noteq> 0" using acct_references[OF a live] by simp
  show ?case
  proof (cases "os_references (ip_objects c ! or_slot x) = 1")
    case False
    then show ?thesis using core_release_one[OF 1(3)] pos
      by (simp add: ipc_release_object.simps[of c x] res Let_def)
  next
    case True
    let ?c2 = "set_kind (or_slot x) KFree (set_references (or_slot x) 0 c)"
    show ?thesis
    proof (cases "kind_of c x")
      case KFree
      then show ?thesis using live by (simp add: ipc_object_ref_is_live_def)
    next
      case (KChannel ch)
      note f = core_free_channel[OF 1(3) True KChannel]
      have "mq_wf (ch_queue ch)" using acctD(1)[OF a] KChannel live
        by (auto simp: ip_shape_def list_all_length kind_wf_def ipc_object_ref_is_live_def)
      then have "concat (map qm_refs (mq_drain (ch_queue ch))) = q_refs (ch_queue ch)" by (simp add: mq_drain_list q_refs_def)
      then have "ipc_release_object c x = ipc_release_each (ipc_unlink_peer ?c2 x ch) (map fst (q_refs (ch_queue ch)))"
        using True KChannel by (simp add: ipc_release_object.simps[of c x] res Let_def)
      moreover have "ip_core (ipc_release_each (ipc_unlink_peer ?c2 x ch) (map fst (q_refs (ch_queue ch)))) X
          \<and> shrinks (ipc_unlink_peer ?c2 x ch) (ipc_release_each (ipc_unlink_peer ?c2 x ch) (map fst (q_refs (ch_queue ch))))"
        using 1(1)[OF res, of "set_references (or_slot x) 0 c" ?c2 ch X] True KChannel f(1)
          \<open>concat (map qm_refs (mq_drain (ch_queue ch))) = q_refs (ch_queue ch)\<close> by simp
      ultimately show ?thesis using shrinks_trans[OF f(2)] by simp
    next
      case (KService r)
      note f = core_free_service[OF 1(3) True KService]
      have "ipc_release_object c x = ipc_remove_service ?c2 r"
        using True KService by (simp add: ipc_release_object.simps[of c x] res Let_def)
      moreover have "ip_core (ipc_remove_service ?c2 r) X
          \<and> shrinks (?c2\<lparr>ip_services := (ip_services ?c2)[r := SERVICE_EMPTY]\<rparr>) (ipc_remove_service ?c2 r)"
        using 1(2)[OF res, of "set_references (or_slot x) 0 c" ?c2 r X] True KService f(1,3-5) by simp
      ultimately show ?thesis using shrinks_trans[OF f(2)] by simp
    qed
  qed
next
  case (2 d r)
  have "ipc_remove_service d r = ipc_release_each (d\<lparr>ip_services := (ip_services d)[r := SERVICE_EMPTY]\<rparr>)
      (map pc_endpoint (pq_list (se_pending (ip_services d ! r))))"
    using 2(2-4) by (simp add: ipc_remove_service.simps[of d r] Let_def pq_drain_list)
  then show ?case using 2(1)[OF _ refl, of X] 2(2-5) by (simp add: pq_drain_list)
next
  case (3 e)
  then show ?case by simp
next
  case (4 e x xs)
  have "ip_core e (add_mset x (X + mset xs))" using 4(3) by simp
  then have 1: "ip_core (ipc_release_object e x) (X + mset xs)" "shrinks e (ipc_release_object e x)" using 4(1) by blast+
  then show ?case using 4(2)[OF 1(1)] shrinks_trans[OF 1(2)] by simp
qed

section \<open>Marking\<close>

lemma shape_channel: "ip_shape c \<Longrightarrow> i < length (ip_objects c) \<Longrightarrow> os_kind (ip_objects c ! i) = KChannel ch \<Longrightarrow> mq_wf (ch_queue ch)"
  by (auto simp: ip_shape_def list_all_length kind_wf_def)

lemma shape_service: "ip_shape c \<Longrightarrow> r < SERVICE_REGISTRY_CAPACITY \<Longrightarrow> pq_wf (se_pending (ip_services c ! r))"
  by (auto simp: ip_shape_def list_all_length)

lemma fold_transfers:
  "fold (\<lambda>m a. case qm_transfer m of Some t \<Rightarrow> f (qt_object t) a | None \<Rightarrow> a) ms a = fold f (map fst (concat (map qm_refs ms))) a"
  by (induction ms arbitrary: a) (auto simp: qm_refs_def split: option.split)

lemma fold_queue:
  assumes "mq_wf q"
  shows "fold (\<lambda>offset a. case qm_transfer (mq_entries q ! ((mq_head q + offset) mod CHANNEL_QUEUE_CAPACITY)) of
            Some t \<Rightarrow> f (qt_object t) a | None \<Rightarrow> a) [0..<mq_len q] a = fold f (map fst (q_refs q)) a"
  using assms fold_transfers[of f "mq_list q" a]
  by (simp add: mq_list_def ring_list_def fold_map comp_def q_refs_def mq_wf_def)

lemma fold_pending:
  assumes "pq_wf q"
  shows "fold (\<lambda>offset. f (pc_endpoint (pq_entries q ! ((pq_head q + offset) mod SERVICE_PENDING_CAPACITY)))) [0..<pq_len q] a =
      fold f (map pc_endpoint (pq_list q)) a"
  using assms by (simp add: pq_list_def ring_list_def fold_map comp_def pq_wf_def)

lemma mark_slot_children:
  assumes "ip_shape c" "slot < length (ip_objects c)"
  shows "mark_slot c slot acc = (if fst acc ! slot then fold (mark_ref c) (children c slot) acc else acc)"
proof (cases "os_kind (ip_objects c ! slot)")
  case (KChannel ch)
  then show ?thesis using fold_queue[OF shape_channel[OF assms KChannel], of "mark_ref c" acc]
    by (simp add: mark_slot_def children_def)
next
  case (KService r)
  then show ?thesis using fold_pending[OF shape_service[OF assms(1), of r], of "mark_ref c" acc]
    by (simp add: mark_slot_def children_def Let_def)
qed (simp add: mark_slot_def children_def)

lemma mark_grows_antisym: "mark_grows a b \<Longrightarrow> mark_grows b a \<Longrightarrow> b = a"
  by (auto simp: mark_grows_def prod_eq_iff split: if_splits)

lemma fold_mark_fixed:
  assumes "\<And>x a. mark_grows a (f x a)" "fold f xs a = a" "x \<in> set xs"
  shows "f x a = a"
  using assms(2,3)
proof (induction xs arbitrary: a)
  case (Cons y ys)
  have "mark_grows (f y a) (fold f ys (f y a))" by (rule mark_grows_fold[OF assms(1)])
  then have "mark_grows (f y a) a" using Cons.prems(1) by simp
  then have y: "f y a = a" using mark_grows_antisym[OF assms(1)] by blast
  then show ?case using Cons.IH[of a] Cons.prems by auto
qed simp

definition marks_sound :: "ipc_core \<Rightarrow> bool list \<Rightarrow> bool" where
  "marks_sound c m \<longleftrightarrow> length m = length (ip_objects c) \<and> (\<forall>i < length m. m ! i \<longrightarrow> ref_at c i \<in> ipc_reach c)"

lemma marks_sound_ref:
  assumes "marks_sound c (fst a)" "ipc_object_ref_is_live c x \<Longrightarrow> x \<in> ipc_reach c"
  shows "marks_sound c (fst (mark_ref c x a))"
proof (cases "ipc_object_ref_is_live c x")
  case True
  then show ?thesis using assms live_eq_ref_at[OF True]
    by (auto simp: marks_sound_def mark_ref_def nth_upd split: prod.splits)
next
  case False
  then show ?thesis using assms(1) by (auto simp: mark_ref_def split: prod.splits)
qed

lemma marks_sound_fold:
  assumes "\<And>x a. x \<in> set xs \<Longrightarrow> marks_sound c (fst a) \<Longrightarrow> marks_sound c (fst (f x a))" "marks_sound c (fst a)"
  shows "marks_sound c (fst (fold f xs a))"
  using assms by (induction xs arbitrary: a) auto

lemma marks_sound_slot:
  assumes "ip_shape c" "slot < length (ip_objects c)" "marks_sound c (fst a)"
  shows "marks_sound c (fst (mark_slot c slot a))"
proof (cases "fst a ! slot")
  case True
  then have "ref_at c slot \<in> ipc_reach c" using assms(2,3) by (simp add: marks_sound_def)
  then have "ipc_object_ref_is_live c y \<Longrightarrow> y \<in> ipc_reach c" if "y \<in> set (children c slot)" for y
    using that ipc_reach.edge[of "ref_at c slot" c y] by simp
  then show ?thesis unfolding mark_slot_children[OF assms(1,2)]
    using marks_sound_fold[of "children c slot" c "mark_ref c", OF marks_sound_ref assms(3)] True by simp
qed (use assms in \<open>simp add: mark_slot_children[OF assms(1,2)]\<close>)

lemma marks_sound_pass: "ip_shape c \<Longrightarrow> marks_sound c m \<Longrightarrow> marks_sound c (fst (mark_pass c m))"
  unfolding mark_pass_def by (rule marks_sound_fold) (auto intro: marks_sound_slot)

definition marks_closed :: "ipc_core \<Rightarrow> bool list \<Rightarrow> bool" where
  "marks_closed c m \<longleftrightarrow> (\<forall>i < length (ip_objects c). m ! i \<longrightarrow>
     (\<forall>y \<in> set (children c i). ipc_object_ref_is_live c y \<longrightarrow> m ! or_slot y))"

lemma mark_pass_closed:
  assumes "ip_shape c" "length m = length (ip_objects c)" "mark_pass c m = (m', False)"
  shows "m' = m" "marks_closed c m"
proof -
  show m: "m' = m" using mark_grows_pass[of m c] assms(3) by (auto simp: mark_grows_def split: if_splits)
  have f: "fold (mark_slot c) [0..<length (ip_objects c)] (m, False) = (m, False)"
    using assms(3) m by (simp add: mark_pass_def)
  show "marks_closed c m" unfolding marks_closed_def
  proof (intro allI impI ballI)
    fix i y assume i: "i < length (ip_objects c)" "m ! i" and y: "y \<in> set (children c i)" "ipc_object_ref_is_live c y"
    have "mark_slot c i (m, False) = (m, False)" using fold_mark_fixed[OF mark_grows_slot f, of i] i(1) by simp
    then have "fold (mark_ref c) (children c i) (m, False) = (m, False)"
      using i(2) by (simp add: mark_slot_children[OF assms(1) i(1)])
    then have "mark_ref c y (m, False) = (m, False)" using fold_mark_fixed[where f = "mark_ref c", OF mark_grows_ref _ y(1)] by blast
    then show "m ! or_slot y" using y(2) assms(2) by (auto simp: mark_ref_def ipc_object_ref_is_live_def split: if_splits)
  qed
qed

lemma mark_loop_spec:
  "ip_shape c \<Longrightarrow> marks_sound c m \<Longrightarrow>
   marks_sound c (mark_loop c m) \<and> marks_closed c (mark_loop c m) \<and> (\<forall>i < length m. m ! i \<longrightarrow> mark_loop c m ! i)"
proof (induction c m rule: mark_loop.induct)
  case (1 c m)
  obtain m' changed where p: "mark_pass c m = (m', changed)" by force
  have len: "length m = length (ip_objects c)" using 1(3) by (simp add: marks_sound_def)
  show ?case
  proof (cases changed)
    case False
    then show ?thesis using mark_pass_closed[OF 1(2) len] p 1(3) by (simp add: mark_loop.simps[of c m])
  next
    case True
    have s: "marks_sound c m'" using marks_sound_pass[OF 1(2,3)] p by simp
    have g: "\<forall>i < length m. m ! i \<longrightarrow> m' ! i" "length m' = length m" using mark_grows_pass[of m c] p by (simp_all add: mark_grows_def)
    show ?thesis using 1(1)[OF p[symmetric] _ 1(2) s] True p g by (simp add: mark_loop.simps[of c m])
  qed
qed

lemma collect_roots_spec:
  "marks_sound c (collect_roots c)"
  "h \<in> set (ip_handles c) \<Longrightarrow> hs_occupied h \<Longrightarrow> ipc_object_ref_is_live c (hs_object h) \<Longrightarrow> collect_roots c ! or_slot (hs_object h)"
proof -
  let ?f = "\<lambda>h m. if hs_occupied h \<and> ipc_object_ref_is_live c (hs_object h) then m[or_slot (hs_object h) := True] else m"
  have s: "set hs \<subseteq> set (ip_handles c) \<Longrightarrow> marks_sound c m \<Longrightarrow> marks_sound c (fold ?f hs m)
      \<and> (\<forall>i < length m. m ! i \<longrightarrow> fold ?f hs m ! i)
      \<and> (\<forall>h \<in> set hs. hs_occupied h \<longrightarrow> ipc_object_ref_is_live c (hs_object h) \<longrightarrow> fold ?f hs m ! or_slot (hs_object h))"
    for hs m
  proof (induction hs arbitrary: m)
    case (Cons h hs)
    have h: "marks_sound c (?f h m)"
      using Cons.prems ipc_reach.root[of h c] live_eq_ref_at[of c "hs_object h"]
      by (auto simp: marks_sound_def nth_upd)
    have m: "\<forall>i < length m. m ! i \<longrightarrow> ?f h m ! i" by (auto simp: nth_upd)
    have l: "hs_occupied h \<Longrightarrow> ipc_object_ref_is_live c (hs_object h) \<Longrightarrow>
        or_slot (hs_object h) < length m \<and> ?f h m ! or_slot (hs_object h)"
      using Cons.prems(2) by (simp add: marks_sound_def ipc_object_ref_is_live_def)
    have n: "length (?f h m) = length m" by simp
    define m1 where "m1 = ?f h m"
    have "set hs \<subseteq> set (ip_handles c)" using Cons.prems(1) by simp
    note IH = Cons.IH[OF this h, folded m1_def]
    have e: "fold ?f (h # hs) m = fold ?f hs m1" unfolding m1_def by simp
    show ?case unfolding e using IH m l n unfolding m1_def[symmetric] by (simp add: Ball_def)
  qed simp
  have "marks_sound c (replicate (length (ip_objects c)) False)" by (simp add: marks_sound_def)
  note r = s[OF subset_refl this]
  show "marks_sound c (collect_roots c)" using r by (simp add: collect_roots_def)
  show "h \<in> set (ip_handles c) \<Longrightarrow> hs_occupied h \<Longrightarrow> ipc_object_ref_is_live c (hs_object h) \<Longrightarrow> collect_roots c ! or_slot (hs_object h)"
    using r by (simp add: collect_roots_def)
qed

text \<open>The flags are exactly reachability.\<close>

lemma mark_loop_reach:
  assumes "ip_shape c" "i < length (ip_objects c)"
  shows "mark_loop c (collect_roots c) ! i \<longleftrightarrow> ref_at c i \<in> ipc_reach c"
proof
  note sp = mark_loop_spec[OF assms(1) collect_roots_spec(1)]
  have len: "length (collect_roots c) = length (ip_objects c)" using collect_roots_spec(1)[of c] by (simp add: marks_sound_def)
  show "mark_loop c (collect_roots c) ! i \<Longrightarrow> ref_at c i \<in> ipc_reach c"
    using sp assms(2) by (simp add: marks_sound_def)
  have "mark_loop c (collect_roots c) ! or_slot x" if "x \<in> ipc_reach c" for x
    using that
  proof (induction rule: ipc_reach.induct)
    case (root h)
    then show ?case using collect_roots_spec(2)[OF root] sp len by (simp add: ipc_object_ref_is_live_def)
  next
    case (edge x y)
    then have "or_slot x < length (ip_objects c)" using reach_live[of x c] by (simp add: ipc_object_ref_is_live_def)
    then show ?case using edge sp by (auto simp: marks_closed_def)
  qed
  from this[of "ref_at c i"] show "ref_at c i \<in> ipc_reach c \<Longrightarrow> mark_loop c (collect_roots c) ! i" by simp
qed

section \<open>Sweeping and recounting\<close>

abbreviation dead_at :: "ipc_core \<Rightarrow> bool list \<Rightarrow> nat \<Rightarrow> bool" where
  "dead_at c m i \<equiv> \<not> m ! i \<and> os_kind (ip_objects c ! i) \<noteq> KFree"

lemma sweep_spec:
  assumes "length (ip_services c) = SERVICE_REGISTRY_CAPACITY" "k \<le> length (ip_objects c)"
  shows "ip_handles (fst (fold (sweep_slot m) [0..<k] (c, 0))) = ip_handles c
    \<and> length (ip_objects (fst (fold (sweep_slot m) [0..<k] (c, 0)))) = length (ip_objects c)
    \<and> length (ip_services (fst (fold (sweep_slot m) [0..<k] (c, 0)))) = length (ip_services c)
    \<and> (\<forall>i < length (ip_objects c). ip_objects (fst (fold (sweep_slot m) [0..<k] (c, 0))) ! i =
        (if i < k \<and> dead_at c m i then (ip_objects c ! i)\<lparr>os_kind := KFree, os_references := 0\<rparr> else ip_objects c ! i))
    \<and> (\<forall>r < length (ip_services c). ip_services (fst (fold (sweep_slot m) [0..<k] (c, 0))) ! r =
        (if \<exists>i < k. dead_at c m i \<and> os_kind (ip_objects c ! i) = KService r then SERVICE_EMPTY else ip_services c ! r))"
  using assms(2)
proof (induction k)
  case 0
  then show ?case by simp
next
  case (Suc k)
  obtain d n where d: "fold (sweep_slot m) [0..<k] (c, 0) = (d, n)" by force
  have IH: "ip_handles d = ip_handles c" "length (ip_objects d) = length (ip_objects c)"
    "length (ip_services d) = length (ip_services c)"
    "\<And>i. i < length (ip_objects c) \<Longrightarrow> ip_objects d ! i =
        (if i < k \<and> dead_at c m i then (ip_objects c ! i)\<lparr>os_kind := KFree, os_references := 0\<rparr> else ip_objects c ! i)"
    "\<And>r. r < length (ip_services c) \<Longrightarrow> ip_services d ! r =
        (if \<exists>i < k. dead_at c m i \<and> os_kind (ip_objects c ! i) = KService r then SERVICE_EMPTY else ip_services c ! r)"
    using Suc d by simp_all
  have k: "ip_objects d ! k = ip_objects c ! k" "k < length (ip_objects c)" using IH(4)[of k] Suc.prems by simp_all
  have e: "fst (fold (sweep_slot m) [0..<Suc k] (c, 0)) = fst (sweep_slot m k (d, n))" by (simp add: d)
  have obj: "ip_handles (fst (sweep_slot m k (d, n))) = ip_handles c"
    "length (ip_objects (fst (sweep_slot m k (d, n)))) = length (ip_objects c)"
    "length (ip_services (fst (sweep_slot m k (d, n)))) = length (ip_services c)"
    "\<And>i. i < length (ip_objects c) \<Longrightarrow> ip_objects (fst (sweep_slot m k (d, n))) ! i =
      (if i = k \<and> dead_at c m k then (ip_objects c ! k)\<lparr>os_kind := KFree, os_references := 0\<rparr> else ip_objects d ! i)"
    "\<And>r. r < length (ip_services c) \<Longrightarrow> ip_services (fst (sweep_slot m k (d, n))) ! r =
      (if dead_at c m k \<and> os_kind (ip_objects c ! k) = KService r then SERVICE_EMPTY else ip_services d ! r)"
    using IH(1-3) k assms(1)
    by (auto simp: sweep_slot_def k Let_def nth_upd split: object_kind.splits)
  show ?case unfolding e using obj IH(4,5) by (auto simp: less_Suc_eq)
qed

definition drop_peer :: "ipc_core \<Rightarrow> object_kind \<Rightarrow> object_kind" where
  "drop_peer c k =
     (case k of
        KChannel ch \<Rightarrow> KChannel
          (if (case ch_peer ch of None \<Rightarrow> False | Some p \<Rightarrow> \<not> ipc_object_ref_is_live c p) then ch\<lparr>ch_peer := None\<rparr> else ch)
      | _ \<Rightarrow> k)"

definition reset_obj :: "ipc_core \<Rightarrow> object_slot \<Rightarrow> object_slot" where
  "reset_obj c s = (if os_kind s = KFree then s else s\<lparr>os_kind := drop_peer c (os_kind s), os_references := 0\<rparr>)"

lemma os_kind_same: "os_kind s = k \<Longrightarrow> s\<lparr>os_kind := k\<rparr> = s"
  by (cases s) simp

lemma drop_dead_peer_kind:
  "drop_dead_peer k c = set_kind k (drop_peer c (os_kind (ip_objects c ! k))) c"
proof (cases "os_kind (ip_objects c ! k)")
  case (KChannel ch)
  show ?thesis
  proof (cases "case ch_peer ch of None \<Rightarrow> False | Some peer \<Rightarrow> \<not> ipc_object_ref_is_live c peer")
    case True
    then show ?thesis by (simp add: drop_dead_peer_def drop_peer_def KChannel)
  next
    case False
    then have "drop_peer c (os_kind (ip_objects c ! k)) = os_kind (ip_objects c ! k)" by (simp add: drop_peer_def KChannel)
    moreover have "drop_dead_peer k c = c" using False by (simp add: drop_dead_peer_def KChannel)
    ultimately show ?thesis by (simp add: set_kind_def os_kind_same)
  qed
qed (simp_all add: drop_dead_peer_def drop_peer_def set_kind_def os_kind_same)

lemma drop_peer_free: "drop_peer c k = KFree \<longleftrightarrow> k = KFree"
  by (cases k) (simp_all add: drop_peer_def)

lemma reset_slot_obj:
  assumes "k < length (ip_objects c)"
  shows "ip_objects (reset_slot k c) = (ip_objects c)[k := reset_obj c (ip_objects c ! k)]"
    "ip_handles (reset_slot k c) = ip_handles c" "ip_services (reset_slot k c) = ip_services c"
  using assms
  by (simp_all add: reset_slot_def drop_dead_peer_kind reset_obj_def drop_peer_free Let_def)
    (simp add: set_kind_def set_references_def os_kind_same drop_peer_def)

lemma reset_spec:
  assumes "k \<le> length (ip_objects c)"
  shows "ip_handles (fold reset_slot [0..<k] c) = ip_handles c
    \<and> ip_services (fold reset_slot [0..<k] c) = ip_services c
    \<and> length (ip_objects (fold reset_slot [0..<k] c)) = length (ip_objects c)
    \<and> classes (fold reset_slot [0..<k] c) = classes c
    \<and> (\<forall>i < length (ip_objects c). ip_objects (fold reset_slot [0..<k] c) ! i =
        (if i < k then reset_obj c (ip_objects c ! i) else ip_objects c ! i))"
  using assms
proof (induction k)
  case 0
  then show ?case by simp
next
  case (Suc k)
  define d where "d = fold reset_slot [0..<k] c"
  have d: "ip_handles d = ip_handles c" "ip_services d = ip_services c" "length (ip_objects d) = length (ip_objects c)"
    "classes d = classes c" "\<And>i. i < length (ip_objects c) \<Longrightarrow> ip_objects d ! i =
        (if i < k then reset_obj c (ip_objects c ! i) else ip_objects c ! i)" using Suc by (simp_all add: d_def)
  have k: "k < length (ip_objects d)" "ip_objects d ! k = ip_objects c ! k" using d(3) d(5)[of k] Suc.prems by simp_all
  have r: "reset_obj d = reset_obj c" unfolding reset_obj_def drop_peer_def live_cong[OF d(4)] ..
  have "os_class (reset_obj c s) = os_class s" for s by (auto simp: os_class_def reset_obj_def drop_peer_def split: object_kind.splits)
  then have "classes (reset_slot k d) = classes d" using k reset_slot_obj(1)[OF k(1)] by (simp add: map_update_same r)
  moreover have "fold reset_slot [0..<Suc k] c = reset_slot k d" by (simp add: d_def)
  ultimately show ?case using reset_slot_obj[OF k(1)] d k by (auto simp: nth_upd r)
qed

text \<open>The recount: one increment per reference, in the three loops.\<close>

definition same_but_counts :: "ipc_core \<Rightarrow> ipc_core \<Rightarrow> bool" where
  "same_but_counts c d \<longleftrightarrow> ip_handles d = ip_handles c \<and> ip_services d = ip_services c
     \<and> map (\<lambda>s. s\<lparr>os_references := 0\<rparr>) (ip_objects d) = map (\<lambda>s. s\<lparr>os_references := 0\<rparr>) (ip_objects c)"

lemma same_but_counts_nth:
  assumes "same_but_counts c d" "i < length (ip_objects c)"
  shows "os_kind (ip_objects d ! i) = os_kind (ip_objects c ! i)"
    "os_generation (ip_objects d ! i) = os_generation (ip_objects c ! i)"
proof -
  have "(ip_objects d ! i)\<lparr>os_references := 0\<rparr> = (ip_objects c ! i)\<lparr>os_references := 0\<rparr>"
    using assms unfolding same_but_counts_def by (intro map_eq_nth) simp_all
  then have "os_kind ((ip_objects d ! i)\<lparr>os_references := 0\<rparr>) = os_kind ((ip_objects c ! i)\<lparr>os_references := 0\<rparr>)"
    "os_generation ((ip_objects d ! i)\<lparr>os_references := 0\<rparr>) = os_generation ((ip_objects c ! i)\<lparr>os_references := 0\<rparr>)"
    by simp_all
  then show "os_kind (ip_objects d ! i) = os_kind (ip_objects c ! i)"
    "os_generation (ip_objects d ! i) = os_generation (ip_objects c ! i)" by simp_all
qed

lemma same_but_counts_length: "same_but_counts c d \<Longrightarrow> length (ip_objects d) = length (ip_objects c)"
  unfolding same_but_counts_def by (metis length_map)

lemma same_but_counts_recount: "same_but_counts c d \<Longrightarrow> same_but_counts c (recount_ref x d)"
  by (simp add: same_but_counts_def recount_ref_def set_references_def map_update_same)

lemma recount_fold:
  assumes "\<forall>i < length (ip_objects c). os_kind (ip_objects c ! i) \<noteq> KFree \<longrightarrow> os_references (ip_objects c ! i) < 2 ^ 64"
  shows "same_but_counts c (fold recount_ref xs c) \<and>
    (\<forall>i < length (ip_objects c). os_references (ip_objects (fold recount_ref xs c) ! i) =
      (if os_kind (ip_objects c ! i) = KFree then os_references (ip_objects c ! i)
       else (os_references (ip_objects c ! i) + count (mset xs) (ref_at c i)) mod 2 ^ 64))"
proof (induction xs rule: rev_induct)
  case Nil
  then show ?case using assms by (simp add: same_but_counts_def)
next
  case (snoc x xs)
  define d where "d = fold recount_ref xs c"
  have d: "same_but_counts c d" "\<And>i. i < length (ip_objects c) \<Longrightarrow> os_references (ip_objects d ! i) =
      (if os_kind (ip_objects c ! i) = KFree then os_references (ip_objects c ! i)
       else (os_references (ip_objects c ! i) + count (mset xs) (ref_at c i)) mod 2 ^ 64)"
    using snoc by (simp_all add: d_def)
  note n = same_but_counts_length[OF d(1)] and nth = same_but_counts_nth[OF d(1)]
  have live: "ipc_object_ref_is_live d x \<longleftrightarrow> ipc_object_ref_is_live c x" using n nth by (auto simp: ipc_object_ref_is_live_def)
  have step: "os_references (ip_objects (recount_ref x d) ! i) =
      (if ipc_object_ref_is_live c x \<and> i = or_slot x then (os_references (ip_objects d ! i) + 1) mod 2 ^ 64
       else os_references (ip_objects d ! i))" if "i < length (ip_objects c)" for i
    using that n by (auto simp: recount_ref_def live wrapping_add_def)
  have "os_references (ip_objects (recount_ref x d) ! i) =
      (if os_kind (ip_objects c ! i) = KFree then os_references (ip_objects c ! i)
       else (os_references (ip_objects c ! i) + count (mset (xs @ [x])) (ref_at c i)) mod 2 ^ 64)"
    if i: "i < length (ip_objects c)" for i
  proof (cases "ipc_object_ref_is_live c x \<and> i = or_slot x")
    case True
    then have "x = ref_at c i" using live_eq_ref_at by blast
    then show ?thesis using step[OF i] d(2)[OF i] True by (simp add: ipc_object_ref_is_live_def mod_simps)
  next
    case False
    then have "os_kind (ip_objects c ! i) \<noteq> KFree \<Longrightarrow> x \<noteq> ref_at c i" using i by (auto simp: live_ref_at)
    then show ?thesis using step[OF i] d(2)[OF i] False by auto
  qed
  then show ?case using same_but_counts_recount[OF d(1), of x] by (simp add: d_def)
qed

lemma same_but_counts_refl [simp]: "same_but_counts c c"
  by (simp add: same_but_counts_def)

lemma same_but_counts_fold: "same_but_counts c d \<Longrightarrow> same_but_counts c (fold recount_ref xs d)"
  by (induction xs arbitrary: d) (auto intro: same_but_counts_recount)

lemma same_but_counts_refs:
  assumes "same_but_counts c d"
  shows "i < length (ip_objects c) \<Longrightarrow> o_refs (ip_objects d ! i) = o_refs (ip_objects c ! i)"
    "ip_shape d = ip_shape c" "inner_refs d = inner_refs c" "all_refs d = all_refs c" "classes d = classes c"
proof -
  note n = same_but_counts_nth[OF assms] and len = same_but_counts_length[OF assms]
  show o: "o_refs (ip_objects d ! i) = o_refs (ip_objects c ! i)" if "i < length (ip_objects c)" for i
    using n(1)[OF that] by (simp add: o_refs_def)
  have k: "map os_kind (ip_objects d) = map os_kind (ip_objects c)" by (rule nth_equalityI) (simp_all add: n len)
  have h: "ip_handles d = ip_handles c" "ip_services d = ip_services c" using assms by (simp_all add: same_but_counts_def)
  show "ip_shape d = ip_shape c" by (simp add: ip_shape_def k h len del: list.pred_map)
  show i: "inner_refs d = inner_refs c"
    by (rule inner_refs_cong[OF h(2)]) (rule nth_equalityI, simp_all add: o len)
  show "all_refs d = all_refs c" by (simp add: all_refs_def i handle_refs_cong[OF h(1)])
  show "classes d = classes c" by (rule nth_equalityI) (simp_all add: n len os_class_def)
qed

text \<open>A loop whose body recounts a list of references that recounting does not change.\<close>

lemma recount_loop:
  assumes body: "\<And>k d. k \<in> set ks \<Longrightarrow> same_but_counts c d \<Longrightarrow> f k d = fold recount_ref (g k) d"
    and d: "same_but_counts c d"
  shows "fold f ks d = fold recount_ref (concat (map g ks)) d"
  using assms
proof (induction ks arbitrary: d)
  case (Cons k ks)
  have "fold f ks (f k d) = fold recount_ref (concat (map g ks)) (f k d)"
    using Cons.prems same_but_counts_fold[OF Cons.prems(2), of "g k"] by (intro Cons.IH) simp_all
  then show ?case using Cons.prems(1)[of k d] Cons.prems(2) by simp
qed simp

lemma recount_handle_loop:
  "same_but_counts c d \<Longrightarrow> fold recount_handle [0..<length (ip_handles c)] d =
     fold recount_ref (map fst (concat (map h_refs (ip_handles c)))) d"
proof -
  assume d: "same_but_counts c d"
  have "fold recount_handle [0..<length (ip_handles c)] d =
      fold recount_ref (concat (map (\<lambda>k. map fst (h_refs (ip_handles c ! k))) [0..<length (ip_handles c)])) d"
    by (rule recount_loop[OF _ d]) (auto simp: same_but_counts_def recount_handle_def h_refs_def Let_def)
  also have "concat (map (\<lambda>k. map fst (h_refs (ip_handles c ! k))) [0..<length (ip_handles c)]) =
      map fst (concat (map h_refs (ip_handles c)))"
    unfolding map_nth_upt[of "\<lambda>h. map fst (h_refs h)"] by (simp add: map_concat comp_def)
  finally show ?thesis .
qed

lemma recount_service_loop:
  "ip_shape c \<Longrightarrow> same_but_counts c d \<Longrightarrow> fold recount_service [0..<SERVICE_REGISTRY_CAPACITY] d =
     fold recount_ref (map fst (concat (map s_refs (ip_services c)))) d"
proof -
  assume s: "ip_shape c" and d: "same_but_counts c d"
  have n: "length (ip_services c) = SERVICE_REGISTRY_CAPACITY" using s by (simp add: ip_shape_def)
  have "fold recount_service [0..<SERVICE_REGISTRY_CAPACITY] d =
      fold recount_ref (concat (map (\<lambda>k. map fst (s_refs (ip_services c ! k))) [0..<SERVICE_REGISTRY_CAPACITY])) d"
  proof (rule recount_loop[OF _ d])
    fix k e assume k: "k \<in> set [0..<SERVICE_REGISTRY_CAPACITY]" and e: "same_but_counts c e"
    show "recount_service k e = fold recount_ref (map fst (s_refs (ip_services c ! k))) e"
      using fold_pending[OF shape_service[OF s, of k], of recount_ref e] k e
      by (auto simp: recount_service_def s_refs_def Let_def same_but_counts_def comp_def pc_ref_def)
  qed
  also have "concat (map (\<lambda>k. map fst (s_refs (ip_services c ! k))) [0..<SERVICE_REGISTRY_CAPACITY]) =
      map fst (concat (map s_refs (ip_services c)))"
    unfolding n[symmetric] map_nth_upt[of "\<lambda>e. map fst (s_refs e)"] by (simp add: map_concat comp_def)
  finally show ?thesis .
qed

lemma recount_channel_loop:
  "ip_shape c \<Longrightarrow> same_but_counts c d \<Longrightarrow> fold recount_channel [0..<length (ip_objects c)] d =
     fold recount_ref (map fst (concat (map o_refs (ip_objects c)))) d"
proof -
  assume s: "ip_shape c" and d: "same_but_counts c d"
  have "fold recount_channel [0..<length (ip_objects c)] d =
      fold recount_ref (concat (map (\<lambda>k. map fst (o_refs (ip_objects c ! k))) [0..<length (ip_objects c)])) d"
  proof (rule recount_loop[OF _ d])
    fix k e assume k: "k \<in> set [0..<length (ip_objects c)]" and e: "same_but_counts c e"
    have kk: "k < length (ip_objects c)" using k by simp
    show "recount_channel k e = fold recount_ref (map fst (o_refs (ip_objects c ! k))) e"
    proof (cases "os_kind (ip_objects c ! k)")
      case (KChannel ch)
      then show ?thesis using fold_queue[OF shape_channel[OF s kk KChannel], of recount_ref e] same_but_counts_nth[OF e kk]
        by (simp add: recount_channel_def o_refs_def)
    qed (use same_but_counts_nth[OF e kk] in \<open>simp_all add: recount_channel_def o_refs_def\<close>)
  qed
  also have "concat (map (\<lambda>k. map fst (o_refs (ip_objects c ! k))) [0..<length (ip_objects c)]) =
      map fst (concat (map o_refs (ip_objects c)))"
    unfolding map_nth_upt[of "\<lambda>s. map fst (o_refs s)"] by (simp add: map_concat comp_def)
  finally show ?thesis .
qed

lemma mset_concat_map: "mset (concat (map f xs)) = (\<Sum>x \<leftarrow> xs. mset (f x))"
  by (induction xs) simp_all

lemma recount_all:
  assumes "ip_shape c"
  shows "\<exists>L. fold recount_channel [0..<length (ip_objects c)] (fold recount_service [0..<SERVICE_REGISTRY_CAPACITY]
      (fold recount_handle [0..<length (ip_handles c)] c)) = fold recount_ref L c
    \<and> mset L = image_mset fst (all_refs c)"
proof (intro exI conjI)
  let ?h = "map fst (concat (map h_refs (ip_handles c)))" and ?s = "map fst (concat (map s_refs (ip_services c)))"
    and ?o = "map fst (concat (map o_refs (ip_objects c)))"
  have h: "fold recount_handle [0..<length (ip_handles c)] c = fold recount_ref ?h c" by (rule recount_handle_loop) simp
  have 1: "same_but_counts c (fold recount_ref ?h c)" by (rule same_but_counts_fold) simp
  show "fold recount_channel [0..<length (ip_objects c)] (fold recount_service [0..<SERVICE_REGISTRY_CAPACITY]
      (fold recount_handle [0..<length (ip_handles c)] c)) = fold recount_ref (?h @ ?s @ ?o) c"
    using recount_service_loop[OF assms 1] recount_channel_loop[OF assms same_but_counts_fold[OF 1, of ?s]] by (simp add: h)
  show "mset (?h @ ?s @ ?o) = image_mset fst (all_refs c)"
    by (simp add: all_refs_def handle_refs_def inner_refs_def mset_concat_map ac_simps)
qed

section \<open>The collector\<close>

text \<open>What the collector leaves of each slot.\<close>

lemma collect_spec:
  assumes shape: "ip_shape c"
  defines "c' \<equiv> snd (ipc_collect_unreachable_objects c)"
  shows "shrinks c c'"
    and "\<And>i. i < length (ip_objects c) \<Longrightarrow> os_kind (ip_objects c ! i) = KFree \<Longrightarrow> ip_objects c' ! i = ip_objects c ! i"
    and "\<And>i. i < length (ip_objects c) \<Longrightarrow> ref_at c i \<notin> ipc_reach c \<Longrightarrow> os_kind (ip_objects c' ! i) = KFree"
    and "\<And>i. i < length (ip_objects c) \<Longrightarrow> ref_at c i \<in> ipc_reach c \<Longrightarrow>
       (\<forall>ch p. os_kind (ip_objects c ! i) = KChannel ch \<longrightarrow> ch_peer ch = Some p \<longrightarrow> p \<in> ipc_reach c) \<Longrightarrow>
       os_kind (ip_objects c' ! i) = os_kind (ip_objects c ! i)"
    and "\<And>i. i < length (ip_objects c) \<Longrightarrow> ref_at c i \<in> ipc_reach c \<Longrightarrow>
       os_kind (ip_objects c' ! i) \<noteq> KFree
       \<and> os_references (ip_objects c' ! i) = count (image_mset fst (all_refs c')) (ref_at c' i)"
    and "\<And>i ch p. i < length (ip_objects c) \<Longrightarrow> os_kind (ip_objects c' ! i) = KChannel ch \<Longrightarrow> ch_peer ch = Some p \<Longrightarrow>
       p \<in> ipc_reach c"
    and "\<And>r. r < length (ip_services c) \<Longrightarrow> ip_services c' ! r =
       (if \<exists>i < length (ip_objects c). os_kind (ip_objects c ! i) = KService r \<and> ref_at c i \<notin> ipc_reach c
        then SERVICE_EMPTY else ip_services c ! r)"
proof -
  let ?n = "length (ip_objects c)"
  define m where "m = mark_loop c (collect_roots c)"
  have m: "m ! i \<longleftrightarrow> ref_at c i \<in> ipc_reach c" if "i < ?n" for i
    using mark_loop_reach[OF shape that] by (simp add: m_def)
  define c1 where "c1 = fst (fold (sweep_slot m) [0..<?n] (c, 0))"
  have l8: "length (ip_services c) = SERVICE_REGISTRY_CAPACITY" using shape by (simp add: ip_shape_def)
  have c1: "ip_handles c1 = ip_handles c" "length (ip_objects c1) = ?n" "length (ip_services c1) = length (ip_services c)"
    "\<And>i. i < ?n \<Longrightarrow> ip_objects c1 ! i =
        (if dead_at c m i then (ip_objects c ! i)\<lparr>os_kind := KFree, os_references := 0\<rparr> else ip_objects c ! i)"
    "\<And>r. r < length (ip_services c) \<Longrightarrow> ip_services c1 ! r =
        (if \<exists>i < ?n. dead_at c m i \<and> os_kind (ip_objects c ! i) = KService r then SERVICE_EMPTY else ip_services c ! r)"
    using sweep_spec[OF l8 order_refl, of m] by (simp_all add: c1_def)
  have live1: "ipc_object_ref_is_live c1 y \<longleftrightarrow> y \<in> ipc_reach c" for y
  proof
    assume "ipc_object_ref_is_live c1 y"
    then have "or_slot y < ?n" "m ! or_slot y" "y = ref_at c (or_slot y)"
      by (auto simp: ipc_object_ref_is_live_def c1 split: if_splits)
    then show "y \<in> ipc_reach c" using m by metis
  next
    assume y: "y \<in> ipc_reach c"
    note l = reach_live[OF y]
    have "m ! or_slot y" using m[of "or_slot y"] y l live_eq_ref_at[OF l] by (simp add: ipc_object_ref_is_live_def)
    then show "ipc_object_ref_is_live c1 y" using l by (simp add: ipc_object_ref_is_live_def c1)
  qed
  define c2 where "c2 = fold reset_slot [0..<?n] c1"
  have c2: "ip_handles c2 = ip_handles c" "ip_services c2 = ip_services c1" "length (ip_objects c2) = ?n"
    "\<And>i. i < ?n \<Longrightarrow> ip_objects c2 ! i = reset_obj c1 (ip_objects c1 ! i)"
    using reset_spec[of ?n c1] c1 by (simp_all add: c2_def)
  have gen2: "os_generation (ip_objects c2 ! i) = os_generation (ip_objects c ! i)" if "i < ?n" for i
    using that by (simp add: c2 c1 reset_obj_def)
  have free2: "os_kind (ip_objects c2 ! i) = KFree \<longleftrightarrow> os_kind (ip_objects c ! i) = KFree \<or> \<not> m ! i" if "i < ?n" for i
    using that by (auto simp: c2 c1 reset_obj_def drop_peer_free)
  have kind2: "os_kind (ip_objects c2 ! i) = (if dead_at c m i then KFree else drop_peer c1 (os_kind (ip_objects c ! i)))"
    if "i < ?n" for i
    using that by (simp add: c2 c1 reset_obj_def drop_peer_def)
  have "kind_shrinks (os_kind (ip_objects c ! i)) (os_kind (ip_objects c2 ! i))" if "i < ?n" for i
    unfolding kind2[OF that] by (auto simp: kind_shrinks_def drop_peer_def split: object_kind.split)
  then have sh2: "shrinks c c2" unfolding shrinks_def c2(1-3) using c1(3,5) gen2 by simp
  note s2 = shrinks_shape[OF sh2 shape]
  obtain L where L: "fold recount_channel [0..<length (ip_objects c2)] (fold recount_service [0..<SERVICE_REGISTRY_CAPACITY]
      (fold recount_handle [0..<length (ip_handles c2)] c2)) = fold recount_ref L c2" "mset L = image_mset fst (all_refs c2)"
    using recount_all[OF s2] by blast
  have e: "c' = fold recount_ref L c2"
    using L(1) c1(2) c2(1,3) by (simp add: c'_def ipc_collect_unreachable_objects_def Let_def m_def[symmetric] c1_def c2_def case_prod_beta)
  have r0: "\<forall>i < length (ip_objects c2). os_kind (ip_objects c2 ! i) \<noteq> KFree \<longrightarrow> os_references (ip_objects c2 ! i) < 2 ^ 64"
    by (auto simp: c2 reset_obj_def)
  note rf = recount_fold[OF r0, of L, folded e]
  have sb: "same_but_counts c2 c'" using rf by blast
  have k': "os_kind (ip_objects c' ! i) = os_kind (ip_objects c2 ! i)"
    "os_generation (ip_objects c' ! i) = os_generation (ip_objects c ! i)" if "i < ?n" for i
    using same_but_counts_nth[OF sb] that c2(3) gen2 by simp_all
  have hs: "ip_handles c' = ip_handles c" "ip_services c' = ip_services c1" "length (ip_objects c') = ?n"
    using sb same_but_counts_length[OF sb] c2 by (simp_all add: same_but_counts_def)
  show sh: "shrinks c c'" using sh2 hs c2 k' gen2 by (simp add: shrinks_def)
  show "os_kind (ip_objects c' ! i) = KFree" if "i < ?n" "ref_at c i \<notin> ipc_reach c" for i
    using that m free2 k' by simp
  show "os_kind (ip_objects c' ! i) = os_kind (ip_objects c ! i)"
    if "i < ?n" "ref_at c i \<in> ipc_reach c"
      "\<forall>ch p. os_kind (ip_objects c ! i) = KChannel ch \<longrightarrow> ch_peer ch = Some p \<longrightarrow> p \<in> ipc_reach c" for i
    using that m k' by (auto simp: kind2 drop_peer_def live1 split: object_kind.splits option.splits)
  show "p \<in> ipc_reach c"
    if "i < ?n" "os_kind (ip_objects c' ! i) = KChannel ch" "ch_peer ch = Some p" for i ch p
    using that k' by (auto simp: kind2 drop_peer_def live1 split: object_kind.splits option.splits if_splits)
  show "ip_services c' ! r = (if \<exists>i < ?n. os_kind (ip_objects c ! i) = KService r \<and> ref_at c i \<notin> ipc_reach c
        then SERVICE_EMPTY else ip_services c ! r)" if "r < length (ip_services c)" for r
    using c1(5)[OF that] m by (simp add: hs) (metis object_kind.distinct(3))
  show "os_kind (ip_objects c' ! i) \<noteq> KFree
       \<and> os_references (ip_objects c' ! i) = count (image_mset fst (all_refs c')) (ref_at c' i)"
    if "i < ?n" "ref_at c i \<in> ipc_reach c" for i
  proof -
    have kf: "os_kind (ip_objects c ! i) \<noteq> KFree" "m ! i" using reach_live[OF that(2)] that m by (simp_all add: live_ref_at)
    then have f: "os_kind (ip_objects c2 ! i) \<noteq> KFree" "os_references (ip_objects c2 ! i) = 0"
      using free2[OF that(1)] that(1) by (simp_all add: c2 c1 reset_obj_def)
    have "count (image_mset fst (all_refs c2)) (ref_at c2 i) \<le> size (image_mset fst (all_refs c2))" by (rule count_le_size)
    then have "count (image_mset fst (all_refs c2)) (ref_at c2 i) < 2 ^ 64" using size_all_refs[OF s2] by simp
    then show ?thesis using rf f that(1) c2(3) L(2) k' gen2 same_but_counts_refs(4)[OF sb] by simp
  qed
  show "ip_objects c' ! i = ip_objects c ! i" if "i < ?n" "os_kind (ip_objects c ! i) = KFree" for i
  proof -
    have "ip_objects c2 ! i = ip_objects c ! i" using that by (simp add: c2 c1 reset_obj_def)
    moreover have "os_references (ip_objects c' ! i) = os_references (ip_objects c2 ! i)" using rf that c2(3) free2 by simp
    ultimately show ?thesis using k'[OF that(1)] by (cases "ip_objects c' ! i"; cases "ip_objects c ! i") simp
  qed
qed

lemma collect_live:
  assumes "ip_shape c"
  shows "ipc_object_ref_is_live (snd (ipc_collect_unreachable_objects c)) x \<longleftrightarrow> x \<in> ipc_reach c"
proof -
  note cs = collect_spec[OF assms] and D = shrinksD[OF collect_spec(1)[OF assms]]
  show ?thesis
  proof
    assume l: "ipc_object_ref_is_live (snd (ipc_collect_unreachable_objects c)) x"
    then have "ipc_object_ref_is_live c x" by (rule shrinks_live[OF cs(1)])
    then show "x \<in> ipc_reach c" using l cs(3)[of "or_slot x"] D(2) live_eq_ref_at[of c x]
      by (auto simp: ipc_object_ref_is_live_def)
  next
    assume x: "x \<in> ipc_reach c"
    have "or_slot x < length (ip_objects c)" "x = ref_at c (or_slot x)"
      using reach_live[OF x] live_eq_ref_at[OF reach_live[OF x]] by (simp_all add: ipc_object_ref_is_live_def)
    then show "ipc_object_ref_is_live (snd (ipc_collect_unreachable_objects c)) x"
      using cs(5)[of "or_slot x"] x D(2) D(4)[of "or_slot x"] reach_live[OF x] by (simp add: ipc_object_ref_is_live_def)
  qed
qed

text \<open>Reachable objects keep their queues and registry entries, so reachability is kept.\<close>

lemma collect_children:
  assumes core: "ip_core c {#}" and x: "x \<in> ipc_reach c"
  shows "children (snd (ipc_collect_unreachable_objects c)) (or_slot x) = children c (or_slot x)"
proof -
  let ?c = "snd (ipc_collect_unreachable_objects c)"
  have shape: "ip_shape c" and sv: "ip_services_ok c" using core by (auto simp: ip_core_def dest: acctD(1))
  note cs = collect_spec[OF shape] and D = shrinksD[OF collect_spec(1)[OF shape]]
  have xi: "or_slot x < length (ip_objects c)" "x = ref_at c (or_slot x)"
    using reach_live[OF x] live_eq_ref_at[OF reach_live[OF x]] by (simp_all add: ipc_object_ref_is_live_def)
  have nf: "os_kind (ip_objects ?c ! or_slot x) \<noteq> KFree" using cs(5)[OF xi(1)] x xi(2) by simp
  show ?thesis
  proof (cases "kind_of c x")
    case KFree
    then show ?thesis using reach_live[OF x] by (simp add: ipc_object_ref_is_live_def)
  next
    case (KChannel ch)
    then have "\<exists>ch'. kind_of ?c x = KChannel ch' \<and> ch_queue ch' = ch_queue ch"
      using D(5)[OF xi(1)] nf by (auto simp: kind_shrinks_def)
    then show ?thesis using KChannel by (auto simp: children_def)
  next
    case (KService r)
    note r = services_okD[OF sv xi(1) KService]
    have k: "kind_of ?c x = KService r" using D(5)[OF xi(1)] nf KService by (auto simp: kind_shrinks_def)
    have rl: "r < length (ip_services c)" using r(1) shape by (simp add: ip_shape_def)
    have "\<not> (\<exists>i < length (ip_objects c). os_kind (ip_objects c ! i) = KService r \<and> ref_at c i \<notin> ipc_reach c)"
      using r(3) x xi(2) by metis
    then have "ip_services ?c ! r = ip_services c ! r" unfolding cs(7)[OF rl] by (rule if_not_P)
    then show ?thesis using k KService by (simp add: children_def)
  qed
qed

lemma collect_reach:
  assumes core: "ip_core c {#}"
  shows "ipc_reach (snd (ipc_collect_unreachable_objects c)) = ipc_reach c"
proof -
  let ?c = "snd (ipc_collect_unreachable_objects c)"
  have shape: "ip_shape c" using core by (auto simp: ip_core_def dest: acctD(1))
  note live = collect_live[OF shape] and h = shrinksD(1)[OF collect_spec(1)[OF shape]]
  have "x \<in> ipc_reach ?c" if "x \<in> ipc_reach c" for x
    using that
  proof (induction rule: ipc_reach.induct)
    case (root hs)
    then have "ipc_object_ref_is_live ?c (hs_object hs)" using live ipc_reach.root by blast
    then show ?case using root h by (intro ipc_reach.root) simp_all
  next
    case (edge x y)
    have l: "ipc_object_ref_is_live ?c y" using live ipc_reach.edge[OF edge.hyps] by blast
    have "y \<in> set (children ?c (or_slot x))" using edge.hyps(2) collect_children[OF core edge.hyps(1)] by simp
    then show ?case using l by (rule ipc_reach.edge[OF edge.IH])
  qed
  moreover have "x \<in> ipc_reach c" if "x \<in> ipc_reach ?c" for x
    using live reach_live[OF that] by blast
  ultimately show ?thesis by blast
qed

lemma collect_ref_ok:
  assumes core: "ip_core c {#}" and x: "x \<in># all_refs (snd (ipc_collect_unreachable_objects c))"
  shows "ref_ok (snd (ipc_collect_unreachable_objects c)) x"
proof -
  let ?c = "snd (ipc_collect_unreachable_objects c)"
  have a: "ip_acct c {#}" and sv: "ip_services_ok c" using core by (simp_all add: ip_core_def)
  note shape = acctD(1)[OF a]
  note cs = collect_spec[OF shape] and D = shrinksD[OF collect_spec(1)[OF shape]]
  have rx: "ref_ok c x" using acctD(2)[OF a] shrinks_refs(2)[OF cs(1) x] by blast
  have lx: "ipc_object_ref_is_live c (fst x)" using rx by (simp add: ref_ok_def)
  from x have "fst x \<in> ipc_reach c"
  proof (cases rule: all_refs_cases)
    case 1
    then show ?thesis using lx ipc_reach.root[of _ c] by (auto simp: D(1))
  next
    case (2 r)
    note 2 = 2[unfolded D(3)]
    then have occ: "se_occupied (ip_services ?c ! r)" by (auto simp: s_refs_def split: if_splits)
    then have e: "ip_services ?c ! r = ip_services c ! r" using D(6)[OF 2(1)] by auto
    then obtain i where i: "i < length (ip_objects c)" "os_kind (ip_objects c ! i) = KService r"
      using sv 2(1) occ unfolding ip_services_ok_def by metis
    have "ref_at c i \<in> ipc_reach c" using cs(7)[OF 2(1)] occ i by (auto split: if_splits)
    moreover have "fst x \<in> set (children c (or_slot (ref_at c i)))"
      using 2(2) occ i(2) services_okD(1)[OF sv i] by (auto simp: e s_refs_def children_def pc_ref_def)
    ultimately show ?thesis using lx by (rule ipc_reach.edge)
  next
    case (3 i)
    note 3 = 3[unfolded D(2)]
    have r: "ref_at c i \<in> ipc_reach c" using cs(3)[OF 3(1)] 3(2) by (cases "ref_at c i \<in> ipc_reach c") (auto simp: o_refs_def)
    have "fst x \<in> set (children ?c i)" using 3(2) by (auto simp: o_refs_def children_def split: object_kind.splits)
    then have "fst x \<in> set (children c (or_slot (ref_at c i)))" using collect_children[OF core r] by simp
    then show ?thesis using lx by (rule ipc_reach.edge[OF r])
  qed
  then have l': "ipc_object_ref_is_live ?c (fst x)" using collect_live[OF shape] by blast
  have "or_slot (fst x) < length (ip_objects c)" using lx by (simp add: ipc_object_ref_is_live_def)
  note k = D(5)[OF this]
  show ?thesis using rx l' k by (auto simp: ref_ok_def kind_shrinks_def ipc_object_ref_is_live_def split: object_kind.splits)
qed

lemma collect_inv:
  assumes core: "ip_core c {#}" and names: "ip_names_ok c"
  shows "ipc_inv (snd (ipc_collect_unreachable_objects c))"
proof -
  let ?c = "snd (ipc_collect_unreachable_objects c)"
  have a: "ip_acct c {#}" and sv: "ip_services_ok c" and p: "ip_peers c" using core by (simp_all add: ip_core_def)
  note shape = acctD(1)[OF a]
  note cs = collect_spec[OF shape] and D = shrinksD[OF collect_spec(1)[OF shape]] and live = collect_live[OF shape]
  have live_at: "ref_at c i \<in> ipc_reach c" if "i < length (ip_objects c)" "os_kind (ip_objects ?c ! i) \<noteq> KFree" for i
    using cs(3)[OF that(1)] that(2) by blast
  have "ip_counts ?c {#}" unfolding ip_counts_def using cs(5) live_at D(2) by simp
  then have "ip_acct ?c {#}"
    using shrinks_shape[OF cs(1) shape] collect_ref_ok[OF core] acctD(3)[OF a] shrinks_refs(1)[OF cs(1)] by (auto simp: ip_acct_def)
  moreover have "ip_peers ?c"
  proof (rule peers_shrink[OF p cs(1)])
    show "ipc_object_ref_is_live ?c q"
      if "i < length (ip_objects c)" "os_kind (ip_objects ?c ! i) = KChannel ch" "ch_peer ch = Some q" for i ch q
      using cs(6)[OF that] live by blast
    show "\<not> ipc_object_ref_is_live ?c q"
      if "i < length (ip_objects c)" "os_kind (ip_objects c ! i) = KChannel ch" "os_kind (ip_objects ?c ! i) = KChannel ch'"
        "ch_peer ch = Some q" "ch_peer ch' = None" for i ch ch' q
      using cs(4)[OF that(1)] live_at[OF that(1)] that live by auto
  qed
  moreover have "ip_services_ok ?c"
  proof (rule services_ok_shrink[OF sv shape cs(1)])
    fix i r assume i: "i < length (ip_objects c)" "os_kind (ip_objects c ! i) = KService r"
    note r = services_okD[OF sv i]
    have "r < length (ip_services c)" using r(1) shape by (simp add: ip_shape_def)
    note s = cs(7)[OF this]
    show "(os_kind (ip_objects ?c ! i) = KService r) = se_occupied (ip_services ?c ! r)"
    proof (cases "ref_at c i \<in> ipc_reach c")
      case True
      then have "\<not> (\<exists>j < length (ip_objects c). os_kind (ip_objects c ! j) = KService r \<and> ref_at c j \<notin> ipc_reach c)"
        using r(3) by metis
      then show ?thesis using s r(2) cs(4)[OF i(1) True] i(2) by simp
    next
      case False
      then have "ip_services ?c ! r = SERVICE_EMPTY" using s i by auto
      then show ?thesis using cs(3)[OF i(1) False] by simp
    qed
  qed
  moreover have "ip_reachable ?c"
    unfolding ip_reachable_def collect_reach[OF core] D(2) using live_at D(4) by simp
  ultimately show ?thesis using shrinks_names[OF cs(1) names] by (simp add: ipc_inv_def)
qed

text \<open>On a state of the invariant there is nothing to collect, and the counts are right already.\<close>

lemma collect_id:
  assumes "ipc_inv c"
  shows "snd (ipc_collect_unreachable_objects c) = c"
proof -
  let ?c = "snd (ipc_collect_unreachable_objects c)"
  have a: "ip_acct c {#}" and p: "ip_peers c" and r: "ip_reachable c" using assms by (simp_all add: ipc_inv_def)
  note shape = acctD(1)[OF a]
  note cs = collect_spec[OF shape] and D = shrinksD[OF collect_spec(1)[OF shape]]
  have reach: "ref_at c i \<in> ipc_reach c" if "i < length (ip_objects c)" "os_kind (ip_objects c ! i) \<noteq> KFree" for i
    using r that by (simp add: ip_reachable_def)
  have sv: "ip_services ?c = ip_services c"
  proof (rule nth_equalityI[OF D(3)])
    fix k assume "k < length (ip_services ?c)"
    then show "ip_services ?c ! k = ip_services c ! k" using cs(7)[of k] D(3) reach by auto
  qed
  have kind: "os_kind (ip_objects ?c ! i) = os_kind (ip_objects c ! i)" if i: "i < length (ip_objects c)" for i
  proof (cases "os_kind (ip_objects c ! i) = KFree")
    case True
    then show ?thesis using cs(2)[OF i] by simp
  next
    case False
    have "q \<in> ipc_reach c" if "os_kind (ip_objects c ! i) = KChannel ch" "ch_peer ch = Some q" for ch q
    proof -
      have "ipc_object_ref_is_live c q" using p i that unfolding ip_peers_def by blast
      then show ?thesis using reach[of "or_slot q"] live_eq_ref_at[of c q] by (auto simp: ipc_object_ref_is_live_def)
    qed
    then show ?thesis using cs(4)[OF i reach[OF i False]] by blast
  qed
  have refs: "all_refs ?c = all_refs c"
    unfolding all_refs_def handle_refs_cong[OF D(1)]
    using inner_refs_cong[OF sv] nth_equalityI[of "map o_refs (ip_objects ?c)" "map o_refs (ip_objects c)"] D(2) kind
    by (simp add: o_refs_def)
  have "ip_objects ?c ! i = ip_objects c ! i" if i: "i < length (ip_objects c)" for i
  proof (cases "os_kind (ip_objects c ! i) = KFree")
    case False
    have "os_references (ip_objects ?c ! i) = os_references (ip_objects c ! i)"
      using cs(5)[OF i reach[OF i False]] acctD(5)[OF a i False] D(4)[OF i] refs by simp
    then show ?thesis using kind[OF i] D(4)[OF i] by (cases "ip_objects ?c ! i"; cases "ip_objects c ! i") simp
  qed (rule cs(2)[OF i])
  then have "ip_objects ?c = ip_objects c" using D(2) by (intro nth_equalityI) simp_all
  then show ?thesis using D(1) sv by (cases ?c; cases c) simp
qed

end
