(* ===== verification/Ipc_Safety.thy ===== *)
theory Ipc_Safety
  imports Ipc_Collector
begin

text \<open>
  The operations of the IPC core against its invariant: every operation that succeeds keeps
  it and never gives a reference more rights than one that existed before, and every
  operation that fails leaves the state exactly as it was.
\<close>

section \<open>Outcomes\<close>

text \<open>No reference to an object that existed before has gained rights.\<close>

definition attenuates :: "ipc_core \<Rightarrow> ipc_core \<Rightarrow> bool" where
  "attenuates c c' \<longleftrightarrow> (\<forall>x r'. (x, r') \<in># all_refs c' \<longrightarrow> ipc_object_ref_is_live c x \<longrightarrow>
     (\<exists>r. (x, r) \<in># all_refs c \<and> rights_contains r r'))"

definition op_ok :: "ipc_core \<Rightarrow> (ipc_error, 'a) result \<times> ipc_core \<Rightarrow> bool" where
  "op_ok c res \<longleftrightarrow>
     (case fst res of
        Inl _ \<Rightarrow> snd res = c
      | Inr _ \<Rightarrow> ipc_inv (snd res) \<and> attenuates c (snd res)
          \<and> length (ip_handles (snd res)) = length (ip_handles c) \<and> length (ip_objects (snd res)) = length (ip_objects c))"

lemma op_ok_Inl [simp]: "op_ok c (Inl e, c)"
  by (simp add: op_ok_def)

lemma op_ok_check: "(\<And>x. r = Inr x \<Longrightarrow> op_ok c (k x)) \<Longrightarrow> op_ok c (try_check r c k)"
  by (cases r) (simp_all add: try_check_def)

lemma try_check_simps [simp]: "try_check (Inl e) c k = (Inl e, c)" "try_check (Inr x) c k = k x"
  by (simp_all add: try_check_def)

lemma try_step_Inr [simp]: "try_step (Inr x, c) k = k x c"
  by (simp add: try_step_def)

lemma rights_contains_refl [simp]: "rights_contains r r"
  by (simp add: rights_contains_def)

lemma attenuates_subset: "(\<And>x. x \<in># all_refs c' \<Longrightarrow> x \<in># all_refs c) \<Longrightarrow> attenuates c c'"
  unfolding attenuates_def using rights_contains_refl by blast

lemma invD:
  assumes "ipc_inv c"
  shows "ip_acct c {#}" "ip_peers c" "ip_services_ok c" "ip_names_ok c" "ip_reachable c" "ip_core c {#}" "ip_shape c"
  using assms by (auto simp: ipc_inv_def ip_core_def dest: acctD(1))

lemma resolve_handle_Inr:
  "ipc_resolve_handle c owner h = Inr slot \<longleftrightarrow>
     hd_slot h < length (ip_handles c) \<and> slot = ip_handles c ! hd_slot h \<and> hs_occupied slot
     \<and> hs_generation slot = hd_generation h \<and> hs_owner slot = owner \<and> ipc_object_ref_is_live c (hs_object slot)"
  by (auto simp: ipc_resolve_handle_def Let_def resolve_live ipc_resolve_object_Inr dest: resolve_dead split: sum.splits)

lemma handle_in_refs:
  "i < length (ip_handles c) \<Longrightarrow> hs_occupied (ip_handles c ! i) \<Longrightarrow>
   (hs_object (ip_handles c ! i), hs_rights (ip_handles c ! i)) \<in># all_refs c"
  by (auto simp: all_refs_def in_handle_refs)

section \<open>Closing\<close>

lemma ensure_inv:
  "ipc_inv c \<Longrightarrow> ipc_ensure_free_objects c n = (n \<le> ipc_free_object_count c, c)"
  by (simp add: ipc_ensure_free_objects_def collect_id Let_def)

lemma close_op:
  assumes inv: "ipc_inv c" and r: "ipc_resolve_handle c owner h = Inr slot"
  defines "c1 \<equiv> c\<lparr>ip_handles := (ip_handles c)[hd_slot h :=
      (ip_handles c ! hd_slot h)\<lparr>hs_occupied := False, hs_rights := RIGHTS_NONE\<rparr>]\<rparr>"
  shows "\<exists>c'. ipc_close c owner h = (Inr (), c') \<and> ipc_inv c' \<and> shrinks c1 c' \<and> attenuates c c'"
proof -
  note I = invD[OF inv] and R = r[unfolded resolve_handle_Inr]
  let ?x = "hs_object slot"
  have occ: "hs_occupied (ip_handles c ! hd_slot h)" "slot = ip_handles c ! hd_slot h" using R by auto
  have refs: "all_refs c = add_mset (?x, hs_rights slot) (all_refs c1)" "inner_refs c1 = inner_refs c"
    using handle_refs_update[of "hd_slot h" c "(ip_handles c ! hd_slot h)\<lparr>hs_occupied := False, hs_rights := RIGHTS_NONE\<rparr>"] R
    by (simp_all add: all_refs_def c1_def h_refs_def occ)
  have "ip_acct c1 {#?x#}"
    by (rule acct_move[OF I(1)]) (use I(7) refs in \<open>auto simp: c1_def ip_shape_def\<close>)
  moreover have "ip_peers c1" by (rule peers_cong[OF _ I(2)]) (simp add: c1_def)
  moreover have "ip_services_ok c1" by (rule services_ok_cong[OF _ _ I(7,3)]) (simp_all add: c1_def)
  ultimately have "ip_core c1 (add_mset ?x {#})" by (simp add: ip_core_def)
  note rel = release_core(1)[OF this]
  have "ip_names_ok c1" by (rule names_ok_cong[OF _ I(4)]) (simp add: c1_def)
  then have n: "ip_names_ok (ipc_release_object c1 ?x)" using shrinks_names rel by blast
  let ?c = "snd (ipc_collect_unreachable_objects (ipc_release_object c1 ?x))"
  have inv': "ipc_inv ?c" by (rule collect_inv) (use rel n in auto)
  have shp: "ip_shape (ipc_release_object c1 ?x)" using rel by (auto simp: ip_core_def dest: acctD(1))
  have sh: "shrinks c1 ?c" using shrinks_trans[OF _ collect_spec(1)[OF shp]] rel by blast
  have "attenuates c ?c" by (rule attenuates_subset) (use shrinks_refs(2)[OF sh] refs in auto)
  then show ?thesis using inv' sh r by (auto simp: ipc_close_def try_check_def Let_def c1_def)
qed

lemma close_op_ok: "ipc_inv c \<Longrightarrow> op_ok c (ipc_close c owner h)"
proof (cases "ipc_resolve_handle c owner h")
  case (Inr slot)
  assume "ipc_inv c"
  from close_op[OF this Inr] obtain c' where c': "ipc_close c owner h = (Inr (), c')" "ipc_inv c'" "attenuates c c'"
    "shrinks (c\<lparr>ip_handles := (ip_handles c)[hd_slot h :=
      (ip_handles c ! hd_slot h)\<lparr>hs_occupied := False, hs_rights := RIGHTS_NONE\<rparr>]\<rparr>) c'" by blast
  then show ?thesis using shrinksD(1,2)[OF c'(4)] by (simp add: op_ok_def)
qed (simp add: ipc_close_def try_check_def)

lemma unpublish_op_ok: "ipc_inv c \<Longrightarrow> op_ok c (ipc_unpublish c provider listener)"
  unfolding ipc_unpublish_def by (intro op_ok_check) (auto simp: close_op_ok split: object_kind.split)

section \<open>Reachability under growth\<close>

lemma reach_mono:
  assumes roots: "\<And>h. h \<in> set (ip_handles c) \<Longrightarrow> hs_occupied h \<Longrightarrow> ipc_object_ref_is_live c (hs_object h) \<Longrightarrow>
      hs_object h \<in> ipc_reach c'"
    and edges: "\<And>x y. x \<in> ipc_reach c' \<Longrightarrow> ipc_object_ref_is_live c x \<Longrightarrow> y \<in> set (children c (or_slot x)) \<Longrightarrow>
      ipc_object_ref_is_live c y \<Longrightarrow> y \<in> ipc_reach c'"
  shows "ipc_reach c \<subseteq> ipc_reach c'"
proof
  show "x \<in> ipc_reach c'" if "x \<in> ipc_reach c" for x
    using that
  proof (induction rule: ipc_reach.induct)
    case (root h)
    then show ?case by (rule roots)
  next
    case (edge x y)
    then show ?case using edges[OF edge.IH reach_live[OF edge.hyps(1)]] by blast
  qed
qed

text \<open>Putting a handle in a free slot keeps the other roots and adds its object.\<close>

lemma put_handle_roots:
  assumes "slot < length (ip_handles c)" "\<not> hs_occupied (ip_handles c ! slot)"
  shows "h \<in> set (ip_handles c) \<Longrightarrow> hs_occupied h \<Longrightarrow> h \<in> set (ip_handles (put_handle c slot owner x r))"
    "ipc_object_ref_is_live c x \<Longrightarrow> x \<in> ipc_reach (put_handle c slot owner x r)"
proof -
  show "h \<in> set (ip_handles (put_handle c slot owner x r))" if hin: "h \<in> set (ip_handles c)" and occ: "hs_occupied h"
  proof -
    obtain i where i: "i < length (ip_handles c)" "ip_handles c ! i = h" using hin unfolding in_set_conv_nth by blast
    then have "i \<noteq> slot" using occ assms(2) by auto
    then have "ip_handles (put_handle c slot owner x r) ! i = h" using i by (simp add: put_handle_def nth_upd)
    then show ?thesis using i(1) by (metis nth_mem put_handle_simps(3))
  qed
  assume l: "ipc_object_ref_is_live c x"
  have "ip_handles (put_handle c slot owner x r) ! slot \<in> set (ip_handles (put_handle c slot owner x r))"
    using assms(1) by (intro nth_mem) simp
  from ipc_reach.root[OF this] show "x \<in> ipc_reach (put_handle c slot owner x r)"
    using l assms(1) by (simp add: put_handle_def ipc_object_ref_is_live_def)
qed

lemma children_cong:
  "os_kind (ip_objects c' ! i) = os_kind (ip_objects c ! i) \<Longrightarrow> ip_services c' = ip_services c \<Longrightarrow> children c' i = children c i"
  unfolding children_def by (simp only:)

lemma children_put_handle [simp]: "children (put_handle c slot owner x r) = children c"
  unfolding children_def put_handle_simps ..

lemma children_set_references [simp]: "children (set_references i n c) = children c"
  by (intro ext children_cong) simp_all

lemma live_set_references [simp]: "ipc_object_ref_is_live (set_references i n c) = ipc_object_ref_is_live c"
  by (rule live_cong[OF skel_classes[OF set_references_same(2)]])

section \<open>Messages\<close>

definition chan_list :: "ipc_core \<Rightarrow> nat \<Rightarrow> queued_message list" where
  "chan_list c i = (case os_kind (ip_objects c ! i) of KChannel ch \<Rightarrow> mq_list (ch_queue ch) | _ \<Rightarrow> [])"

abbreviation set_queue :: "nat \<Rightarrow> channel_object \<Rightarrow> message_queue \<Rightarrow> ipc_core \<Rightarrow> ipc_core" where
  "set_queue i ch q c \<equiv> set_kind i (KChannel (ch\<lparr>ch_queue := q\<rparr>)) c"

lemma set_queue_facts:
  assumes "i < length (ip_objects c)" "os_kind (ip_objects c ! i) = KChannel ch"
  shows "skel (set_queue i ch q c) = skel c"
    "map os_references (ip_objects (set_queue i ch q c)) = map os_references (ip_objects c)"
    "ip_shape c \<Longrightarrow> mq_wf q \<Longrightarrow> ip_shape (set_queue i ch q c)"
    "inner_refs (set_queue i ch q c) + mset (q_refs (ch_queue ch)) = inner_refs c + mset (q_refs q)"
    "children (set_queue i ch q c) j = (if j = i then map fst (q_refs q) else children c j)"
    "chan_list (set_queue i ch q c) j = (if j = i then mq_list q else chan_list c j)"
proof -
  show "skel (set_queue i ch q c) = skel c"
    using assms(2) by (simp add: set_kind_def map_update_same os_skel_def os_class_def)
  show "map os_references (ip_objects (set_queue i ch q c)) = map os_references (ip_objects c)"
    by (simp add: set_kind_def map_update_same)
  show "inner_refs (set_queue i ch q c) + mset (q_refs (ch_queue ch)) = inner_refs c + mset (q_refs q)"
    using set_kind_refs[OF assms(1), of "KChannel (ch\<lparr>ch_queue := q\<rparr>)"] assms(2) by (simp add: o_refs_def)
  have k: "map os_kind (ip_objects (set_queue i ch q c)) = (map os_kind (ip_objects c))[i := KChannel (ch\<lparr>ch_queue := q\<rparr>)]"
    by (simp add: set_kind_def map_update)
  show "ip_shape (set_queue i ch q c)" if "ip_shape c" "mq_wf q"
    using that list_all_update[of kind_wf "map os_kind (ip_objects c)" "KChannel (ch\<lparr>ch_queue := q\<rparr>)" i]
    unfolding ip_shape_def k by (simp add: kind_wf_def)
  show "children (set_queue i ch q c) j = (if j = i then map fst (q_refs q) else children c j)"
  proof (cases "j = i")
    case False
    then have "children (set_queue i ch q c) j = children c j" by (intro children_cong) simp_all
    then show ?thesis using False by simp
  qed (use assms(1) in \<open>simp add: children_def\<close>)
  show "chan_list (set_queue i ch q c) j = (if j = i then mq_list q else chan_list c j)"
    using assms(1) by (simp add: chan_list_def)
qed

lemma q_refs_snoc: "mq_list q' = mq_list q @ [m] \<Longrightarrow> q_refs q' = q_refs q @ qm_refs m"
  by (simp add: q_refs_def)

lemma q_refs_cons: "mq_list q = m # ms \<Longrightarrow> mq_list q' = ms \<Longrightarrow> q_refs q = qm_refs m @ q_refs q'"
  by (simp add: q_refs_def)

text \<open>Pushing stores counted references, popping takes them out again.\<close>

lemma push_message_ok:
  assumes a: "ip_acct c (X + mset (map fst (qm_refs m)))" and p: "ipc_object_ref_is_live c p" "kind_of c p = KChannel ch"
    and len: "mq_len (ch_queue ch) \<noteq> CHANNEL_QUEUE_CAPACITY"
    and ok: "\<And>x. x \<in> set (qm_refs m) \<Longrightarrow> ref_ok c x \<and> chan_rights (snd x)"
  obtains q where "ipc_push_message c p m = (Inr (), set_queue (or_slot p) ch q c)" "mq_wf q"
    "mq_list q = mq_list (ch_queue ch) @ [m]" "ip_acct (set_queue (or_slot p) ch q c) X"
    "all_refs (set_queue (or_slot p) ch q c) = all_refs c + mset (qm_refs m)"
proof -
  have pi: "or_slot p < length (ip_objects c)" using p(1) by (simp add: ipc_object_ref_is_live_def)
  obtain q where q: "mq_push (ch_queue ch) m = (Inr (), q)" "mq_wf q" "mq_list q = mq_list (ch_queue ch) @ [m]"
    using mq_push_list[OF shape_channel[OF acctD(1)[OF a] pi p(2)] len] by blast
  note f = set_queue_facts[OF pi p(2), of q]
  have i: "inner_refs (set_queue (or_slot p) ch q c) = inner_refs c + mset (qm_refs m)"
    using f(4) by (simp add: q_refs_snoc[OF q(3)])
  then have r: "all_refs (set_queue (or_slot p) ch q c) = all_refs c + mset (qm_refs m)" by (simp add: all_refs_def ac_simps)
  have "ip_acct (set_queue (or_slot p) ch q c) X"
    by (rule acct_move[OF a skel_classes[OF f(1)] f(3)[OF acctD(1)[OF a] q(2)] f(2)])
      (use ok in \<open>auto simp: r i ac_simps\<close>)
  moreover have "ipc_push_message c p m = (Inr (), set_queue (or_slot p) ch q c)"
    by (simp add: ipc_push_message_def p(2) q(1))
  ultimately show ?thesis using that q r by blast
qed

lemma pop_message_ok:
  assumes a: "ip_acct c X" and p: "ipc_object_ref_is_live c p" "kind_of c p = KChannel ch" "mq_list (ch_queue ch) = m # ms"
  obtains q where "ipc_pop_message c p = (Inr m, set_queue (or_slot p) ch q c)" "mq_wf q" "mq_list q = ms"
    "ip_acct (set_queue (or_slot p) ch q c) (X + mset (map fst (qm_refs m)))"
    "all_refs c = all_refs (set_queue (or_slot p) ch q c) + mset (qm_refs m)"
    "inner_refs c = inner_refs (set_queue (or_slot p) ch q c) + mset (qm_refs m)"
proof -
  have pi: "or_slot p < length (ip_objects c)" using p(1) by (simp add: ipc_object_ref_is_live_def)
  obtain q where q: "mq_pop (ch_queue ch) = (Inr m, q)" "mq_wf q" "mq_list q = ms"
    using mq_pop_list(2)[OF shape_channel[OF acctD(1)[OF a] pi p(2)] p(3)] by blast
  note f = set_queue_facts[OF pi p(2), of q]
  have i: "inner_refs c = inner_refs (set_queue (or_slot p) ch q c) + mset (qm_refs m)"
    using f(4) by (simp add: q_refs_cons[OF p(3) q(3)])
  then have r: "all_refs c = all_refs (set_queue (or_slot p) ch q c) + mset (qm_refs m)" by (simp add: all_refs_def ac_simps)
  have "ip_acct (set_queue (or_slot p) ch q c) (X + mset (map fst (qm_refs m)))"
    by (rule acct_move[OF a skel_classes[OF f(1)] f(3)[OF acctD(1)[OF a] q(2)] f(2)])
      (auto simp: r i ac_simps)
  moreover have "ipc_pop_message c p = (Inr m, set_queue (or_slot p) ch q c)"
    by (simp add: ipc_pop_message_def p(2) q(1))
  ultimately show ?thesis using that q r i by blast
qed

lemma reachable_same_live:
  assumes "ip_reachable c" "skel c' = skel c" "ipc_reach c \<subseteq> ipc_reach c'"
  shows "ip_reachable c'"
  unfolding ip_reachable_def
proof (intro allI impI)
  note cl = skel_classes[OF assms(2)]
  fix i assume i: "i < length (ip_objects c')" "os_kind (ip_objects c' ! i) \<noteq> KFree"
  then have i': "i < length (ip_objects c)" using classes_length[OF cl] by simp
  then show "ref_at c' i \<in> ipc_reach c'" using assms(1,3) i(2) ref_at_cong[OF cl i'] by (auto simp: ip_reachable_def)
qed

text \<open>Enough to keep the invariant where only queues, counts and handles change.\<close>

abbreviation registry_names :: "ipc_core \<Rightarrow> (bool \<times> u8 \<times> u8 list) list" where
  "registry_names c \<equiv> map (\<lambda>e. (se_occupied e, se_name_len e, se_name e)) (ip_services c)"

lemma registry_occupied: "registry_names c' = registry_names c \<Longrightarrow> map se_occupied (ip_services c') = map se_occupied (ip_services c)"
  by (drule arg_cong[of _ _ "map fst"]) (simp add: comp_def)

lemma inv_same_skel:
  assumes "ipc_inv c" "skel c' = skel c" "registry_names c' = registry_names c" "ip_acct c' {#}" "ipc_reach c \<subseteq> ipc_reach c'"
  shows "ipc_inv c'"
proof -
  note I = invD[OF assms(1)]
  have "ip_services_ok c'" by (rule services_ok_cong[OF skel_classes[OF assms(2)] registry_occupied[OF assms(3)] I(7,3)])
  moreover have "ip_names_ok c'" by (rule names_ok_cong[OF assms(3) I(4)])
  ultimately show ?thesis
    using assms(4) peers_cong[OF assms(2) I(2)] reachable_same_live[OF I(5) assms(2,5)] by (simp add: ipc_inv_def)
qed

lemma chan_ref_rights: "ref_ok c x \<Longrightarrow> kind_of c (fst x) = KChannel ch \<Longrightarrow> chan_rights (snd x)"
  by (simp add: ref_ok_def)

text \<open>What \<open>send\<close> may queue with a message: a channel the sender holds, with no more rights.\<close>

lemma queue_transfer_ok:
  assumes inv: "ipc_inv c"
  shows "(\<exists>e. ipc_queue_transfer c sender t = (Inl e, c)) \<or> ipc_queue_transfer c sender t = (Inr None, c)
    \<or> (\<exists>x r r0 n. ipc_queue_transfer c sender t = (Inr (Some \<lparr>qt_object = x, qt_rights = r\<rparr>), set_references (or_slot x) n c)
        \<and> ip_acct (set_references (or_slot x) n c) {#x#} \<and> (x, r0) \<in># handle_refs c \<and> rights_contains r0 r
        \<and> chan_rights r \<and> ref_ok c (x, r))"
proof (cases "\<exists>e. ipc_queue_transfer c sender t = (Inl e, c) \<or> t = None")
  case True
  then show ?thesis by (auto simp: ipc_queue_transfer_def)
next
  case False
  then obtain req where t: "t = Some req" by auto
  have nf: "\<And>e. ipc_queue_transfer c sender t \<noteq> (Inl e, c)" using False by auto
  have q: "\<not> rights_is_empty (tr_rights req)" using nf[of InvalidRights] by (auto simp: ipc_queue_transfer_def t)
  obtain s where s: "ipc_resolve_handle c sender (tr_handle req) = Inr s"
    using nf q by (cases "ipc_resolve_handle c sender (tr_handle req)") (auto simp: ipc_queue_transfer_def t)
  note R = s[unfolded resolve_handle_Inr]
  have live: "ipc_object_ref_is_live c (hs_object s)" using R by blast
  have w1: "ipc_require_right (hs_rights s) RIGHTS_TRANSFER = Inr ()"
    using nf[of MissingRight] q s
    by (cases "rights_contains (hs_rights s) RIGHTS_TRANSFER") (simp_all add: ipc_queue_transfer_def t ipc_require_right_def)
  have w2: "rights_contains (hs_rights s) (tr_rights req)"
    by (rule ccontr) (use w1 nf[of ExcessiveRights] q s in \<open>simp add: ipc_queue_transfer_def t\<close>)
  note w = w1 w2
  obtain ch where ch: "kind_of c (hs_object s) = KChannel ch"
    using nf q s w by (cases "kind_of c (hs_object s)") (auto simp: ipc_queue_transfer_def t resolve_live[OF live])
  have all: "rights_contains CHANNEL_ALL (tr_rights req)"
    by (rule ccontr) (use nf[of ExcessiveRights] q s w ch in \<open>simp add: ipc_queue_transfer_def t resolve_live[OF live]\<close>)
  let ?n = "os_references (ip_objects c ! or_slot (hs_object s)) + 1"
  note ret = acct_retain[OF invD(1)[OF inv] live]
  have "ipc_queue_transfer c sender t =
      (Inr (Some \<lparr>qt_object = hs_object s, qt_rights = tr_rights req\<rparr>), set_references (or_slot (hs_object s)) ?n c)"
    using q s w ch all ret(1) by (simp add: ipc_queue_transfer_def t resolve_live[OF live])
  moreover have "(hs_object s, hs_rights s) \<in># handle_refs c" using R by (auto simp: in_handle_refs)
  moreover have "chan_rights (tr_rights req)" using q all by (simp add: chan_rights_def rights_is_empty_def)
  moreover have "ref_ok c (hs_object s, tr_rights req)" using live ch \<open>chan_rights (tr_rights req)\<close> by (simp add: ref_ok_def)
  ultimately show ?thesis using ret(2) w(2) by auto
qed

text \<open>A transfer that may be queued: none, or a reference derived from a handle of the sender.\<close>

definition transfer_from :: "ipc_core \<Rightarrow> queued_transfer option \<Rightarrow> bool" where
  "transfer_from c qt = (case qt of None \<Rightarrow> True
     | Some q \<Rightarrow> ref_ok c (qt_object q, qt_rights q) \<and> chan_rights (qt_rights q)
         \<and> (\<exists>r0. (qt_object q, r0) \<in># handle_refs c \<and> rights_contains r0 (qt_rights q)))"

lemma queue_transfer_cases:
  assumes "ipc_inv c"
  obtains e where "ipc_queue_transfer c sender t = (Inl e, c)"
    | qt d where "ipc_queue_transfer c sender t = (Inr qt, d)" "transfer_from c qt" "d = c \<or> (\<exists>i n. d = set_references i n c)"
        "ip_acct d (mset (map fst (qm_refs \<lparr>qm_message = m, qm_transfer = qt\<rparr>)))"
  using queue_transfer_ok[OF assms, of sender t] invD(1)[OF assms] that
  by (fastforce simp: transfer_from_def qm_refs_def)

text \<open>Adding a message to a queue.\<close>

lemma send_step:
  assumes inv: "ipc_inv c" and d: "d = c \<or> (\<exists>i n. d = set_references i n c)"
    and a: "ip_acct d (mset (map fst (qm_refs m)))" and t: "transfer_from c (qm_transfer m)"
    and p: "ipc_object_ref_is_live c p" "kind_of c p = KChannel ch" "mq_len (ch_queue ch) \<noteq> CHANNEL_QUEUE_CAPACITY"
  obtains c' where "ipc_push_message d p m = (Inr (), c')" "ipc_inv c'" "attenuates c c'" "ip_handles c' = ip_handles c"
    "length (ip_objects c') = length (ip_objects c)"
    "\<And>j. chan_list c' j = (if j = or_slot p then chan_list c j @ [m] else chan_list c j)"
proof -
  have dd: "skel d = skel c" "ip_services d = ip_services c" "ip_handles d = ip_handles c" "all_refs d = all_refs c"
    "handle_refs d = handle_refs c" "children d = children c" "ipc_object_ref_is_live d = ipc_object_ref_is_live c"
    "length (ip_objects d) = length (ip_objects c)" "\<And>j. os_kind (ip_objects d ! j) = os_kind (ip_objects c ! j)"
    using d by (auto simp: set_references_same)
  have ok: "ref_ok d x \<and> chan_rights (snd x)" if "x \<in> set (qm_refs m)" for x
    using that t ref_ok_cong[OF skel_classes[OF dd(1)]]
    by (auto simp: transfer_from_def qm_refs_def split: option.splits)
  have pd: "ipc_object_ref_is_live d p" "kind_of d p = KChannel ch" using p dd by simp_all
  obtain q where q: "ipc_push_message d p m = (Inr (), set_queue (or_slot p) ch q d)" "mq_wf q"
    "mq_list q = mq_list (ch_queue ch) @ [m]" "ip_acct (set_queue (or_slot p) ch q d) {#}"
    "all_refs (set_queue (or_slot p) ch q d) = all_refs d + mset (qm_refs m)"
    using push_message_ok[OF _ pd p(3) ok, of "{#}"] a by auto
  let ?c = "set_queue (or_slot p) ch q d"
  have pi: "or_slot p < length (ip_objects d)" using pd(1) by (simp add: ipc_object_ref_is_live_def)
  note f = set_queue_facts[OF pi pd(2), of q]
  have sk: "skel ?c = skel c" using f(1) dd(1) by simp
  note lv = live_cong[OF skel_classes[OF sk]]
  have "ipc_reach c \<subseteq> ipc_reach ?c"
  proof (rule reach_mono)
    fix x y assume xy: "x \<in> ipc_reach ?c" "y \<in> set (children c (or_slot x))" "ipc_object_ref_is_live c y"
    have "set (children c (or_slot p)) = set (map fst (q_refs (ch_queue ch)))" using p(2) by (simp add: children_def)
    then have "y \<in> set (children ?c (or_slot x))" using xy(2) by (auto simp: f(5) dd(6) q_refs_snoc[OF q(3)])
    then show "y \<in> ipc_reach ?c" using ipc_reach.edge[OF xy(1)] lv xy(3) by simp
  qed (use lv dd(3) in \<open>auto intro: ipc_reach.root\<close>)
  then have "ipc_inv ?c" by (intro inv_same_skel[OF inv sk _ q(4)]) (simp_all add: dd)
  moreover have "attenuates c ?c" unfolding attenuates_def
  proof (intro allI impI)
    fix x r' assume "(x, r') \<in># all_refs ?c"
    then have "(x, r') \<in># all_refs c \<or> (x, r') \<in> set (qm_refs m)" by (simp add: q(5) dd(4))
    then show "\<exists>r. (x, r) \<in># all_refs c \<and> rights_contains r r'"
      using t rights_contains_refl by (auto simp: transfer_from_def qm_refs_def all_refs_def split: option.splits)
  qed
  moreover have "chan_list ?c j = (if j = or_slot p then chan_list c j @ [m] else chan_list c j)" for j
    using p(2) pi by (simp add: f(6) q(3)) (simp add: chan_list_def dd(9))
  ultimately show ?thesis using that q(1) dd(3,8) by simp
qed

text \<open>Every outcome of \<open>send\<close>.\<close>

lemma send_cases:
  assumes inv: "ipc_inv c"
  obtains (fail) e where "ipc_send c sender h m t = (Inl e, c)"
    | (sent) s ch p qt c' where "ipc_send c sender h m t = (Inr (), c')" "ipc_resolve_handle c sender h = Inr s"
        "rights_contains (hs_rights s) RIGHTS_SEND" "kind_of c (hs_object s) = KChannel ch" "ch_peer ch = Some p"
        "ipc_inv c'" "attenuates c c'" "ip_handles c' = ip_handles c" "length (ip_objects c') = length (ip_objects c)"
        "transfer_from c qt" "\<And>j. chan_list c' j = (if j = or_slot p
           then chan_list c j @ [\<lparr>qm_message = wm_stamp_sender m sender, qm_transfer = qt\<rparr>] else chan_list c j)"
        "fst (ipc_queue_transfer c sender t) = Inr qt" "wm_is_valid m"
proof (cases "\<exists>e. ipc_send c sender h m t = (Inl e, c)")
  case False
  then have nf: "\<And>e. ipc_send c sender h m t \<noteq> (Inl e, c)" by blast
  have v: "wm_is_valid m" by (rule ccontr) (use nf[of MalformedMessage] in \<open>simp add: ipc_send_def\<close>)
  obtain s where s: "ipc_resolve_handle c sender h = Inr s"
    using nf v by (cases "ipc_resolve_handle c sender h") (auto simp: ipc_send_def)
  have live: "ipc_object_ref_is_live c (hs_object s)" using s unfolding resolve_handle_Inr by blast
  have r: "rights_contains (hs_rights s) RIGHTS_SEND"
    by (rule ccontr) (use nf[of MissingRight] v s in \<open>simp add: ipc_send_def ipc_require_right_def\<close>)
  obtain ch where ch: "kind_of c (hs_object s) = KChannel ch"
    using nf[of WrongObjectType] v s r
    by (cases "kind_of c (hs_object s)") (auto simp: ipc_send_def ipc_require_right_def resolve_live[OF live])
  obtain p where p: "ch_peer ch = Some p"
    using nf[of PeerClosed] v s r ch
    by (cases "ch_peer ch") (auto simp: ipc_send_def ipc_require_right_def resolve_live[OF live])
  have "or_slot (hs_object s) < length (ip_objects c)" using live by (simp add: ipc_object_ref_is_live_def)
  then obtain pch where pch: "ipc_object_ref_is_live c p" "kind_of c p = KChannel pch"
    using invD(2)[OF inv] ch p unfolding ip_peers_def by blast
  note simps = ipc_send_def ipc_require_right_def resolve_live[OF live] resolve_live[OF pch(1)]
  have len: "mq_len (ch_queue pch) \<noteq> CHANNEL_QUEUE_CAPACITY"
    by (rule notI) (use nf[of QueueFull] v s r ch p pch in \<open>simp add: simps\<close>)
  let ?m = "\<lambda>qt. \<lparr>qm_message = wm_stamp_sender m sender, qm_transfer = qt\<rparr>"
  have e: "ipc_send c sender h m t = try_step (ipc_queue_transfer c sender t) (\<lambda>qt c. case ipc_push_message c p (?m qt) of
      (Inl error, c) \<Rightarrow> (Inl error, case qt of None \<Rightarrow> c | Some t \<Rightarrow> ipc_release_object c (qt_object t))
    | (Inr _, c) \<Rightarrow> (Inr (), c))"
    using v s r ch p pch len by (simp add: simps)
  show ?thesis
  proof (cases rule: queue_transfer_cases[OF inv, where sender = sender and t = t and m = "wm_stamp_sender m sender"])
    case (1 err)
    then show ?thesis using nf[of err] e by (simp add: try_step_def)
  next
    case (2 qt d)
    obtain c' where c': "ipc_push_message d p (?m qt) = (Inr (), c')" "ipc_inv c'" "attenuates c c'"
      "ip_handles c' = ip_handles c" "length (ip_objects c') = length (ip_objects c)"
      "\<And>j. chan_list c' j = (if j = or_slot p then chan_list c j @ [?m qt] else chan_list c j)"
      by (rule send_step[OF inv 2(3,4) _ pch len]) (use 2(2) in auto)
    then show ?thesis using sent[OF _ s r ch p c'(2-5) 2(2) c'(6) _ v] e 2(1) by simp
  qed
qed (use fail in blast)

text \<open>Every outcome of \<open>receive\<close>: the oldest message, its transfer installed with the rights it was queued with.\<close>

lemma receive_cases:
  assumes inv: "ipc_inv c"
  obtains (fail) e where "ipc_receive c receiver h = (Inl e, c)"
    | (received) s ch m ms rh c' where "ipc_receive c receiver h = (Inr \<lparr>rm_message = qm_message m, rm_transferred = rh\<rparr>, c')"
        "ipc_resolve_handle c receiver h = Inr s" "rights_contains (hs_rights s) RIGHTS_RECEIVE"
        "kind_of c (hs_object s) = KChannel ch" "chan_list c (or_slot (hs_object s)) = m # ms"
        "ipc_inv c'" "attenuates c c'" "length (ip_handles c') = length (ip_handles c)" "length (ip_objects c') = length (ip_objects c)"
        "\<And>j. chan_list c' j = (if j = or_slot (hs_object s) then ms else chan_list c j)"
        "(case qm_transfer m of None \<Rightarrow> rh = None \<and> ip_handles c' = ip_handles c
          | Some t \<Rightarrow> \<exists>r. rh = Some r \<and> hd_slot r < length (ip_handles c) \<and> \<not> hs_occupied (ip_handles c ! hd_slot r)
              \<and> ip_handles c' = (ip_handles c)[hd_slot r := \<lparr>hs_generation = hd_generation r, hs_occupied = True,
                   hs_owner = receiver, hs_object = qt_object t, hs_rights = qt_rights t\<rparr>])"
proof (cases "\<exists>e. ipc_receive c receiver h = (Inl e, c)")
  case False
  then have nf: "\<And>e. ipc_receive c receiver h \<noteq> (Inl e, c)" by blast
  obtain s where s: "ipc_resolve_handle c receiver h = Inr s"
    using nf by (cases "ipc_resolve_handle c receiver h") (auto simp: ipc_receive_def)
  have live: "ipc_object_ref_is_live c (hs_object s)" using s unfolding resolve_handle_Inr by blast
  then have xi: "or_slot (hs_object s) < length (ip_objects c)" by (simp add: ipc_object_ref_is_live_def)
  have r: "rights_contains (hs_rights s) RIGHTS_RECEIVE"
    by (rule ccontr) (use nf[of MissingRight] s in \<open>simp add: ipc_receive_def ipc_require_right_def\<close>)
  note simps = ipc_receive_def ipc_require_right_def resolve_live[OF live] Let_def
  obtain ch where ch: "kind_of c (hs_object s) = KChannel ch"
    using nf[of WrongObjectType] s r by (cases "kind_of c (hs_object s)") (auto simp: simps)
  note I = invD[OF inv] and wf = shape_channel[OF invD(7)[OF inv] xi ch]
  obtain m ms where ms: "mq_list (ch_queue ch) = m # ms"
    using nf[of QueueEmpty] s r ch mq_pop_list(1)[OF wf] by (cases "mq_list (ch_queue ch)") (auto simp: simps)
  have front: "mq_front (ch_queue ch) = Inr m" using mq_pop_list(2)[OF wf ms] by blast
  have free: "qm_transfer m = None \<or> 0 < ipc_free_handle_count c"
    by (rule ccontr) (use nf[of HandleTableFull] s r ch front in \<open>simp add: simps\<close>)
  obtain q where q: "ipc_pop_message c (hs_object s) = (Inr m, set_queue (or_slot (hs_object s)) ch q c)" "mq_wf q" "mq_list q = ms"
    "ip_acct (set_queue (or_slot (hs_object s)) ch q c) ({#} + mset (map fst (qm_refs m)))"
    "all_refs c = all_refs (set_queue (or_slot (hs_object s)) ch q c) + mset (qm_refs m)"
    "inner_refs c = inner_refs (set_queue (or_slot (hs_object s)) ch q c) + mset (qm_refs m)"
    by (rule pop_message_ok[OF I(1) live ch ms])
  let ?d = "set_queue (or_slot (hs_object s)) ch q c"
  note f = set_queue_facts[OF xi ch, of q]
  note lv = live_cong[OF skel_classes[OF f(1)]]
  have kids: "children c (or_slot (hs_object s)) = map fst (qm_refs m @ q_refs q)"
    using ch by (simp add: children_def q_refs_cons[OF ms q(3)])
  have cl: "chan_list c (or_slot (hs_object s)) = m # ms" using ch ms by (simp add: chan_list_def)
  have cd: "chan_list ?d j = (if j = or_slot (hs_object s) then ms else chan_list c j)" for j by (simp add: f(6) q(3))
  show ?thesis
  proof (cases "qm_transfer m")
    case None
    then have e: "qm_refs m = []" by (simp add: qm_refs_def)
    have "ipc_reach c \<subseteq> ipc_reach ?d"
    proof (rule reach_mono)
      fix x y assume xy: "x \<in> ipc_reach ?d" "y \<in> set (children c (or_slot x))" "ipc_object_ref_is_live c y"
      then have "y \<in> set (children ?d (or_slot x))" using kids e by (auto simp: f(5))
      then show "y \<in> ipc_reach ?d" using ipc_reach.edge[OF xy(1)] lv xy(3) by simp
    qed (use lv in \<open>auto intro: ipc_reach.root\<close>)
    then have "ipc_inv ?d" by (intro inv_same_skel[OF inv f(1)]) (use q(4) e in simp_all)
    moreover have "attenuates c ?d" by (rule attenuates_subset) (simp add: q(5))
    moreover have "ipc_receive c receiver h = (Inr \<lparr>rm_message = qm_message m, rm_transferred = None\<rparr>, ?d)"
      using s r ch front q(1) None by (simp add: simps)
    ultimately show ?thesis using received[OF _ s r ch cl _ _ _ _ cd] None by simp
  next
    case (Some t)
    then have e: "qm_refs m = [(qt_object t, qt_rights t)]" by (simp add: qm_refs_def)
    have ok: "ref_ok c (qt_object t, qt_rights t)" by (rule acctD(2)[OF I(1)]) (simp add: q(5) e)
    have okd: "ref_ok ?d (qt_object t, qt_rights t)" using ok ref_ok_cong[OF skel_classes[OF f(1)]] by simp
    have ad: "ip_acct ?d (add_mset (qt_object t) {#})" using q(4) e by simp
    have fd: "0 < ipc_free_handle_count ?d" using free Some by (simp add: ipc_free_handle_count_def)
    obtain slot where sl: "slot < length (ip_handles ?d)" "\<not> hs_occupied (ip_handles ?d ! slot)"
      "ipc_install_handle ?d receiver (qt_object t) (qt_rights t) False =
        (Inr \<lparr>hd_slot = slot, hd_generation = next_generation (hs_generation (ip_handles ?d ! slot))\<rparr>,
         put_handle ?d slot receiver (qt_object t) (qt_rights t))"
      "ip_acct (put_handle ?d slot receiver (qt_object t) (qt_rights t)) {#}"
      by (rule install_adopt[OF ad fd okd])
    let ?c = "put_handle ?d slot receiver (qt_object t) (qt_rights t)"
    note pr = put_handle_roots[OF sl(1,2), where owner = receiver and x = "qt_object t" and r = "qt_rights t"]
    have tl: "ipc_object_ref_is_live c (qt_object t)" using ok by (simp add: ref_ok_def)
    have sk: "skel ?c = skel c" using f(1) by simp
    have lc: "ipc_object_ref_is_live ?c = ipc_object_ref_is_live c" using lv by simp
    have "ipc_reach c \<subseteq> ipc_reach ?c"
    proof (rule reach_mono)
      fix x y assume xy: "x \<in> ipc_reach ?c" "y \<in> set (children c (or_slot x))" "ipc_object_ref_is_live c y"
      then have "y \<in> set (children ?c (or_slot x)) \<or> y = qt_object t" using kids e by (auto simp: f(5))
      then show "y \<in> ipc_reach ?c" using ipc_reach.edge[OF xy(1)] lc xy(3) pr(2) tl lv by auto
    qed (use lc pr(1) in \<open>auto intro!: ipc_reach.root\<close>)
    then have "ipc_inv ?c" by (intro inv_same_skel[OF inv sk _ sl(4)]) simp_all
    moreover have "attenuates c ?c"
      by (rule attenuates_subset) (auto simp: q(5) e put_handle_refs[OF sl(1,2)])
    moreover have "ipc_receive c receiver h = (Inr \<lparr>rm_message = qm_message m, rm_transferred =
        Some \<lparr>hd_slot = slot, hd_generation = next_generation (hs_generation (ip_handles c ! slot))\<rparr>\<rparr>, ?c)"
      using s r ch front q(1) Some sl(3) free by (simp add: simps)
    moreover have "chan_list ?c = chan_list ?d" by (simp add: chan_list_def fun_eq_iff)
    ultimately show ?thesis using received[OF _ s r ch cl] cd Some sl(1,2) by (simp add: put_handle_def)
  qed
qed (use fail in blast)

section \<open>Services\<close>

abbreviation set_pending :: "nat \<Rightarrow> pending_queue \<Rightarrow> ipc_core \<Rightarrow> ipc_core" where
  "set_pending r q c \<equiv> c\<lparr>ip_services := (ip_services c)[r := (ip_services c ! r)\<lparr>se_pending := q\<rparr>]\<rparr>"

lemma set_pending_facts:
  assumes "ip_shape c" "r < SERVICE_REGISTRY_CAPACITY" "se_occupied (ip_services c ! r)"
  shows "inner_refs (set_pending r q c) + mset (map pc_ref (pq_list (se_pending (ip_services c ! r)))) =
      inner_refs c + mset (map pc_ref (pq_list q))"
    "pq_wf q \<Longrightarrow> ip_shape (set_pending r q c)"
    "registry_names (set_pending r q c) = registry_names c"
    "children (set_pending r q c) j =
      (if os_kind (ip_objects c ! j) = KService r then map pc_endpoint (pq_list q) else children c j)"
    "ipc_object_ref_is_live (set_pending r q c) = ipc_object_ref_is_live c"
proof -
  have rl: "r < length (ip_services c)" using assms(1,2) by (simp add: ip_shape_def)
  show "inner_refs (set_pending r q c) + mset (map pc_ref (pq_list (se_pending (ip_services c ! r)))) =
      inner_refs c + mset (map pc_ref (pq_list q))"
    using inner_refs_update(1)[OF rl, of "(ip_services c ! r)\<lparr>se_pending := q\<rparr>"] assms(3) by (simp add: s_refs_def)
  show "ip_shape (set_pending r q c)" if "pq_wf q"
    using assms(1) that by (simp add: ip_shape_def list_all_update)
  show "registry_names (set_pending r q c) = registry_names c" by (simp add: map_update_same)
  show "children (set_pending r q c) j =
      (if os_kind (ip_objects c ! j) = KService r then map pc_endpoint (pq_list q) else children c j)"
    using assms(2,3) rl by (cases "os_kind (ip_objects c ! j)") (auto simp: children_def nth_upd)
qed (simp add: ipc_object_ref_is_live_def fun_eq_iff)

lemma accept_op_ok:
  assumes inv: "ipc_inv c"
  shows "op_ok c (ipc_accept c provider listener)"
proof (cases "\<exists>e. ipc_accept c provider listener = (Inl e, c)")
  case False
  then have nf: "\<And>e. ipc_accept c provider listener \<noteq> (Inl e, c)" by blast
  note I = invD[OF inv]
  obtain s where s: "ipc_resolve_handle c provider listener = Inr s"
    using nf by (cases "ipc_resolve_handle c provider listener") (auto simp: ipc_accept_def)
  have live: "ipc_object_ref_is_live c (hs_object s)" using s unfolding resolve_handle_Inr by blast
  then have xi: "or_slot (hs_object s) < length (ip_objects c)" by (simp add: ipc_object_ref_is_live_def)
  have ra: "rights_contains (hs_rights s) RIGHTS_ACCEPT"
    by (rule ccontr) (use nf[of MissingRight] s in \<open>simp add: ipc_accept_def ipc_require_right_def\<close>)
  note simps = ipc_accept_def ipc_require_right_def resolve_live[OF live]
  obtain r where k: "kind_of c (hs_object s) = KService r"
    using nf[of WrongObjectType] s ra by (cases "kind_of c (hs_object s)") (auto simp: simps)
  note r = services_okD[OF I(3) xi k]
  let ?p = "se_pending (ip_services c ! r)"
  have pv: "se_provider (ip_services c ! r) = provider"
    by (rule ccontr) (use nf[of AccessDenied] s ra k in \<open>simp add: simps\<close>)
  have ne: "pq_len ?p \<noteq> 0" by (rule notI) (use nf[of PendingQueueEmpty] s ra k pv in \<open>simp add: simps\<close>)
  have free: "0 < ipc_free_handle_count c"
    by (rule ccontr) (use nf[of HandleTableFull] s ra k pv ne in \<open>simp add: simps\<close>)
  obtain m ms where ms: "pq_list ?p = m # ms" using ne by (cases "pq_list ?p") (auto dest: arg_cong[of _ _ length])
  obtain q where q: "pq_pop ?p = (Inr m, q)" "pq_wf q" "pq_list q = ms"
    using pq_pop_list(2)[OF shape_service[OF I(7) r(1)] ms] by blast
  let ?d = "set_pending r q c"
  note f = set_pending_facts[OF I(7) r(1,2), of q]
  have inner: "inner_refs c = add_mset (pc_ref m) (inner_refs ?d)" using f(1) by (simp add: ms q(3))
  then have refs: "all_refs c = add_mset (pc_ref m) (all_refs ?d)" by (simp add: all_refs_def)
  have ok: "ref_ok c (pc_endpoint m, pc_rights m)" by (rule acctD(2)[OF I(1)]) (simp add: refs pc_ref_def)
  have ad: "ip_acct ?d (add_mset (pc_endpoint m) {#})"
    by (rule acct_move[OF I(1) _ f(2)[OF q(2)]]) (auto simp: refs inner pc_ref_def)
  have okd: "ref_ok ?d (pc_endpoint m, pc_rights m)" using ok by (simp add: ref_ok_def f(5))
  have fd: "0 < ipc_free_handle_count ?d" using free by (simp add: ipc_free_handle_count_def)
  obtain slot where sl: "slot < length (ip_handles ?d)" "\<not> hs_occupied (ip_handles ?d ! slot)"
    "ipc_install_handle ?d provider (pc_endpoint m) (pc_rights m) False =
      (Inr \<lparr>hd_slot = slot, hd_generation = next_generation (hs_generation (ip_handles ?d ! slot))\<rparr>,
       put_handle ?d slot provider (pc_endpoint m) (pc_rights m))"
    "ip_acct (put_handle ?d slot provider (pc_endpoint m) (pc_rights m)) {#}"
    by (rule install_adopt[OF ad fd okd])
  let ?c = "put_handle ?d slot provider (pc_endpoint m) (pc_rights m)"
  note pr = put_handle_roots[OF sl(1,2), where owner = provider and x = "pc_endpoint m" and r = "pc_rights m"]
  have lc: "ipc_object_ref_is_live ?c = ipc_object_ref_is_live c" using f(5) by simp
  have tl: "ipc_object_ref_is_live ?d (pc_endpoint m)" using okd by (simp add: ref_ok_def)
  have kid: "os_kind (ip_objects c ! j) = KService r \<Longrightarrow> children c j = pc_endpoint m # map pc_endpoint (pq_list q)" for j
    using r(1,2) ms q(3) by (simp add: children_def)
  have "ipc_reach c \<subseteq> ipc_reach ?c"
  proof (rule reach_mono)
    fix x y assume xy: "x \<in> ipc_reach ?c" "y \<in> set (children c (or_slot x))" "ipc_object_ref_is_live c y"
    then have "y \<in> set (children ?c (or_slot x)) \<or> y = pc_endpoint m" using kid by (auto simp: f(4))
    then show "y \<in> ipc_reach ?c" using ipc_reach.edge[OF xy(1)] lc xy(3) pr(2)[OF tl] by auto
  qed (use lc pr(1) in \<open>auto intro!: ipc_reach.root\<close>)
  then have "ipc_inv ?c" by (intro inv_same_skel[OF inv _ _ sl(4)]) (use f(3) in simp_all)
  moreover have "attenuates c ?c"
    by (rule attenuates_subset) (auto simp: refs pc_ref_def put_handle_refs[OF sl(1,2)])
  moreover have "ipc_accept c provider listener =
      (Inr \<lparr>hd_slot = slot, hd_generation = next_generation (hs_generation (ip_handles ?d ! slot))\<rparr>, ?c)"
    using s ra k pv ne free q(1) sl(3) by (simp add: simps)
  ultimately show ?thesis by (simp add: op_ok_def)
qed (auto simp: op_ok_def)

end
