(* ===== verification/Ipc_Properties.thy ===== *)
theory Ipc_Properties
  imports Ipc_Safety
begin

text \<open>
  The operations of the IPC core that create objects, and the cleanups of a process and of a
  slot, against the invariant.
\<close>

section \<open>Creating a pair of endpoints\<close>

lemma services_ok_kinds:
  assumes ok: "ip_services_ok c" and n: "length (ip_objects c') = length (ip_objects c)"
    and sv: "ip_services c' = ip_services c"
    and k: "\<And>k r. k < length (ip_objects c) \<Longrightarrow> (os_kind (ip_objects c' ! k) = KService r) = (os_kind (ip_objects c ! k) = KService r)"
  shows "ip_services_ok c'"
  unfolding ip_services_ok_def n sv
proof (intro conjI allI impI)
  fix i r assume i: "i < length (ip_objects c)" "os_kind (ip_objects c' ! i) = KService r"
  note o = services_okD[OF ok i(1), of r]
  show "r < SERVICE_REGISTRY_CAPACITY" "se_occupied (ip_services c ! r)" using o(1,2) i k by simp_all
  show "j = i" if "j < length (ip_objects c)" "os_kind (ip_objects c' ! j) = KService r" for j
    using o(3)[OF _ that(1)] i k that by simp
next
  fix r assume "r < length (ip_services c)" "se_occupied (ip_services c ! r)"
  then show "\<exists>i < length (ip_objects c). os_kind (ip_objects c' ! i) = KService r" using ok k unfolding ip_services_ok_def by blast
qed

lemma make_pair:
  assumes inv: "ipc_inv c" and free: "2 \<le> ipc_free_object_count c"
  obtains l r c3 where
    "\<And>K. try_step (ipc_allocate_object c (ipc_channel None)) (\<lambda>l c.
        try_step (ipc_allocate_object c (ipc_channel (Some l))) (\<lambda>r c. K l r (ipc_set_channel_peer c l (Some r)))) = K l r c3"
    "\<not> ipc_object_ref_is_live c l" "\<not> ipc_object_ref_is_live c r"
    "\<And>x. ipc_object_ref_is_live c3 x \<longleftrightarrow> x = l \<or> x = r \<or> ipc_object_ref_is_live c x"
    "kind_of c3 l = ipc_channel (Some r)" "kind_of c3 r = ipc_channel (Some l)"
    "ip_acct c3 {#}" "ip_peers c3" "ip_services_ok c3" "ip_handles c3 = ip_handles c" "ip_services c3 = ip_services c"
    "all_refs c3 = all_refs c" "length (ip_objects c3) = length (ip_objects c)"
    "\<And>x. ipc_object_ref_is_live c x \<Longrightarrow> ip_objects c3 ! or_slot x = ip_objects c ! or_slot x"
proof -
  note I = invD[OF inv]
  obtain i where i: "i < length (ip_objects c)" "os_kind (ip_objects c ! i) = KFree"
    "ipc_allocate_object c (ipc_channel None) = (Inr (fresh_ref c i), put_object c i (ipc_channel None))"
    using allocate_object[of c "ipc_channel None"] free by auto
  define l where "l = fresh_ref c i"
  define c1 where "c1 = put_object c i (ipc_channel None)"
  have chf: "ipc_channel p \<noteq> KFree" "kind_wf (ipc_channel p)" "o_refs \<lparr>os_generation = g, os_references = n, os_kind = ipc_channel p\<rparr> = []" for p g n
    by (simp_all add: ipc_channel_def kind_wf_def o_refs_def q_refs_def)
  have "0 < ipc_free_object_count c1" using free_object_count_put[OF i(1,2) chf(1), of None] free by (simp add: c1_def)
  then obtain j where j: "j < length (ip_objects c1)" "os_kind (ip_objects c1 ! j) = KFree"
    "ipc_allocate_object c1 (ipc_channel (Some l)) = (Inr (fresh_ref c1 j), put_object c1 j (ipc_channel (Some l)))"
    using allocate_object[of c1 "ipc_channel (Some l)"] by blast
  define r where "r = fresh_ref c1 j"
  define c2 where "c2 = put_object c1 j (ipc_channel (Some l))"
  define c3 where "c3 = ipc_set_channel_peer c2 l (Some r)"
  have n: "length (ip_objects c1) = length (ip_objects c)" "length (ip_objects c2) = length (ip_objects c)"
    by (simp_all add: c1_def c2_def)
  have ij: "i \<noteq> j" "j < length (ip_objects c)" "os_kind (ip_objects c ! j) = KFree"
    using j i(1) n chf(1) by (auto simp: c1_def put_object_nth split: if_splits)
  have sl: "or_slot l = i" "or_slot r = j" by (simp_all add: l_def r_def fresh_ref_def)
  have k2: "os_kind (ip_objects c2 ! i) = KChannel \<lparr>ch_peer = None, ch_queue = MQ_EMPTY\<rparr>"
    using i ij by (simp add: c2_def c1_def put_object_nth ipc_channel_def)
  have c3: "c3 = set_kind i (KChannel (\<lparr>ch_peer = None, ch_queue = MQ_EMPTY\<rparr>\<lparr>ch_peer := Some r\<rparr>)) c2"
    using k2 by (simp add: c3_def ipc_set_channel_peer_def sl)
  have o3: "ip_objects c3 ! k = (if k = i then (ip_objects c2 ! i)\<lparr>os_kind := ipc_channel (Some r)\<rparr> else ip_objects c2 ! k)" for k
    using i(1) n by (auto simp: c3 ipc_channel_def)
  have n3: "length (ip_objects c3) = length (ip_objects c)" using n by (simp add: c3)
  have kl: "os_kind (ip_objects c3 ! i) = ipc_channel (Some r)" "os_kind (ip_objects c3 ! j) = ipc_channel (Some l)"
    using ij j by (simp_all add: o3 c2_def put_object_nth)
  have kk: "ip_objects c3 ! k = ip_objects c ! k" if "k < length (ip_objects c)" "k \<noteq> i" "k \<noteq> j" for k
    using that n by (simp add: o3 c2_def c1_def put_object_nth)
  have a1: "ip_acct c1 {#}" unfolding c1_def by (rule acct_put_object[OF I(1) i(1,2) chf(1,2), of _ None, OF chf(3)])
  have a2: "ip_acct c2 {#}" unfolding c2_def by (rule acct_put_object[OF a1 j(1,2) chf(1,2), of _ "Some l", OF chf(3)])
  have a3: "ip_acct c3 {#}" unfolding c3 by (rule acct_set_peer[OF a2 _ k2]) (use i(1) n in simp)
  have "ipc_object_ref_is_live c3 x \<longleftrightarrow> ipc_object_ref_is_live c2 x" for x
    using i(1) n k2 by (auto simp: ipc_object_ref_is_live_def o3 n3 chf(1))
  then have live: "ipc_object_ref_is_live c3 x \<longleftrightarrow> x = l \<or> x = r \<or> ipc_object_ref_is_live c x" for x
    using put_object_live[OF j(1,2) chf(1), of "Some l" x] put_object_live[OF i(1,2) chf(1), of None x]
    by (auto simp: c2_def c1_def l_def r_def)
  have dead: "\<not> ipc_object_ref_is_live c l" "\<not> ipc_object_ref_is_live c r"
    using i(2) ij(3) sl by (simp_all add: ipc_object_ref_is_live_def)
  have old: "ip_objects c3 ! or_slot x = ip_objects c ! or_slot x" if "ipc_object_ref_is_live c x" for x
    using that i(2) ij(3) by (intro kk) (auto simp: ipc_object_ref_is_live_def)
  have at: "ref_at c3 i = l" "ref_at c3 j = r"
    using ij j n by (simp_all add: o3 c2_def c1_def put_object_nth l_def r_def fresh_ref_def i)
  have refs: "all_refs c3 = all_refs c"
  proof -
    have "inner_refs c3 = inner_refs c2" unfolding c3 using i(1) n k2
      by (intro inner_refs_cong) (simp_all add: set_kind_def map_update_same o_refs_def)
    then have "all_refs c3 = all_refs c2" by (simp add: all_refs_def c3)
    then show ?thesis using put_object_refs(2)[OF j(1,2), of undefined "ipc_channel (Some l)", OF chf(3)]
        put_object_refs(2)[OF i(1,2), of undefined "ipc_channel None", OF chf(3)] by (simp add: c2_def c1_def)
  qed
  have p3: "ip_peers c3" unfolding ip_peers_def
  proof (intro allI impI)
    fix k ch p assume k: "k < length (ip_objects c3)" "os_kind (ip_objects c3 ! k) = KChannel ch" "ch_peer ch = Some p"
    consider "k = i" | "k = j" | "k \<noteq> i" "k \<noteq> j" by blast
    then show "ipc_object_ref_is_live c3 p \<and> (\<exists>ch'. kind_of c3 p = KChannel ch' \<and> ch_peer ch' = Some (ref_at c3 k))"
    proof cases
      case 1
      then have "p = r" using k kl by (auto simp: ipc_channel_def)
      then show ?thesis using 1 kl live at sl by (simp add: ipc_channel_def)
    next
      case 2
      then have "p = l" using k kl by (auto simp: ipc_channel_def)
      then show ?thesis using 2 kl live at sl by (simp add: ipc_channel_def)
    next
      case 3
      then have o: "ip_objects c3 ! k = ip_objects c ! k" "k < length (ip_objects c)" using kk k(1) n3 by simp_all
      then have "ipc_object_ref_is_live c p \<and> (\<exists>ch'. kind_of c p = KChannel ch' \<and> ch_peer ch' = Some (ref_at c k))"
        using I(2) k unfolding ip_peers_def by metis
      then show ?thesis using live old[of p] o by auto
    qed
  qed
  have sv3: "ip_services_ok c3"
  proof (rule services_ok_kinds[OF I(3) n3])
    show "ip_services c3 = ip_services c" by (simp add: c3 c2_def c1_def)
    show "(os_kind (ip_objects c3 ! k) = KService s) = (os_kind (ip_objects c ! k) = KService s)" if "k < length (ip_objects c)" for k s
      using kk[OF that] kl i(2) ij(3) by (cases "k = i"; cases "k = j") (auto simp: ipc_channel_def)
  qed
  have K: "try_step (ipc_allocate_object c (ipc_channel None)) (\<lambda>l c.
        try_step (ipc_allocate_object c (ipc_channel (Some l))) (\<lambda>r c. K l r (ipc_set_channel_peer c l (Some r)))) = K l r c3" for K
    using i(3) j(3) by (simp add: l_def[symmetric] c1_def[symmetric] r_def[symmetric] c2_def[symmetric] c3_def[symmetric])
  have hs: "ip_handles c3 = ip_handles c" "ip_services c3 = ip_services c" by (simp_all add: c3 c2_def c1_def)
  show ?thesis by (rule that[OF K dead live _ _ a3 p3 sv3 hs refs n3 old]) (use kl sl in simp_all)
qed

lemma children_old:
  assumes "ip_services c' = ip_services c" "ip_objects c' ! k = ip_objects c ! k"
  shows "children c' k = children c k"
  using assms by (intro children_cong) simp_all

lemma inv_reach_live: "ipc_inv c \<Longrightarrow> ipc_object_ref_is_live c x \<Longrightarrow> x \<in> ipc_reach c"
  using live_eq_ref_at[of c x] by (auto simp: ipc_inv_def ip_reachable_def ipc_object_ref_is_live_def)

lemma reach_extends:
  assumes "\<And>x. ipc_object_ref_is_live c x \<Longrightarrow> ipc_object_ref_is_live c' x"
    "\<And>h. h \<in> set (ip_handles c) \<Longrightarrow> hs_occupied h \<Longrightarrow> h \<in> set (ip_handles c')"
    "\<And>x. ipc_object_ref_is_live c x \<Longrightarrow> set (children c (or_slot x)) \<subseteq> set (children c' (or_slot x))"
  shows "ipc_reach c \<subseteq> ipc_reach c'"
proof (rule reach_mono)
  fix x y assume "x \<in> ipc_reach c'" "ipc_object_ref_is_live c x" "y \<in> set (children c (or_slot x))" "ipc_object_ref_is_live c y"
  then show "y \<in> ipc_reach c'" using assms(1,3) by (intro ipc_reach.edge[of x c' y]) auto
qed (use assms(1,2) in \<open>auto intro!: ipc_reach.root\<close>)

text \<open>The invariant of a state that extends a made pair, both endpoints referred to from somewhere reachable.\<close>

lemma inv_grown:
  assumes c3: "ip_peers c3" "ip_services_ok c3" "ip_shape c3" and names: "ip_names_ok c'"
    and c': "skel c' = skel c3" "map se_occupied (ip_services c') = map se_occupied (ip_services c3)" "ip_acct c' {#}"
    and reach: "\<And>x. ipc_object_ref_is_live c3 x \<Longrightarrow> x \<in> ipc_reach c'"
  shows "ipc_inv c'"
proof -
  have "ip_services_ok c'" by (rule services_ok_cong[OF skel_classes[OF c'(1)] c'(2) c3(3,2)])
  moreover have "ip_reachable c'" unfolding ip_reachable_def
    using reach live_cong[OF skel_classes[OF c'(1)]] live_ref_at[of c'] by simp
  ultimately show ?thesis using peers_cong[OF c'(1) c3(1)] names c'(3) by (simp add: ipc_inv_def)
qed

lemma free_handle_count_put:
  assumes "slot < length (ip_handles c)" "\<not> hs_occupied (ip_handles c ! slot)"
  shows "ipc_free_handle_count (put_handle c slot owner x r) + 1 = ipc_free_handle_count c"
  using count_if_update[OF assms(1), of "\<lambda>s. \<not> hs_occupied s"] assms(2)
  by (simp add: ipc_free_handle_count_def put_handle_def)

lemma free_handle_count_set_references [simp]: "ipc_free_handle_count (set_references i n c) = ipc_free_handle_count c"
  by (simp add: ipc_free_handle_count_def)

text \<open>Installing a handle with a reference of its own, as one step.\<close>

lemma install_step:
  assumes "ip_acct c X" "0 < ipc_free_handle_count c" "ref_ok c (x, r)" "size X < 2 ^ 62"
  obtains h c' where "ipc_install_handle c owner x r True = (Inr h, c')" "ip_acct c' X" "skel c' = skel c"
    "ip_services c' = ip_services c" "all_refs c' = add_mset (x, r) (all_refs c)"
    "length (ip_handles c') = length (ip_handles c)" "length (ip_objects c') = length (ip_objects c)"
    "ipc_free_handle_count c' + 1 = ipc_free_handle_count c" "children c' = children c"
    "\<And>h. h \<in> set (ip_handles c) \<Longrightarrow> hs_occupied h \<Longrightarrow> h \<in> set (ip_handles c')" "x \<in> ipc_reach c'"
    "hd_slot h < length (ip_handles c)" "\<not> hs_occupied (ip_handles c ! hd_slot h)"
    "ip_handles c' = (ip_handles c)[hd_slot h := \<lparr>hs_generation = hd_generation h, hs_occupied = True,
       hs_owner = owner, hs_object = x, hs_rights = r\<rparr>]"
proof -
  let ?d = "set_references (or_slot x) (os_references (ip_objects c ! or_slot x) + 1) c"
  obtain slot where s: "slot < length (ip_handles c)" "\<not> hs_occupied (ip_handles c ! slot)"
    "ipc_install_handle c owner x r True =
      (Inr \<lparr>hd_slot = slot, hd_generation = next_generation (hs_generation (ip_handles c ! slot))\<rparr>, put_handle ?d slot owner x r)"
    "ip_acct (put_handle ?d slot owner x r) X"
    by (rule install_retain[OF assms])
  have sd: "slot < length (ip_handles ?d)" "\<not> hs_occupied (ip_handles ?d ! slot)" using s by simp_all
  have live: "ipc_object_ref_is_live c x" using assms(3) by (simp add: ref_ok_def)
  note pr = put_handle_roots[OF sd, where owner = owner and x = x and r = r]
  show ?thesis
  proof (rule that[OF s(3,4)])
    show "skel (put_handle ?d slot owner x r) = skel c" using set_references_same(2) by simp
    show "all_refs (put_handle ?d slot owner x r) = add_mset (x, r) (all_refs c)" using put_handle_refs[OF sd] by simp
    show "ipc_free_handle_count (put_handle ?d slot owner x r) + 1 = ipc_free_handle_count c"
      using free_handle_count_put[OF sd] by simp
    show "h \<in> set (ip_handles (put_handle ?d slot owner x r))" if "h \<in> set (ip_handles c)" "hs_occupied h" for h
      using pr(1) that by simp
    show "x \<in> ipc_reach (put_handle ?d slot owner x r)" using pr(2) live by simp
    show "children (put_handle ?d slot owner x r) = children c" by simp
  qed (use s in \<open>simp_all add: put_handle_def\<close>)
qed

lemma create_channel_op_ok:
  assumes inv: "ipc_inv c"
  shows "op_ok c (ipc_create_channel c lo lr ro rr)"
proof (cases "\<exists>e. ipc_create_channel c lo lr ro rr = (Inl e, c)")
  case False
  then have nf: "\<And>e. ipc_create_channel c lo lr ro rr \<noteq> (Inl e, c)" by blast
  note I = invD[OF inv] and ens = ensure_inv[OF inv]
  have vl: "ipc_validate_channel_rights lr = Inr ()"
    using nf[of InvalidRights] by (cases "rights_is_empty lr \<or> \<not> rights_contains CHANNEL_ALL lr")
      (auto simp: ipc_create_channel_def ipc_validate_channel_rights_def)
  have vr: "ipc_validate_channel_rights rr = Inr ()"
    using nf[of InvalidRights] vl by (cases "rights_is_empty rr \<or> \<not> rights_contains CHANNEL_ALL rr")
      (auto simp: ipc_create_channel_def ipc_validate_channel_rights_def)
  have fo: "2 \<le> ipc_free_object_count c"
    by (rule ccontr) (use nf[of ObjectTableFull] vl vr in \<open>simp add: ipc_create_channel_def ens\<close>)
  have fh: "2 \<le> ipc_free_handle_count c"
    by (rule ccontr) (use nf[of HandleTableFull] vl vr fo in \<open>simp add: ipc_create_channel_def ens\<close>)
  obtain l r c3 where p: "\<And>K :: _ \<Rightarrow> _ \<Rightarrow> _ \<Rightarrow> (ipc_error, handle \<times> handle) result \<times> ipc_core. try_step (ipc_allocate_object c (ipc_channel None)) (\<lambda>l c.
        try_step (ipc_allocate_object c (ipc_channel (Some l))) (\<lambda>r c. K l r (ipc_set_channel_peer c l (Some r)))) = K l r c3"
    "\<not> ipc_object_ref_is_live c l" "\<not> ipc_object_ref_is_live c r"
    "\<And>x. ipc_object_ref_is_live c3 x \<longleftrightarrow> x = l \<or> x = r \<or> ipc_object_ref_is_live c x"
    "kind_of c3 l = ipc_channel (Some r)" "kind_of c3 r = ipc_channel (Some l)"
    "ip_acct c3 {#}" "ip_peers c3" "ip_services_ok c3" "ip_handles c3 = ip_handles c" "ip_services c3 = ip_services c"
    "all_refs c3 = all_refs c" "length (ip_objects c3) = length (ip_objects c)"
    "\<And>x. ipc_object_ref_is_live c x \<Longrightarrow> ip_objects c3 ! or_slot x = ip_objects c ! or_slot x"
    by (rule make_pair[OF inv fo]) blast
  have cr: "chan_rights lr" "chan_rights rr"
    using vl vr by (auto simp: ipc_validate_channel_rights_def chan_rights_def rights_is_empty_def split: if_splits)
  have ok: "ref_ok c3 (l, lr)" "ref_ok c3 (r, rr)" using p(4-6) cr by (auto simp: ref_ok_def ipc_channel_def)
  have f3: "0 < ipc_free_handle_count c3" using fh p(10) by (simp add: ipc_free_handle_count_def)
  obtain h1 c4 where i1: "ipc_install_handle c3 lo l lr True = (Inr h1, c4)" "ip_acct c4 {#}" "skel c4 = skel c3"
    "ip_services c4 = ip_services c3" "all_refs c4 = add_mset (l, lr) (all_refs c3)"
    "length (ip_handles c4) = length (ip_handles c3)" "length (ip_objects c4) = length (ip_objects c3)"
    "ipc_free_handle_count c4 + 1 = ipc_free_handle_count c3" "children c4 = children c3"
    "\<And>h. h \<in> set (ip_handles c3) \<Longrightarrow> hs_occupied h \<Longrightarrow> h \<in> set (ip_handles c4)" "l \<in> ipc_reach c4"
    by (rule install_step[OF p(7) f3 ok(1)]) auto
  have f4: "0 < ipc_free_handle_count c4" using i1(8) fh p(10) by (simp add: ipc_free_handle_count_def)
  have ok4: "ref_ok c4 (r, rr)" using ok(2) ref_ok_cong[OF skel_classes[OF i1(3)]] by simp
  obtain h2 c5 where i2: "ipc_install_handle c4 ro r rr True = (Inr h2, c5)" "ip_acct c5 {#}" "skel c5 = skel c4"
    "ip_services c5 = ip_services c4" "all_refs c5 = add_mset (r, rr) (all_refs c4)"
    "length (ip_handles c5) = length (ip_handles c4)" "length (ip_objects c5) = length (ip_objects c4)"
    "children c5 = children c4"
    "\<And>h. h \<in> set (ip_handles c4) \<Longrightarrow> hs_occupied h \<Longrightarrow> h \<in> set (ip_handles c5)" "r \<in> ipc_reach c5"
    by (rule install_step[OF i1(2) f4 ok4]) auto
  have sk: "skel c5 = skel c3" using i1(3) i2(3) by simp
  note lv = live_cong[OF skel_classes[OF sk]]
  have roots: "h \<in> set (ip_handles c5)" if "h \<in> set (ip_handles c)" "hs_occupied h" for h
    using i1(10) i2(9) p(10) that by auto
  have "ipc_reach c4 \<subseteq> ipc_reach c5"
    by (rule reach_extends) (use i2(8,9) live_cong[OF skel_classes[OF i2(3)]] in auto)
  then have l5: "l \<in> ipc_reach c5" using i1(11) by blast
  have sub: "ipc_reach c \<subseteq> ipc_reach c5"
    by (rule reach_extends) (use roots lv p(4) children_old[OF p(11) p(14)] i1(9) i2(8) in auto)
  have reach: "x \<in> ipc_reach c5" if "ipc_object_ref_is_live c3 x" for x
    using that l5 i2(10) sub inv_reach_live[OF inv, of x] by (auto simp: p(4))
  have "ip_names_ok c5" by (rule names_ok_cong[OF _ I(4)]) (simp add: i1(4) i2(4) p(11))
  then have "ipc_inv c5" by (intro inv_grown[OF p(8,9) acctD(1)[OF p(7)] _ sk _ i2(2) reach]) (simp_all add: i1(4) i2(4))
  moreover have "attenuates c c5" unfolding attenuates_def
    using p(2,3) rights_contains_refl by (auto simp: i2(5) i1(5) p(12))
  moreover have "ipc_create_channel c lo lr ro rr = (Inr (h1, h2), c5)"
    using vl vr fo fh p(1)[of "\<lambda>l r c. try_step (ipc_install_handle c lo l lr True) (\<lambda>h1 c.
      try_step (ipc_install_handle c ro r rr True) (\<lambda>h2 c. (Inr (h1, h2), c)))"] i1(1) i2(1)
    by (simp add: ipc_create_channel_def ens Let_def)
  ultimately show ?thesis using i1(6,7) i2(6,7) p(10,13) by (simp add: op_ok_def)
qed (auto simp: op_ok_def)

section \<open>Connecting and publishing\<close>

lemma find_service_Some:
  assumes "ipc_find_service c name = Some r"
  shows "r < length (ip_services c)" "se_occupied (ip_services c ! r)" "se_name_matches (ip_services c ! r) name"
  using position_SomeD[OF assms[unfolded ipc_find_service_def]] by (auto simp: se_name_matches_def)

lemma connect_op_ok:
  assumes inv: "ipc_inv c"
  shows "op_ok c (ipc_connect c client name)"
proof (cases "\<exists>e. ipc_connect c client name = (Inl e, c)")
  case False
  then have nf: "\<And>e. ipc_connect c client name \<noteq> (Inl e, c)" by blast
  note I = invD[OF inv] and ens = ensure_inv[OF inv]
  have v: "ipc_validate_name name = Inr ()"
    using nf by (cases "ipc_validate_name name") (auto simp: ipc_connect_def)
  obtain s where s: "ipc_find_service c name = Some s"
    using nf v by (cases "ipc_find_service c name") (auto simp: ipc_connect_def)
  note S = find_service_Some[OF s]
  have sr: "s < SERVICE_REGISTRY_CAPACITY" using S(1) I(7) by (simp add: ip_shape_def)
  let ?e = "ip_services c ! s"
  have auth: "\<not> (id_uid client \<noteq> id_uid (se_provider ?e) \<or> id_session client \<noteq> id_session (se_provider ?e))"
    by (rule notI) (use nf[of RoutingDenied] v s in \<open>simp add: ipc_connect_def Let_def\<close>)
  have len: "pq_len (se_pending ?e) \<noteq> SERVICE_PENDING_CAPACITY"
    by (rule notI) (use nf[of PendingQueueFull] v s auth in \<open>simp add: ipc_connect_def Let_def\<close>)
  have fo: "2 \<le> ipc_free_object_count c"
    by (rule ccontr) (use nf[of ObjectTableFull] v s auth len in \<open>simp add: ipc_connect_def Let_def ens\<close>)
  have fh: "0 < ipc_free_handle_count c"
    by (rule ccontr) (use nf[of HandleTableFull] v s auth len fo in \<open>simp add: ipc_connect_def Let_def ens\<close>)
  obtain l r c3 where p: "\<And>K :: _ \<Rightarrow> _ \<Rightarrow> _ \<Rightarrow> (ipc_error, handle) result \<times> ipc_core. try_step (ipc_allocate_object c (ipc_channel None)) (\<lambda>l c.
        try_step (ipc_allocate_object c (ipc_channel (Some l))) (\<lambda>r c. K l r (ipc_set_channel_peer c l (Some r)))) = K l r c3"
    "\<not> ipc_object_ref_is_live c l" "\<not> ipc_object_ref_is_live c r"
    "\<And>x. ipc_object_ref_is_live c3 x \<longleftrightarrow> x = l \<or> x = r \<or> ipc_object_ref_is_live c x"
    "kind_of c3 l = ipc_channel (Some r)" "kind_of c3 r = ipc_channel (Some l)"
    "ip_acct c3 {#}" "ip_peers c3" "ip_services_ok c3" "ip_handles c3 = ip_handles c" "ip_services c3 = ip_services c"
    "all_refs c3 = all_refs c" "length (ip_objects c3) = length (ip_objects c)"
    "\<And>x. ipc_object_ref_is_live c x \<Longrightarrow> ip_objects c3 ! or_slot x = ip_objects c ! or_slot x"
    by (rule make_pair[OF inv fo]) blast
  have cr: "chan_rights CHANNEL_ALL" by (simp add: chan_rights_def CHANNEL_ALL_def RIGHTS_SEND_def RIGHTS_RECEIVE_def RIGHTS_TRANSFER_def)
  have ok: "ref_ok c3 (l, CHANNEL_ALL)" "ref_ok c3 (r, CHANNEL_ALL)" using p(4-6) cr by (auto simp: ref_ok_def ipc_channel_def)
  have f3: "0 < ipc_free_handle_count c3" using fh p(10) by (simp add: ipc_free_handle_count_def)
  obtain h c4 where i: "ipc_install_handle c3 client l CHANNEL_ALL True = (Inr h, c4)" "ip_acct c4 {#}" "skel c4 = skel c3"
    "ip_services c4 = ip_services c3" "all_refs c4 = add_mset (l, CHANNEL_ALL) (all_refs c3)"
    "length (ip_handles c4) = length (ip_handles c3)" "length (ip_objects c4) = length (ip_objects c3)" "children c4 = children c3"
    "\<And>h. h \<in> set (ip_handles c3) \<Longrightarrow> hs_occupied h \<Longrightarrow> h \<in> set (ip_handles c4)" "l \<in> ipc_reach c4"
    by (rule install_step[OF p(7) f3 ok(1)]) auto
  note lv4 = live_cong[OF skel_classes[OF i(3)]]
  have r4: "ipc_object_ref_is_live c4 r" using p(4) lv4 by simp
  define c5 where "c5 = set_references (or_slot r) (os_references (ip_objects c4 ! or_slot r) + 1) c4"
  have ret: "ipc_retain_object c4 r = (Inr (), c5)" "ip_acct c5 (add_mset r {#})"
    using acct_retain[OF i(2) r4] by (simp_all add: c5_def)
  have sk5: "skel c5 = skel c3" using i(3) set_references_same(2) by (simp add: c5_def)
  have s5: "ip_services c5 = ip_services c" "children c5 = children c3" "all_refs c5 = all_refs c4"
    using i(4,8) p(11) by (simp_all add: c5_def)
  have e5: "se_occupied (ip_services c5 ! s)" "ip_shape c5" using S(2) s5 acctD(1)[OF ret(2)] by simp_all
  obtain q where q: "pq_push (se_pending ?e) \<lparr>pc_endpoint = r, pc_rights = CHANNEL_ALL\<rparr> = (Inr (), q)" "pq_wf q"
    "pq_list q = pq_list (se_pending ?e) @ [\<lparr>pc_endpoint = r, pc_rights = CHANNEL_ALL\<rparr>]"
    using pq_push_list[OF shape_service[OF I(7) sr] len] by blast
  let ?c = "set_pending s q c5"
  note f = set_pending_facts[OF e5(2) sr e5(1), of q]
  have inner: "inner_refs ?c = add_mset (r, CHANNEL_ALL) (inner_refs c5)" using f(1) by (simp add: q(3) s5(1) pc_ref_def)
  then have refs: "all_refs ?c = add_mset (r, CHANNEL_ALL) (all_refs c5)" by (simp add: all_refs_def)
  have ok5: "ref_ok c5 (r, CHANNEL_ALL)" using ok(2) ref_ok_cong[OF skel_classes[OF sk5]] by simp
  have acct: "ip_acct ?c {#}"
    by (rule acct_move[OF ret(2) _ f(2)[OF q(2)]]) (use ok5 cr in \<open>auto simp: refs inner\<close>)
  have sk: "skel ?c = skel c3" using sk5 by simp
  have lv: "ipc_object_ref_is_live ?c = ipc_object_ref_is_live c3" by (rule live_cong[OF skel_classes[OF sk]])
  have hs: "ip_handles ?c = ip_handles c4" by (simp add: c5_def)
  have kind5: "os_kind (ip_objects c5 ! k) = os_kind (ip_objects c4 ! k)" for k by (simp add: c5_def)
  have kids: "set (children c3 (or_slot x)) \<subseteq> set (children ?c (or_slot x))" for x
  proof (cases "os_kind (ip_objects c5 ! or_slot x) = KService s")
    case True
    then have "children c5 (or_slot x) = map pc_endpoint (pq_list (se_pending ?e))" using sr e5(1) s5(1) by (simp add: children_def)
    then show ?thesis using True by (auto simp: f(4) q(3) s5(2)[symmetric])
  qed (simp add: f(4) s5(2))
  have "ipc_reach c4 \<subseteq> ipc_reach ?c"
    by (rule reach_extends) (use kids i(8) lv lv4 hs in auto)
  then have lr: "l \<in> ipc_reach ?c" using i(10) by blast
  have sub: "ipc_reach c \<subseteq> ipc_reach ?c"
  proof (rule reach_extends)
    show "set (children c (or_slot x)) \<subseteq> set (children ?c (or_slot x))" if "ipc_object_ref_is_live c x" for x
      using kids[of x] children_old[OF p(11) p(14)[OF that]] by simp
  qed (use i(9) p(4,10) lv hs in auto)
  have rr: "r \<in> ipc_reach ?c"
  proof -
    obtain k where k: "k < length (ip_objects c)" "os_kind (ip_objects c ! k) = KService s"
      using I(3) S(1,2) unfolding ip_services_ok_def by blast
    have kl: "ipc_object_ref_is_live c (ref_at c k)" using k by (simp add: live_ref_at)
    then have kr: "ref_at c k \<in> ipc_reach ?c" using sub inv_reach_live[OF inv] by blast
    have "classes c5 = classes c3" by (rule skel_classes[OF sk5])
    then have "os_class (ip_objects c5 ! k) = os_class (ip_objects c3 ! k)" using k(1) p(13) by (intro map_eq_nth[of os_class]) simp_all
    then have "os_kind (ip_objects c5 ! k) = KService s" using p(14)[OF kl] k(2) class_eqs(2) by (metis object_ref.select_convs(1))
    then have "r \<in> set (children ?c (or_slot (ref_at c k)))" by (simp add: f(4) q(3))
    then show ?thesis using ipc_reach.edge[OF kr] lv p(4) by simp
  qed
  have reach: "x \<in> ipc_reach ?c" if "ipc_object_ref_is_live c3 x" for x
    using that lr rr sub inv_reach_live[OF inv, of x] by (auto simp: p(4))
  have rn: "registry_names ?c = registry_names c" using f(3) s5(1) by simp
  have "ip_names_ok ?c" by (rule names_ok_cong[OF rn I(4)])
  then have "ipc_inv ?c"
    by (intro inv_grown[OF p(8,9) acctD(1)[OF p(7)] _ sk _ acct reach]) (use registry_occupied[OF rn] p(11) in simp_all)
  moreover have "attenuates c ?c" unfolding attenuates_def
    using p(2,3) rights_contains_refl by (auto simp: refs s5(3) i(5) p(12))
  moreover have "ipc_connect c client name = (Inr h, ?c)"
    using v s auth len fo fh p(1)[of "\<lambda>l r c. try_step (ipc_install_handle c client l CHANNEL_ALL True) (\<lambda>h c.
      try_step (ipc_retain_object c r) (\<lambda>_ c. try_step (ipc_push_pending c s \<lparr>pc_endpoint = r, pc_rights = CHANNEL_ALL\<rparr>)
        (\<lambda>_ c. (Inr h, c))))"] i(1) ret(1) q(1) s5(1)
    by (simp add: ipc_connect_def ens Let_def ipc_push_pending_def)
  moreover have "length (ip_handles ?c) = length (ip_handles c)" "length (ip_objects ?c) = length (ip_objects c)"
    using hs i(6,7) p(10,13) by (simp_all add: c5_def)
  ultimately show ?thesis by (simp add: op_ok_def)
qed (auto simp: op_ok_def)

lemma class_service: "os_class s = os_class s' \<Longrightarrow> (os_kind s = KService r) = (os_kind s' = KService r)"
  using class_eqs(2) by metis

lemma find_service_None:
  assumes "ipc_find_service c name = None" "ip_names_ok c" "e \<in> set (ip_services c)" "se_occupied e"
  shows "se_label e \<noteq> name"
proof
  assume l: "se_label e = name"
  have "length (se_label e) = unat (se_name_len e)" using assms(2-4) by (auto simp: ip_names_ok_def)
  then have "se_name_matches e name" using l assms(4) by (auto simp: se_name_matches_def se_label_def)
  then show False using assms(1,3) by (auto simp: ipc_find_service_def position_None_iff)
qed

definition new_entry :: "identity \<Rightarrow> u8 list \<Rightarrow> service_entry" where
  "new_entry provider name = SERVICE_EMPTY\<lparr>se_occupied := True, se_provider := provider,
     se_name_len := of_nat (length name), se_name := name @ drop (length name) (se_name SERVICE_EMPTY)\<rparr>"

lemma new_entry_facts:
  assumes "ipc_validate_name name = Inr ()"
  shows "se_occupied (new_entry provider name)" "se_label (new_entry provider name) = name" "s_refs (new_entry provider name) = []"
    "se_pending (new_entry provider name) = PQ_EMPTY" "length (se_label (new_entry provider name)) = unat (se_name_len (new_entry provider name))"
proof -
  have l: "length name \<le> 31" using assms by (auto simp: ipc_validate_name_def SERVICE_NAME_CAPACITY_def split: if_splits)
  then have "unat (of_nat (length name) :: u8) = length name" by (simp add: unat_of_nat)
  then show "se_label (new_entry provider name) = name" "length (se_label (new_entry provider name)) = unat (se_name_len (new_entry provider name))"
    by (simp_all add: new_entry_def se_label_def)
qed (simp_all add: new_entry_def s_refs_def SERVICE_EMPTY_def)

lemma names_ok_publish:
  assumes ok: "ip_names_ok c" and free: "ipc_find_service c name = None" and v: "ipc_validate_name name = Inr ()"
    and s: "ip_services c' = (ip_services c)[r := new_entry provider name]"
  shows "ip_names_ok c'"
proof -
  note E = new_entry_facts[OF v, of provider]
  have new: "se_label (ip_services c ! k) \<noteq> name" if "k < length (ip_services c)" "se_occupied (ip_services c ! k)" for k
    using find_service_None[OF free ok _ that(2)] that(1) by simp
  show ?thesis unfolding ip_names_ok_def
  proof (intro conjI ballI allI impI)
    fix e assume "e \<in> set (ip_services c')" "se_occupied e"
    then have "e = new_entry provider name \<or> e \<in> set (ip_services c)" using set_update_subset_insert[of "ip_services c"] s by auto
    then show "ipc_validate_name (se_label e) = Inr ()" "length (se_label e) = unat (se_name_len e)"
      using E v ok \<open>se_occupied e\<close> by (auto simp: ip_names_ok_def)
  next
    fix a b assume ab: "a < length (ip_services c')" "b < length (ip_services c')" "se_occupied (ip_services c' ! a)"
      "se_occupied (ip_services c' ! b)" "se_label (ip_services c' ! a) = se_label (ip_services c' ! b)"
    then show "a = b" using E(2) new ok by (cases "a = r"; cases "b = r") (auto simp: s nth_upd ip_names_ok_def)
  qed
qed

lemma publish_op_ok:
  assumes inv: "ipc_inv c"
  shows "op_ok c (ipc_publish c provider name)"
proof (cases "\<exists>e. ipc_publish c provider name = (Inl e, c)")
  case False
  then have nf: "\<And>e. ipc_publish c provider name \<noteq> (Inl e, c)" by blast
  note I = invD[OF inv] and ens = ensure_inv[OF inv]
  have v: "ipc_validate_name name = Inr ()"
    using nf by (cases "ipc_validate_name name") (auto simp: ipc_publish_def)
  have dup: "ipc_find_service c name = None"
    by (rule ccontr) (use nf[of DuplicateService] v in \<open>simp add: ipc_publish_def\<close>)
  obtain s where s: "position (\<lambda>e. \<not> se_occupied e) (ip_services c) = Some s"
    using nf v dup by (cases "position (\<lambda>e. \<not> se_occupied e) (ip_services c)") (auto simp: ipc_publish_def)
  have S: "s < length (ip_services c)" "\<not> se_occupied (ip_services c ! s)" using position_SomeD[OF s] by simp_all
  have sr: "s < SERVICE_REGISTRY_CAPACITY" using S(1) I(7) by (simp add: ip_shape_def)
  have fo: "1 \<le> ipc_free_object_count c"
    by (rule ccontr) (use nf[of ObjectTableFull] v dup s in \<open>simp add: ipc_publish_def ens\<close>)
  have fh: "0 < ipc_free_handle_count c"
    by (rule ccontr) (use nf[of HandleTableFull] v dup s fo in \<open>simp add: ipc_publish_def ens\<close>)
  obtain i where i: "i < length (ip_objects c)" "os_kind (ip_objects c ! i) = KFree"
    "ipc_allocate_object c (KService s) = (Inr (fresh_ref c i), put_object c i (KService s))"
    using allocate_object[of c "KService s"] fo by auto
  define c1 where "c1 = put_object c i (KService s)"
  define x where "x = fresh_ref c i"
  have xs: "or_slot x = i" by (simp add: x_def fresh_ref_def)
  have sf: "KService s \<noteq> KFree" "kind_wf (KService s)" "o_refs \<lparr>os_generation = g, os_references = n, os_kind = KService s\<rparr> = []" for g n
    by (simp_all add: kind_wf_def o_refs_def)
  have a1: "ip_acct c1 {#}" unfolding c1_def by (rule acct_put_object[OF I(1) i(1,2) sf])
  have live1: "ipc_object_ref_is_live c1 y \<longleftrightarrow> y = x \<or> ipc_object_ref_is_live c y" for y
    using put_object_live[OF i(1,2) sf(1)] by (simp add: c1_def x_def)
  have nx: "\<not> ipc_object_ref_is_live c x" using i(2) xs by (simp add: ipc_object_ref_is_live_def)
  have r1: "all_refs c1 = all_refs c" using put_object_refs(2)[OF i(1,2), of undefined "KService s", OF sf(3)] by (simp add: c1_def)
  have k1: "kind_of c1 x = KService s" using i(1) xs by (simp add: c1_def put_object_nth)
  have ok: "ref_ok c1 (x, RIGHTS_ACCEPT)" using live1 k1 by (simp add: ref_ok_def)
  have f1: "0 < ipc_free_handle_count c1" using fh by (simp add: c1_def ipc_free_handle_count_def)
  obtain h c2 where h: "ipc_install_handle c1 provider x RIGHTS_ACCEPT True = (Inr h, c2)" "ip_acct c2 {#}" "skel c2 = skel c1"
    "ip_services c2 = ip_services c1" "all_refs c2 = add_mset (x, RIGHTS_ACCEPT) (all_refs c1)"
    "length (ip_handles c2) = length (ip_handles c1)" "length (ip_objects c2) = length (ip_objects c1)" "children c2 = children c1"
    "\<And>h. h \<in> set (ip_handles c1) \<Longrightarrow> hs_occupied h \<Longrightarrow> h \<in> set (ip_handles c2)" "x \<in> ipc_reach c2"
    by (rule install_step[OF a1 f1 ok]) auto
  let ?c = "c2\<lparr>ip_services := (ip_services c2)[s := new_entry provider name]\<rparr>"
  note E = new_entry_facts[OF v, of provider]
  have s2: "ip_services c2 = ip_services c" using h(4) by (simp add: c1_def)
  have inner: "inner_refs ?c = inner_refs c2"
    using inner_refs_update(1)[of s c2 "new_entry provider name"] S s2 E(3) by (simp add: s_refs_def[of "ip_services c ! s"])
  then have refs: "all_refs ?c = all_refs c2" by (simp add: all_refs_def)
  have shape: "ip_shape ?c" using acctD(1)[OF h(2)] E(4) by (simp add: ip_shape_def list_all_update)
  have acct: "ip_acct ?c {#}" by (rule acct_move[OF h(2) _ shape]) (auto simp: refs inner)
  have lv: "ipc_object_ref_is_live ?c = ipc_object_ref_is_live c1"
    by (rule live_cong) (use skel_classes[OF h(3)] in simp)
  have oc: "ip_objects c1 ! k = ip_objects c ! k" if "k < length (ip_objects c)" "k \<noteq> i" for k
    using that by (simp add: c1_def put_object_nth)
  have old: "ip_objects c1 ! or_slot y = ip_objects c ! or_slot y" if "ipc_object_ref_is_live c y" for y
    using that i(2) by (intro oc) (auto simp: ipc_object_ref_is_live_def)
  have kids: "children ?c (or_slot y) = children c (or_slot y)" if y: "ipc_object_ref_is_live c y" for y
  proof -
    have yk: "or_slot y < length (ip_objects c)" using y by (simp add: ipc_object_ref_is_live_def)
    have "children ?c (or_slot y) = children c2 (or_slot y)"
    proof (cases "os_kind (ip_objects c2 ! or_slot y)")
      case (KService r)
      have "os_class (ip_objects c2 ! or_slot y) = os_class (ip_objects c1 ! or_slot y)"
        by (rule map_eq_nth[OF skel_classes[OF h(3)]]) (use yk in \<open>simp add: c1_def\<close>)
      from class_service[OF this, of r] have "os_kind (ip_objects c ! or_slot y) = KService r" using old[OF y] KService by simp
      then have "r \<noteq> s" using services_okD(2)[OF I(3) yk] S(2) by auto
      then show ?thesis using KService by (simp add: children_def)
    qed (simp_all add: children_def)
    also have "children c2 (or_slot y) = children c (or_slot y)"
      using children_old[of c1 c "or_slot y"] old[OF y] h(8) by (simp add: c1_def)
    finally show ?thesis .
  qed
  have "ipc_reach c \<subseteq> ipc_reach ?c"
    by (rule reach_extends) (use kids lv live1 h(9) in \<open>auto simp: c1_def\<close>)
  moreover have "x \<in> ipc_reach ?c"
  proof -
    have "h' \<in> set (ip_handles c2) \<Longrightarrow> hs_occupied h' \<Longrightarrow> hs_object h' = x \<Longrightarrow> x \<in> ipc_reach ?c" for h'
      using ipc_reach.root[of h' ?c] lv live1 by auto
    moreover have "(x, RIGHTS_ACCEPT) \<notin># inner_refs c2" using acctD(3)[OF h(2), of "(x, RIGHTS_ACCEPT)"]
      by (auto simp: chan_rights_def rights_contains_def RIGHTS_ACCEPT_def CHANNEL_ALL_def RIGHTS_SEND_def RIGHTS_RECEIVE_def RIGHTS_TRANSFER_def)
    moreover have "(x, RIGHTS_ACCEPT) \<in># all_refs c2" by (simp add: h(5))
    ultimately show ?thesis by (auto simp: all_refs_def in_handle_refs)
  qed
  ultimately have reach: "y \<in> ipc_reach ?c" if "ipc_object_ref_is_live c1 y" for y
    using that inv_reach_live[OF inv, of y] by (auto simp: live1)
  have sk: "skel ?c = skel c1" using h(3) by simp
  have "ip_reachable ?c" unfolding ip_reachable_def using reach lv live_ref_at[of ?c] by simp
  moreover have "ip_peers ?c"
  proof (rule peers_cong[OF sk])
    show "ip_peers c1" unfolding ip_peers_def
    proof (intro allI impI)
      fix k ch p assume k: "k < length (ip_objects c1)" "os_kind (ip_objects c1 ! k) = KChannel ch" "ch_peer ch = Some p"
      then have ki: "k \<noteq> i" "k < length (ip_objects c)" using k1 xs by (auto simp: c1_def)
      then have o: "ip_objects c1 ! k = ip_objects c ! k" using oc by simp
      then have "ipc_object_ref_is_live c p \<and> (\<exists>ch'. kind_of c p = KChannel ch' \<and> ch_peer ch' = Some (ref_at c k))"
        using I(2) k ki(2) unfolding ip_peers_def by metis
      then show "ipc_object_ref_is_live c1 p \<and> (\<exists>ch'. kind_of c1 p = KChannel ch' \<and> ch_peer ch' = Some (ref_at c1 k))"
        using live1 old[of p] o by auto
    qed
  qed
  moreover have "ip_services_ok ?c"
  proof -
    have k': "os_kind (ip_objects c2 ! k) = KService r \<longleftrightarrow> os_kind (ip_objects c ! k) = KService r \<or> k = i \<and> r = s"
      if "k < length (ip_objects c)" for k r
    proof -
      have "os_class (ip_objects c2 ! k) = os_class (ip_objects c1 ! k)"
        by (rule map_eq_nth[OF skel_classes[OF h(3)]]) (use that in \<open>simp add: c1_def\<close>)
      note cs = class_service[OF this, of r]
      show ?thesis
      proof (cases "k = i")
        case True
        then show ?thesis using cs k1 xs i(2) by auto
      qed (use cs oc[OF that] in simp)
    qed
    have n: "length (ip_objects ?c) = length (ip_objects c)" using h(7) by (simp add: c1_def)
    show ?thesis unfolding ip_services_ok_def n
    proof (intro conjI allI impI)
      fix k r assume k: "k < length (ip_objects c)" "os_kind (ip_objects ?c ! k) = KService r"
      then have d: "os_kind (ip_objects c ! k) = KService r \<and> r \<noteq> s \<or> k = i \<and> r = s" using k'[OF k(1)] services_okD(2)[OF I(3) k(1)] S(2) by auto
      show "r < SERVICE_REGISTRY_CAPACITY" using d sr services_okD(1)[OF I(3) k(1)] by auto
      show "se_occupied (ip_services ?c ! r)" using d services_okD(2)[OF I(3) k(1)] S(1) s2 E(1) by (auto simp: nth_upd)
      show "j = k" if j: "j < length (ip_objects c)" "os_kind (ip_objects ?c ! j) = KService r" for j
        using d k'[OF j(1)] j(2) services_okD(3)[OF I(3) k(1) _ j(1)] services_okD(2)[OF I(3) j(1), of s] S(2) by auto
    next
      fix r assume r: "r < length (ip_services ?c)" "se_occupied (ip_services ?c ! r)"
      show "\<exists>k < length (ip_objects c). os_kind (ip_objects ?c ! k) = KService r"
      proof (cases "r = s")
        case True
        then show ?thesis using k'[OF i(1)] i(1) by auto
      next
        case False
        then have "se_occupied (ip_services c ! r)" "r < length (ip_services c)" using r s2 by (auto simp: nth_upd)
        then obtain k where "k < length (ip_objects c)" "os_kind (ip_objects c ! k) = KService r"
          using I(3) unfolding ip_services_ok_def by blast
        then show ?thesis using k'[of k r] by auto
      qed
    qed
  qed
  moreover have "ip_names_ok ?c" by (rule names_ok_publish[OF I(4) dup v]) (simp add: s2)
  ultimately have "ipc_inv ?c" using acct by (simp add: ipc_inv_def)
  moreover have "attenuates c ?c" unfolding attenuates_def
    using nx rights_contains_refl by (auto simp: refs h(5) r1)
  moreover have "ipc_publish c provider name = (Inr h, ?c)"
    using v dup s fo fh i(3) h(1) by (simp add: ipc_publish_def ens Let_def new_entry_def c1_def x_def)
  ultimately show ?thesis using h(6,7) by (simp add: op_ok_def c1_def)
qed (auto simp: op_ok_def)

section \<open>Cleanup\<close>

abbreviation vacated :: "handle_slot \<Rightarrow> handle_slot" where
  "vacated h \<equiv> h\<lparr>hs_occupied := False, hs_rights := RIGHTS_NONE\<rparr>"

lemma count_if_snoc: "count_if p (xs @ [y]) = count_if p xs + (if p y then 1 else 0)"
  by (simp add: count_if_def)

lemma shrinks_service_count: "shrinks c c' \<Longrightarrow> ipc_service_count c' \<le> ipc_service_count c"
proof -
  assume sh: "shrinks c c'"
  have "count_if se_occupied (map (\<lambda>k. ip_services c' ! k) [0..<n]) \<le> count_if se_occupied (map (\<lambda>k. ip_services c ! k) [0..<n])"
    if "n \<le> length (ip_services c)" for n
    using that
  proof (induction n)
    case (Suc n)
    then show ?case using shrinksD(6)[OF sh, of n] by (auto simp: count_if_snoc SERVICE_EMPTY_def)
  qed simp
  from this[of "length (ip_services c)"] show ?thesis
    using shrinksD(3)[OF sh] map_nth[of "ip_services c"] map_nth[of "ip_services c'"] by (simp add: ipc_service_count_def)
qed

lemma in_mset_add: "x \<in># M \<Longrightarrow> add_mset a M = N \<Longrightarrow> x \<in># N"
  by auto

lemma cleanup_slot_ok:
  assumes inv: "ipc_inv c" and k: "k < length (ip_handles c)"
  obtains c' where
    "cleanup_slot p k (c, n) = (c', n + (if hs_occupied (ip_handles c ! k) \<and> p (hs_owner (ip_handles c ! k)) then 1 else 0))"
    "ipc_inv c'" "ip_handles c' = (if hs_occupied (ip_handles c ! k) \<and> p (hs_owner (ip_handles c ! k))
       then (ip_handles c)[k := vacated (ip_handles c ! k)] else ip_handles c)"
    "\<And>x. x \<in># all_refs c' \<Longrightarrow> x \<in># all_refs c" "length (ip_objects c') = length (ip_objects c)"
    "ipc_service_count c' \<le> ipc_service_count c"
proof (cases "hs_occupied (ip_handles c ! k) \<and> p (hs_owner (ip_handles c ! k))")
  case True
  let ?h = "ip_handles c ! k" and ?c1 = "c\<lparr>ip_handles := (ip_handles c)[k := vacated (ip_handles c ! k)]\<rparr>"
  let ?hd = "\<lparr>hd_slot = k, hd_generation = hs_generation ?h\<rparr>"
  have "ref_ok c (hs_object ?h, hs_rights ?h)" by (rule acctD(2)[OF invD(1)[OF inv] handle_in_refs]) (use True k in auto)
  then have "ipc_resolve_handle c (hs_owner ?h) ?hd = Inr ?h" using True k by (simp add: resolve_handle_Inr ref_ok_def)
  from close_op[OF inv this] obtain c' where c': "ipc_close c (hs_owner ?h) ?hd = (Inr (), c')" "ipc_inv c'" "shrinks ?c1 c'"
    by auto
  have sub: "x \<in># all_refs c" if "x \<in># all_refs ?c1" for x
  proof -
    have "add_mset (hs_object ?h, hs_rights ?h) (handle_refs ?c1) = handle_refs c"
      using handle_refs_update[OF k, of "vacated ?h"] True by (simp add: h_refs_def)
    from in_mset_add[OF _ this, of x] show ?thesis using that by (auto simp: all_refs_def)
  qed
  have cl: "cleanup_slot p k (c, n) = (c', n + 1)" using True by (simp add: cleanup_slot_def Let_def c'(1))
  have hs: "ip_handles c' = (ip_handles c)[k := vacated ?h]" "length (ip_objects c') = length (ip_objects c)"
    using shrinksD(1,2)[OF c'(3)] by simp_all
  have sc: "ipc_service_count c' \<le> ipc_service_count c"
    using shrinks_service_count[OF c'(3)] by (simp add: ipc_service_count_def)
  show ?thesis
    by (rule that[of c']) (simp_all add: True cl c'(2) hs sc sub[OF shrinks_refs(2)[OF c'(3)]])
next
  case False
  show ?thesis by (rule that[of c]) (use False inv in \<open>auto simp: cleanup_slot_def Let_def\<close>)
qed

lemma cleanup_fold_ok:
  assumes inv: "ipc_inv c" and k: "k \<le> length (ip_handles c)"
  shows "\<exists>c' n. fold (cleanup_slot p) [0..<k] (c, 0) = (c', n) \<and> ipc_inv c' \<and> length (ip_handles c') = length (ip_handles c)
    \<and> (\<forall>i < length (ip_handles c). ip_handles c' ! i = (if i < k \<and> hs_occupied (ip_handles c ! i) \<and> p (hs_owner (ip_handles c ! i))
        then vacated (ip_handles c ! i) else ip_handles c ! i))
    \<and> (\<forall>x. x \<in># all_refs c' \<longrightarrow> x \<in># all_refs c) \<and> length (ip_objects c') = length (ip_objects c)
    \<and> n = count_if (\<lambda>h. hs_occupied h \<and> p (hs_owner h)) (take k (ip_handles c)) \<and> ipc_service_count c' \<le> ipc_service_count c"
  using k
proof (induction k)
  case 0
  then show ?case using inv by simp
next
  case (Suc k)
  then obtain d n where d: "fold (cleanup_slot p) [0..<k] (c, 0) = (d, n)" "ipc_inv d" "length (ip_handles d) = length (ip_handles c)"
    "\<And>i. i < length (ip_handles c) \<Longrightarrow> ip_handles d ! i = (if i < k \<and> hs_occupied (ip_handles c ! i) \<and> p (hs_owner (ip_handles c ! i))
        then vacated (ip_handles c ! i) else ip_handles c ! i)"
    "\<And>x. x \<in># all_refs d \<Longrightarrow> x \<in># all_refs c" "length (ip_objects d) = length (ip_objects c)"
    "n = count_if (\<lambda>h. hs_occupied h \<and> p (hs_owner h)) (take k (ip_handles c))" "ipc_service_count d \<le> ipc_service_count c"
    by auto
  have k: "k < length (ip_handles d)" "ip_handles d ! k = ip_handles c ! k" using Suc.prems d(3,4) by simp_all
  obtain c' where c': "cleanup_slot p k (d, n) =
      (c', n + (if hs_occupied (ip_handles d ! k) \<and> p (hs_owner (ip_handles d ! k)) then 1 else 0))"
    "ipc_inv c'" "ip_handles c' = (if hs_occupied (ip_handles d ! k) \<and> p (hs_owner (ip_handles d ! k))
       then (ip_handles d)[k := vacated (ip_handles d ! k)] else ip_handles d)"
    "\<And>x. x \<in># all_refs c' \<Longrightarrow> x \<in># all_refs d" "length (ip_objects c') = length (ip_objects d)"
    "ipc_service_count c' \<le> ipc_service_count d"
    by (rule cleanup_slot_ok[where p = p and n = n, OF d(2) k(1)]) (rule that)
  have n: "n + (if hs_occupied (ip_handles d ! k) \<and> p (hs_owner (ip_handles d ! k)) then 1 else 0) =
      count_if (\<lambda>h. hs_occupied h \<and> p (hs_owner h)) (take (Suc k) (ip_handles c))"
    using Suc.prems k(2) d(7) by (simp add: take_Suc_conv_app_nth count_if_snoc)
  have h: "\<forall>i < length (ip_handles c). ip_handles c' ! i = (if i < Suc k \<and> hs_occupied (ip_handles c ! i) \<and> p (hs_owner (ip_handles c ! i))
        then vacated (ip_handles c ! i) else ip_handles c ! i)"
    using c'(3) d(3,4) k by (auto simp: nth_upd less_Suc_eq)
  have "fold (cleanup_slot p) [0..<Suc k] (c, 0) = cleanup_slot p k (d, n)" by (simp add: d(1))
  then show ?case using c' h n d(3,5,6,8) by (auto split: if_splits)
qed

end
