(* ===== verification/Ipc_System.thy ===== *)
theory Ipc_System
  imports Ipc_Properties "HOL-Library.Code_Target_Nat"
begin

text \<open>
  The typed IPC core as a transition system: one constructor per public operation of
  \<open>IpcCore\<close>, run from the empty core the kernel starts with. Here are the properties of the
  component: its invariant along any sequence of operations, atomic failure, no leaked
  object, no amplified right, the first-in first-out channel discipline, exact cleanup of
  dead owners, and the wire format.
\<close>

section \<open>The operations\<close>

datatype ipc_op =
    OpCreateChannel identity rights identity rights
  | OpPublish identity "u8 list"
  | OpConnect identity "u8 list"
  | OpAccept identity handle
  | OpUnpublish identity handle
  | OpSend identity handle wire_message "transfer option"
  | OpReceive identity handle
  | OpClose identity handle
  | OpCleanupIdentity identity
  | OpCleanupPid u32w

definition outcome :: "(ipc_error, 'a) result \<times> ipc_core \<Rightarrow> (ipc_error, unit) result \<times> ipc_core" where
  "outcome res = (map_sum id (\<lambda>_. ()) (fst res), snd res)"

fun ipc_exec :: "ipc_op \<Rightarrow> ipc_core \<Rightarrow> (ipc_error, unit) result \<times> ipc_core" where
  "ipc_exec (OpCreateChannel lo lr ro rr) c = outcome (ipc_create_channel c lo lr ro rr)"
| "ipc_exec (OpPublish p n) c = outcome (ipc_publish c p n)"
| "ipc_exec (OpConnect p n) c = outcome (ipc_connect c p n)"
| "ipc_exec (OpAccept p h) c = outcome (ipc_accept c p h)"
| "ipc_exec (OpUnpublish p h) c = outcome (ipc_unpublish c p h)"
| "ipc_exec (OpSend p h m t) c = outcome (ipc_send c p h m t)"
| "ipc_exec (OpReceive p h) c = outcome (ipc_receive c p h)"
| "ipc_exec (OpClose p h) c = outcome (ipc_close c p h)"
| "ipc_exec (OpCleanupIdentity p) c = (Inr (), snd (ipc_cleanup_identity c p))"
| "ipc_exec (OpCleanupPid p) c = (Inr (), snd (ipc_cleanup_pid c p))"

definition ipc_step :: "ipc_op \<Rightarrow> ipc_core \<Rightarrow> ipc_core" where
  "ipc_step a c = snd (ipc_exec a c)"

lemma op_ok_outcome: "op_ok c res \<Longrightarrow> op_ok c (outcome res)"
  by (cases "fst res") (simp_all add: op_ok_def outcome_def)

lemma cleanup_ok:
  assumes "ipc_inv c"
  obtains c' where "ipc_cleanup p c = (\<lparr>cs_handles_closed = count_if (\<lambda>h. hs_occupied h \<and> p (hs_owner h)) (ip_handles c),
      cs_services_removed = ipc_service_count c - ipc_service_count c'\<rparr>, c')"
    "ipc_inv c'" "ip_handles c' = map (\<lambda>h. if hs_occupied h \<and> p (hs_owner h) then vacated h else h) (ip_handles c)"
    "\<And>x. x \<in># all_refs c' \<Longrightarrow> x \<in># all_refs c" "length (ip_objects c') = length (ip_objects c)"
    "ipc_service_count c' \<le> ipc_service_count c"
proof -
  from cleanup_fold_ok[OF assms le_refl, of p] obtain c' n where c':
    "fold (cleanup_slot p) [0..<length (ip_handles c)] (c, 0) = (c', n)" "ipc_inv c'" "length (ip_handles c') = length (ip_handles c)"
    "\<And>i. i < length (ip_handles c) \<Longrightarrow> ip_handles c' ! i = (if hs_occupied (ip_handles c ! i) \<and> p (hs_owner (ip_handles c ! i))
        then vacated (ip_handles c ! i) else ip_handles c ! i)"
    "\<And>x. x \<in># all_refs c' \<Longrightarrow> x \<in># all_refs c" "length (ip_objects c') = length (ip_objects c)"
    "n = count_if (\<lambda>h. hs_occupied h \<and> p (hs_owner h)) (ip_handles c)" "ipc_service_count c' \<le> ipc_service_count c"
    by auto
  have "ip_handles c' = map (\<lambda>h. if hs_occupied h \<and> p (hs_owner h) then vacated h else h) (ip_handles c)"
    by (rule nth_equalityI) (simp_all add: c'(3,4))
  then show ?thesis by (intro that[of c']) (simp_all add: ipc_cleanup_def Let_def c')
qed

lemma cleanup_op_ok: "ipc_inv c \<Longrightarrow> op_ok c (Inr (), snd (ipc_cleanup p c))"
  by (rule cleanup_ok[of c p], assumption) (simp add: op_ok_def attenuates_subset)

lemma send_op_ok: "ipc_inv c \<Longrightarrow> op_ok c (ipc_send c p h m t)"
  by (erule send_cases[of c p h m t]) (auto simp: op_ok_def)

lemma receive_op_ok: "ipc_inv c \<Longrightarrow> op_ok c (ipc_receive c p h)"
  by (erule receive_cases[of c p h]) (auto simp: op_ok_def)

lemmas op_oks = create_channel_op_ok publish_op_ok connect_op_ok accept_op_ok unpublish_op_ok send_op_ok receive_op_ok
  close_op_ok cleanup_op_ok

lemma exec_ok: "ipc_inv c \<Longrightarrow> op_ok c (ipc_exec a c)"
  by (cases a) (auto simp: ipc_cleanup_identity_def ipc_cleanup_pid_def intro: op_ok_outcome op_oks)

lemma step_ok:
  assumes "ipc_inv c"
  shows "ipc_inv (ipc_step a c)" "attenuates c (ipc_step a c)"
  using exec_ok[OF assms, of a] assms
  by (auto simp: ipc_step_def op_ok_def attenuates_subset split: sum.splits)

lemma sum_list_replicate_zero [simp]: "sum_list (replicate n {#}) = {#}"
  by (induction n) simp_all

lemma ipc_new_inv:
  assumes "nh + 16 * no + 64 < 2 ^ 63"
  shows "ipc_inv (ipc_new nh no)"
proof -
  have r: "all_refs (ipc_new nh no) = {#}" "inner_refs (ipc_new nh no) = {#}"
    by (simp_all add: all_refs_def inner_refs_def handle_refs_def ipc_new_def h_refs_def s_refs_def o_refs_def
        HANDLE_EMPTY_def SERVICE_EMPTY_def OBJECT_EMPTY_def)
  have "ip_shape (ipc_new nh no)"
    using assms by (simp add: ip_shape_def ipc_new_def SERVICE_EMPTY_def OBJECT_EMPTY_def pq_wf_def PQ_EMPTY_def
        SERVICE_PENDING_CAPACITY_def kind_wf_def list_all_length)
  then show ?thesis
    by (simp add: ipc_inv_def ip_acct_def r ip_counts_def ip_peers_def ip_services_ok_def ip_names_ok_def ip_reachable_def)
      (simp add: ipc_new_def OBJECT_EMPTY_def SERVICE_EMPTY_def)
qed

text \<open>The kernel's core has 64 handles and 64 objects (\<open>TYPED_HANDLE_CAPACITY\<close>, \<open>TYPED_OBJECT_CAPACITY\<close>).\<close>

interpretation ipc: transition_system "ipc_new 64 64" ipc_step ipc_inv
  by unfold_locales (simp_all add: ipc_new_inv step_ok)

lemmas ipc_reach_inv = ipc.inv_run[OF ipc_new_inv]

section \<open>Rights along runs\<close>

lemma rights_contains_trans: "rights_contains r r' \<Longrightarrow> rights_contains r' r'' \<Longrightarrow> rights_contains r r''"
  unfolding rights_contains_def by (metis and.assoc)

lemma run_attenuates:
  assumes "ipc_inv c" and "\<And>k. k \<le> length ops \<Longrightarrow> ipc_object_ref_is_live (fold ipc_step (take k ops) c) x"
    and "(x, r') \<in># all_refs (fold ipc_step ops c)"
  shows "\<exists>r. (x, r) \<in># all_refs c \<and> rights_contains r r'"
  using assms
proof (induction ops arbitrary: c)
  case Nil
  then show ?case using rights_contains_refl by auto
next
  case (Cons a ops)
  have live: "ipc_object_ref_is_live (fold ipc_step (take k ops) (ipc_step a c)) x" if "k \<le> length ops" for k
    using Cons.prems(2)[of "Suc k"] that by simp
  then obtain r1 where r1: "(x, r1) \<in># all_refs (ipc_step a c)" "rights_contains r1 r'"
    using Cons.IH[OF step_ok(1)[OF Cons.prems(1)], of a] Cons.prems(3) by auto
  have "ipc_object_ref_is_live c x" using Cons.prems(2)[of 0] by simp
  then obtain r where "(x, r) \<in># all_refs c" "rights_contains r r1"
    using step_ok(2)[OF Cons.prems(1), of a] r1(1) unfolding attenuates_def by blast
  then show ?case using rights_contains_trans r1(2) by blast
qed

section \<open>The wire format\<close>

lemma wm_from_to:
  assumes "wm_is_valid m" "length (wm_payload m) = MESSAGE_PAYLOAD_SIZE"
  shows "wm_from_bytes (wm_to_bytes m) = Inr m" "length (wm_to_bytes m) = MESSAGE_WIRE_SIZE"
proof -
  have d: "drop 2 (wm_to_bytes m) = to_le_bytes 2 (wm_message_type m) @ to_le_bytes 4 (wm_sender_pid m)
      @ to_le_bytes 4 (wm_sender_uid m) @ wm_payload m" by (simp add: wm_to_bytes_def)
  then have d4: "drop 4 (wm_to_bytes m) = to_le_bytes 4 (wm_sender_pid m) @ to_le_bytes 4 (wm_sender_uid m) @ wm_payload m"
    using drop_drop[of 2 2 "wm_to_bytes m"] by simp
  then have d8: "drop 8 (wm_to_bytes m) = to_le_bytes 4 (wm_sender_uid m) @ wm_payload m"
    using drop_drop[of 4 4 "wm_to_bytes m"] by simp
  then have d12: "drop 12 (wm_to_bytes m) = wm_payload m"
    using drop_drop[of 4 8 "wm_to_bytes m"] by simp
  have h: "wm_to_bytes m ! 0 = wm_version m" "wm_to_bytes m ! 1 = wm_length m" by (simp_all add: wm_to_bytes_def)
  show "wm_from_bytes (wm_to_bytes m) = Inr m"
    using assms(1) by (simp add: wm_from_bytes_def wm_is_valid_def d d4 d8 d12 h[simplified] from_to_le_bytes)
  show "length (wm_to_bytes m) = MESSAGE_WIRE_SIZE"
    using assms(2) by (simp add: wm_to_bytes_def MESSAGE_PAYLOAD_SIZE_def MESSAGE_WIRE_SIZE_def)
qed

lemma wm_to_from:
  assumes "length bs = MESSAGE_WIRE_SIZE" "wm_from_bytes bs = Inr m"
  shows "wm_to_bytes m = bs" "wm_is_valid m" "length (wm_payload m) = MESSAGE_PAYLOAD_SIZE"
proof -
  have l: "length bs = 64" using assms(1) by (simp add: MESSAGE_WIRE_SIZE_def)
  note m = assms(2)[unfolded wm_from_bytes_def]
  have b: "take 2 bs = [bs ! 0, bs ! 1]" using l by (simp add: list_eq_iff_nth_eq less_Suc_eq numeral_2_eq_2)
  have "take 2 bs @ take 2 (drop 2 bs) @ take 4 (drop 4 bs) @ take 4 (drop 8 bs) @ drop 12 bs = bs"
    using append_take_drop_id[of 2 bs] append_take_drop_id[of 2 "drop 2 bs"] append_take_drop_id[of 4 "drop 4 bs"]
      append_take_drop_id[of 4 "drop 8 bs"] by simp
  then show "wm_to_bytes m = bs"
    using m l b by (auto simp: wm_to_bytes_def to_from_le split: if_splits)
  show "wm_is_valid m" "length (wm_payload m) = MESSAGE_PAYLOAD_SIZE"
    using m l by (auto simp: wm_is_valid_def MESSAGE_PAYLOAD_SIZE_def split: if_splits)
qed

section \<open>A sample run\<close>

definition ipc_alice :: identity where "ipc_alice = \<lparr>id_pid = 7, id_uid = 1000, id_session = 1\<rparr>"
definition ipc_bob :: identity where "ipc_bob = \<lparr>id_pid = 8, id_uid = 1000, id_session = 1\<rparr>"
definition ipc_hello :: wire_message where "ipc_hello = WIRE_EMPTY\<lparr>wm_message_type := 3\<rparr>"

text \<open>Two channels; Alice sends Bob one end of the second with only the right to send.\<close>

definition ipc_setup :: "ipc_op list" where
  "ipc_setup = [OpCreateChannel ipc_alice CHANNEL_ALL ipc_bob CHANNEL_ALL,
     OpCreateChannel ipc_alice CHANNEL_ALL ipc_alice CHANNEL_ALL]"

definition ipc_gift :: ipc_op where
  "ipc_gift = OpSend ipc_alice \<lparr>hd_slot = 0, hd_generation = 1\<rparr> ipc_hello
     (Some \<lparr>tr_handle = \<lparr>hd_slot = 2, hd_generation = 1\<rparr>, tr_rights = RIGHTS_SEND\<rparr>)"

definition ipc_take :: ipc_op where
  "ipc_take = OpReceive ipc_bob \<lparr>hd_slot = 1, hd_generation = 1\<rparr>"

definition ipc_end :: object_ref where "ipc_end = \<lparr>or_slot = 2, or_generation = 1\<rparr>"

definition ipc_shared :: ipc_core where "ipc_shared = fold ipc_step ipc_setup (ipc_new 5 4)"
definition ipc_sent :: ipc_core where "ipc_sent = ipc_step ipc_gift ipc_shared"
definition ipc_taken :: ipc_core where "ipc_taken = ipc_step ipc_take ipc_sent"

lemma ipc_sample_eval:
  "let c = fold ipc_step ipc_setup (ipc_new 5 4); c1 = ipc_step ipc_gift c; c2 = ipc_step ipc_take c1; h = ip_handles c2 ! 4
   in fst (ipc_exec ipc_take c) = Inl QueueEmpty \<and> fst (ipc_exec ipc_gift c) = Inr () \<and> fst (ipc_exec ipc_take c1) = Inr () \<and> ipc_object_ref_is_live c ipc_end \<and> ipc_object_ref_is_live c1 ipc_end
    \<and> ipc_object_ref_is_live c2 ipc_end \<and> length (ip_handles c2) = 5 \<and> hs_occupied h \<and> hs_object h = ipc_end \<and> hs_rights h = RIGHTS_SEND
    \<and> (let s = ip_handles c ! 0 in hs_occupied s \<and> hs_owner s = ipc_alice) \<and> length (ip_handles c) = 5"
  by code_simp

lemma ipc_sample:
  "fst (ipc_exec ipc_take ipc_shared) = Inl QueueEmpty" "fst (ipc_exec ipc_gift ipc_shared) = Inr ()" "fst (ipc_exec ipc_take ipc_sent) = Inr ()"
  "ipc_object_ref_is_live ipc_shared ipc_end" "ipc_object_ref_is_live ipc_sent ipc_end" "ipc_object_ref_is_live ipc_taken ipc_end"
  "length (ip_handles ipc_taken) = 5" "hs_occupied (ip_handles ipc_taken ! 4)" "hs_object (ip_handles ipc_taken ! 4) = ipc_end"
  "hs_rights (ip_handles ipc_taken ! 4) = RIGHTS_SEND" "hs_occupied (ip_handles ipc_shared ! 0)"
  "hs_owner (ip_handles ipc_shared ! 0) = ipc_alice" "length (ip_handles ipc_shared) = 5"
  using ipc_sample_eval unfolding Let_def ipc_shared_def[symmetric] ipc_sent_def[symmetric] ipc_taken_def[symmetric] by blast+

lemma outcome_Inr: "fst (outcome res) = Inr () \<longleftrightarrow> (\<exists>x. fst res = Inr x)"
  by (cases "fst res") (simp_all add: outcome_def)

lemma map_sum_unit: "map_sum id (\<lambda>_. ()) r = Inr () \<longleftrightarrow> r = Inr ()" for r :: "('e, unit) result"
  by (cases r) simp_all

lemma all_nat_le_2: "(\<forall>k \<le> Suc (Suc 0). P k) \<longleftrightarrow> P 0 \<and> P (Suc 0) \<and> P (Suc (Suc 0))"
  by (auto simp: le_Suc_eq)

section \<open>Facts of the properties\<close>

lemma inv_live_reach: "ipc_inv c \<Longrightarrow> ipc_object_ref_is_live c x \<longleftrightarrow> x \<in> ipc_reach c"
  using inv_reach_live by (auto elim: ipc_reach.cases)

lemma no_handles_empty:
  assumes inv: "ipc_inv c" and none: "\<forall>h \<in> set (ip_handles c). \<not> hs_occupied h"
  shows "(\<forall>s \<in> set (ip_objects c). os_kind s = KFree) \<and> (\<forall>e \<in> set (ip_services c). \<not> se_occupied e)"
proof -
  have "x \<notin> ipc_reach c" for x
  proof
    assume "x \<in> ipc_reach c"
    then show False by induction (use none in auto)
  qed
  then have free: "os_kind (ip_objects c ! i) = KFree" if "i < length (ip_objects c)" for i
    using that inv_live_reach[OF inv, of "ref_at c i"] by (auto simp: live_ref_at)
  moreover have "\<not> se_occupied (ip_services c ! r)" if "r < length (ip_services c)" for r
    using that free invD(3)[OF inv] unfolding ip_services_ok_def by fastforce
  ultimately show ?thesis by (simp add: all_set_conv_all_nth)
qed

text \<open>A reference to a live channel end with a non-empty part of the rights of channels.\<close>

definition channel_ref :: "ipc_core \<Rightarrow> object_ref \<Rightarrow> rights \<Rightarrow> bool" where
  "channel_ref c x r \<longleftrightarrow> ipc_object_ref_is_live c x \<and> (\<exists>ch. kind_of c x = KChannel ch) \<and> r \<noteq> RIGHTS_NONE \<and> rights_contains CHANNEL_ALL r"

lemma inner_channel_ref:
  assumes inv: "ipc_inv c" and i: "(x, r) \<in># inner_refs c"
  shows "channel_ref c x r"
proof -
  have ok: "ref_ok c (x, r)" using i by (intro acctD(2)[OF invD(1)[OF inv]]) (simp add: all_refs_def)
  then have live: "ipc_object_ref_is_live c x" by (simp add: ref_ok_def)
  have cr: "chan_rights r" using acctD(3)[OF invD(1)[OF inv] i] by simp
  then have "r \<noteq> RIGHTS_ACCEPT" by (auto simp: chan_rights_def rights_contains_def CHANNEL_ALL_def
      RIGHTS_ACCEPT_def RIGHTS_SEND_def RIGHTS_RECEIVE_def RIGHTS_TRANSFER_def)
  then have "\<exists>ch. kind_of c x = KChannel ch"
    using ok live by (auto simp: ref_ok_def ipc_object_ref_is_live_def split: object_kind.splits)
  then show ?thesis using live cr by (simp add: channel_ref_def chan_rights_def RIGHTS_NONE_def)
qed

lemma queued_channel_ref:
  assumes "ipc_inv c" "s \<in> set (ip_objects c)" "os_kind s = KChannel ch" "m \<in> set (mq_list (ch_queue ch))" "qm_transfer m = Some t"
  shows "channel_ref c (qt_object t) (qt_rights t)"
proof (rule inner_channel_ref[OF assms(1)])
  have "(qt_object t, qt_rights t) \<in> set (o_refs s)" using assms(3-5) by (force simp: o_refs_def q_refs_def qm_refs_def)
  then show "(qt_object t, qt_rights t) \<in># inner_refs c" using assms(2) by (auto simp: in_inner_refs)
qed

lemma pending_channel_ref:
  assumes "ipc_inv c" "e \<in> set (ip_services c)" "se_occupied e" "p \<in> set (pq_list (se_pending e))"
  shows "channel_ref c (pc_endpoint p) (pc_rights p)"
proof (rule inner_channel_ref[OF assms(1)])
  have "(pc_endpoint p, pc_rights p) \<in> set (s_refs e)" using assms(3,4) by (force simp: s_refs_def pc_ref_def)
  then show "(pc_endpoint p, pc_rights p) \<in># inner_refs c" using assms(2) by (auto simp: in_inner_refs)
qed

lemma handle_typed:
  assumes inv: "ipc_inv c" and h: "i < length (ip_handles c)" "hs_occupied (ip_handles c ! i)"
  defines "s \<equiv> ip_handles c ! i"
  shows "ipc_resolve_handle c (hs_owner s) \<lparr>hd_slot = i, hd_generation = hs_generation s\<rparr> = Inr s"
    "(case kind_of c (hs_object s) of KFree \<Rightarrow> False | KService _ \<Rightarrow> hs_rights s = RIGHTS_ACCEPT | KChannel _ \<Rightarrow> channel_ref c (hs_object s) (hs_rights s))"
proof -
  have ok: "ref_ok c (hs_object s, hs_rights s)" unfolding s_def by (rule acctD(2)[OF invD(1)[OF inv] handle_in_refs[OF h]])
  then show "ipc_resolve_handle c (hs_owner s) \<lparr>hd_slot = i, hd_generation = hs_generation s\<rparr> = Inr s"
    unfolding resolve_handle_Inr using h by (simp add: s_def ref_ok_def)
  show "(case kind_of c (hs_object s) of KFree \<Rightarrow> False | KService _ \<Rightarrow> hs_rights s = RIGHTS_ACCEPT | KChannel _ \<Rightarrow> channel_ref c (hs_object s) (hs_rights s))"
    using ok by (auto simp: ref_ok_def channel_ref_def chan_rights_def RIGHTS_NONE_def ipc_object_ref_is_live_def split: object_kind.splits)
qed

lemma queue_transfer_shape:
  assumes "fst (ipc_queue_transfer c sender t) = Inr qt"
  shows "case t of None \<Rightarrow> qt = None
        | Some req \<Rightarrow> \<exists>src. ipc_resolve_handle c sender (tr_handle req) = Inr src
            \<and> rights_contains (hs_rights src) RIGHTS_TRANSFER \<and> rights_contains (hs_rights src) (tr_rights req)
            \<and> qt = Some \<lparr>qt_object = hs_object src, qt_rights = tr_rights req\<rparr>"
  using assms by (auto simp: ipc_queue_transfer_def ipc_require_right_def try_check_def try_step_def
      split: option.splits if_splits sum.splits prod.splits object_kind.splits)

section \<open>Properties\<close>

text \<open>C3: After any sequence of operations on a new core, every reference in a handle, a message or a
  pending connection is live and carries rights of its kind of object, reference counts are
  exactly the number of references, peers point at each other, registry entries and listener
  objects correspond, published names are valid and unique, and every live object is reachable
  from a handle.\<close>

theorem ipc_invariant:
  assumes "nh + 16 * no + 64 < 2 ^ 63"
  shows "ipc_inv (fold ipc_step ops (ipc_new nh no))"
  using assms by (rule ipc_reach_inv)

theorem ipc_invariant_witness: "ipc_inv (fold ipc_step (ipc_setup @ [ipc_gift, ipc_take]) (ipc_new 5 4))"
  by (rule ipc_invariant) simp

text \<open>C15: An operation that fails changes nothing: neither the caller's tables nor any queue or count.\<close>

theorem ipc_failure_atomic:
  assumes "nh + 16 * no + 64 < 2 ^ 63" and "c = fold ipc_step ops (ipc_new nh no)"
    and "fst (ipc_exec a c) = Inl e"
  shows "snd (ipc_exec a c) = c"
  using exec_ok[OF ipc_reach_inv[OF assms(1)], of ops a] assms(2,3) by (simp add: op_ok_def)

theorem ipc_failure_atomic_witness: "snd (ipc_exec ipc_take ipc_shared) = ipc_shared"
  by (rule ipc_failure_atomic[of 5 4 _ ipc_setup ipc_take QueueEmpty, OF _ ipc_shared_def]) (simp_all add: ipc_sample)

text \<open>C9: No object outlives its handles: the live objects are exactly those a handle reaches, through
  queued transfers and pending connections, so that once no handle is held the object table and
  the service registry are empty, however the references were wired into cycles.\<close>

theorem ipc_no_leak:
  assumes "nh + 16 * no + 64 < 2 ^ 63" and "c = fold ipc_step ops (ipc_new nh no)"
  shows "(\<forall>x. ipc_object_ref_is_live c x \<longleftrightarrow> x \<in> ipc_reach c)
    \<and> ((\<forall>h \<in> set (ip_handles c). \<not> hs_occupied h) \<longrightarrow>
         (\<forall>s \<in> set (ip_objects c). os_kind s = KFree) \<and> (\<forall>e \<in> set (ip_services c). \<not> se_occupied e))"
  using inv_live_reach[of c] no_handles_empty[of c] ipc_reach_inv[OF assms(1), of ops] assms(2) by simp

theorem ipc_no_leak_witness:
  "ipc_end \<in> ipc_reach ipc_shared"
  using ipc_no_leak[of 5 4 _ ipc_setup, OF _ ipc_shared_def] ipc_sample(4) by simp

text \<open>C18: Capabilities are typed and never dangle, wherever they are. After any sequence of
  operations a handle that a process holds resolves for its owner, whatever was closed elsewhere;
  the rights of a listener are exactly the right to accept and those of a channel end a non-empty part of
  send, receive and transfer. Every reference queued for transfer in any channel of the object
  table, also in channels that are themselves only in transit, and every connection waiting in
  the queue of a published service is a live channel end with such rights.\<close>

theorem ipc_handles_typed:
  assumes "nh + 16 * no + 64 < 2 ^ 63" and "c = fold ipc_step ops (ipc_new nh no)"
  shows "(\<forall>i < length (ip_handles c). hs_occupied (ip_handles c ! i) \<longrightarrow>
        ipc_resolve_handle c (hs_owner (ip_handles c ! i)) \<lparr>hd_slot = i, hd_generation = hs_generation (ip_handles c ! i)\<rparr> = Inr (ip_handles c ! i)
        \<and> (case kind_of c (hs_object (ip_handles c ! i)) of
             KFree \<Rightarrow> False
           | KService _ \<Rightarrow> hs_rights (ip_handles c ! i) = RIGHTS_ACCEPT
           | KChannel _ \<Rightarrow> channel_ref c (hs_object (ip_handles c ! i)) (hs_rights (ip_handles c ! i))))
    \<and> (\<forall>s \<in> set (ip_objects c). \<forall>ch m t. os_kind s = KChannel ch \<and> m \<in> set (mq_list (ch_queue ch)) \<and> qm_transfer m = Some t \<longrightarrow>
        channel_ref c (qt_object t) (qt_rights t))
    \<and> (\<forall>e \<in> set (ip_services c). \<forall>p \<in> set (pq_list (se_pending e)). se_occupied e \<longrightarrow> channel_ref c (pc_endpoint p) (pc_rights p))"
proof -
  have inv: "ipc_inv c" using ipc_reach_inv[OF assms(1), of ops] assms(2) by simp
  show ?thesis using handle_typed[OF inv] queued_channel_ref[OF inv] pending_channel_ref[OF inv] by blast
qed

text \<open>The end that the sample gift put in transit, and the handle it was sent through.\<close>

lemma ipc_sent_queue:
  "let c = ipc_step ipc_gift (fold ipc_step ipc_setup (ipc_new 5 4))
   in length (ip_objects c) = 4 \<and> 0 < length (ip_handles c) \<and> hs_occupied (ip_handles c ! 0)
     \<and> hs_owner (ip_handles c ! 0) = ipc_alice \<and> hs_generation (ip_handles c ! 0) = 1
     \<and> (case os_kind (ip_objects c ! 1) of
          KChannel ch \<Rightarrow> map qm_transfer (mq_list (ch_queue ch)) = [Some \<lparr>qt_object = ipc_end, qt_rights = RIGHTS_SEND\<rparr>] | _ \<Rightarrow> False)"
  by code_simp

theorem ipc_handles_typed_witness:
  "channel_ref ipc_sent ipc_end RIGHTS_SEND
   \<and> ipc_resolve_handle ipc_sent ipc_alice \<lparr>hd_slot = 0, hd_generation = 1\<rparr> = Inr (ip_handles ipc_sent ! 0)"
proof -
  note Q = ipc_sent_queue[unfolded Let_def ipc_shared_def[symmetric] ipc_sent_def[symmetric]]
  have run: "ipc_sent = fold ipc_step (ipc_setup @ [ipc_gift]) (ipc_new 5 4)" by (simp add: ipc_sent_def ipc_shared_def)
  note T = ipc_handles_typed[of 5 4, OF _ run, simplified]
  obtain ch where ch: "os_kind (ip_objects ipc_sent ! 1) = KChannel ch"
    "map qm_transfer (mq_list (ch_queue ch)) = [Some \<lparr>qt_object = ipc_end, qt_rights = RIGHTS_SEND\<rparr>]"
    using Q by (auto split: object_kind.splits)
  then obtain m where m: "m \<in> set (mq_list (ch_queue ch))" "qm_transfer m = Some \<lparr>qt_object = ipc_end, qt_rights = RIGHTS_SEND\<rparr>"
    by (cases "mq_list (ch_queue ch)") auto
  have "ip_objects ipc_sent ! 1 \<in> set (ip_objects ipc_sent)" using Q by simp
  then have "channel_ref ipc_sent ipc_end RIGHTS_SEND" using T ch(1) m by fastforce
  moreover have "ipc_resolve_handle ipc_sent (hs_owner (ip_handles ipc_sent ! 0)) \<lparr>hd_slot = 0, hd_generation = hs_generation (ip_handles ipc_sent ! 0)\<rparr> = Inr (ip_handles ipc_sent ! 0)"
    using T Q by blast
  ultimately show ?thesis using Q by simp
qed

text \<open>C2: Rights only shrink as they travel. While an object stays alive, whoever holds a handle to it
  after any sequence of operations holds rights contained in those of a reference that existed
  before, so no sequence of sends, receives, accepts and closes amplifies a capability.\<close>

theorem ipc_no_amplification:
  assumes "nh + 16 * no + 64 < 2 ^ 63" and "c = fold ipc_step ops (ipc_new nh no)"
    and "\<forall>k \<le> length ops'. ipc_object_ref_is_live (fold ipc_step (take k ops') c) x"
    and "c' = fold ipc_step ops' c" "i < length (ip_handles c')" "hs_occupied (ip_handles c' ! i)" "hs_object (ip_handles c' ! i) = x"
  shows "\<exists>r. (x, r) \<in># all_refs c \<and> rights_contains r (hs_rights (ip_handles c' ! i))"
proof (rule run_attenuates)
  show "ipc_inv c" using ipc_reach_inv[OF assms(1), of ops] assms(2) by simp
  show "(x, hs_rights (ip_handles c' ! i)) \<in># all_refs (fold ipc_step ops' c)"
    using handle_in_refs[of i c'] assms(4-7) by simp
qed (use assms(3) in blast)

theorem ipc_no_amplification_witness:
  "\<exists>r. (ipc_end, r) \<in># all_refs ipc_shared \<and> rights_contains r RIGHTS_SEND"
proof -
  have "\<forall>k \<le> length [ipc_gift, ipc_take]. ipc_object_ref_is_live (fold ipc_step (take k [ipc_gift, ipc_take]) ipc_shared) ipc_end"
    by (simp add: all_nat_le_2 ipc_sample ipc_sent_def[symmetric] ipc_taken_def[symmetric])
  from ipc_no_amplification[of 5 4 ipc_shared ipc_setup, OF _ ipc_shared_def this, of ipc_taken 4]
  show ?thesis by (simp add: ipc_sample ipc_sent_def[symmetric] ipc_taken_def[symmetric])
qed

text \<open>C21: A successful send appends the message, stamped with the sender's identity, to the queue of the
  peer end and to no other, and queues for transfer exactly the requested part of the rights of
  a handle of the sender that may be transferred; nobody's handles change.\<close>

theorem ipc_send_appends:
  assumes "nh + 16 * no + 64 < 2 ^ 63" and "c = fold ipc_step ops (ipc_new nh no)"
    and "ipc_send c sender h m t = (Inr (), c')"
  shows "\<exists>s ch p qt. ipc_resolve_handle c sender h = Inr s \<and> rights_contains (hs_rights s) RIGHTS_SEND
    \<and> kind_of c (hs_object s) = KChannel ch \<and> ch_peer ch = Some p \<and> ip_handles c' = ip_handles c
    \<and> (\<forall>j. chan_list c' j = chan_list c j @
          (if j = or_slot p then [\<lparr>qm_message = wm_stamp_sender m sender, qm_transfer = qt\<rparr>] else []))
    \<and> (case t of None \<Rightarrow> qt = None
        | Some req \<Rightarrow> \<exists>src. ipc_resolve_handle c sender (tr_handle req) = Inr src
            \<and> rights_contains (hs_rights src) RIGHTS_TRANSFER \<and> rights_contains (hs_rights src) (tr_rights req)
            \<and> qt = Some \<lparr>qt_object = hs_object src, qt_rights = tr_rights req\<rparr>)"
proof -
  have "ipc_inv c" using ipc_reach_inv[OF assms(1), of ops] assms(2) by simp
  then show ?thesis
    by (rule send_cases[of c sender h m t]) (use assms(3) queue_transfer_shape[of c sender t] in auto)
qed

theorem ipc_send_appends_witness:
  "\<exists>p. \<forall>j. \<exists>qt. chan_list ipc_sent j = chan_list ipc_shared j @
     (if j = p then [\<lparr>qm_message = wm_stamp_sender ipc_hello ipc_alice, qm_transfer = qt\<rparr>] else [])"
proof -
  have s: "ipc_send ipc_shared ipc_alice \<lparr>hd_slot = 0, hd_generation = 1\<rparr> ipc_hello
     (Some \<lparr>tr_handle = \<lparr>hd_slot = 2, hd_generation = 1\<rparr>, tr_rights = RIGHTS_SEND\<rparr>) = (Inr (), ipc_sent)"
    using ipc_sample(2) by (simp add: ipc_sent_def ipc_step_def ipc_gift_def outcome_def prod_eq_iff map_sum_unit)
  have "5 + 16 * 4 + 64 < (2 :: nat) ^ 63" by simp
  from ipc_send_appends[OF this ipc_shared_def s]
  obtain p :: object_ref and qt where "\<forall>j. chan_list ipc_sent j = chan_list ipc_shared j @
     (if j = or_slot p then [\<lparr>qm_message = wm_stamp_sender ipc_hello ipc_alice, qm_transfer = qt\<rparr>] else [])" by blast
  then show ?thesis by blast
qed

text \<open>C22: A successful receive takes the oldest message of the endpoint's queue and of no other; a
  transferred end is installed in a free slot for the receiver with exactly the queued rights.\<close>

theorem ipc_receive_oldest:
  assumes "nh + 16 * no + 64 < 2 ^ 63" and "c = fold ipc_step ops (ipc_new nh no)"
    and "ipc_receive c receiver h = (Inr got, c')"
  shows "\<exists>s m. ipc_resolve_handle c receiver h = Inr s \<and> rights_contains (hs_rights s) RIGHTS_RECEIVE
    \<and> chan_list c (or_slot (hs_object s)) = m # chan_list c' (or_slot (hs_object s))
    \<and> (\<forall>j. j \<noteq> or_slot (hs_object s) \<longrightarrow> chan_list c' j = chan_list c j) \<and> rm_message got = qm_message m
    \<and> (case qm_transfer m of None \<Rightarrow> rm_transferred got = None \<and> ip_handles c' = ip_handles c
        | Some t \<Rightarrow> \<exists>r. rm_transferred got = Some r \<and> hd_slot r < length (ip_handles c) \<and> \<not> hs_occupied (ip_handles c ! hd_slot r)
            \<and> ip_handles c' = (ip_handles c)[hd_slot r := \<lparr>hs_generation = hd_generation r, hs_occupied = True,
                 hs_owner = receiver, hs_object = qt_object t, hs_rights = qt_rights t\<rparr>])"
proof -
  have "ipc_inv c" using ipc_reach_inv[OF assms(1), of ops] assms(2) by simp
  then show ?thesis
    by (rule receive_cases[of c receiver h]) (use assms(3) in \<open>auto split: option.splits\<close>)
qed

theorem ipc_receive_oldest_witness:
  "\<exists>j m. chan_list ipc_sent j = m # chan_list ipc_taken j"
proof -
  obtain got where s: "ipc_receive ipc_sent ipc_bob \<lparr>hd_slot = 1, hd_generation = 1\<rparr> = (Inr got, ipc_taken)"
    using ipc_sample(3) by (auto simp: ipc_taken_def ipc_step_def ipc_take_def outcome_Inr prod_eq_iff) (simp add: outcome_def)
  have "ipc_sent = fold ipc_step (ipc_setup @ [ipc_gift]) (ipc_new 5 4)" by (simp add: ipc_sent_def ipc_shared_def)
  from ipc_receive_oldest[OF _ this s] show ?thesis by auto
qed

text \<open>C28: When a process dies, exactly its handles are closed, each once; every other handle is as it was,
  no service is gained, and the count of closed handles is reported.\<close>

theorem ipc_cleanup_exact:
  assumes "nh + 16 * no + 64 < 2 ^ 63" and "c = fold ipc_step ops (ipc_new nh no)"
  shows "ip_handles (snd (ipc_cleanup_pid c pid)) = map (\<lambda>h. if hs_occupied h \<and> id_pid (hs_owner h) = pid
       then h\<lparr>hs_occupied := False, hs_rights := RIGHTS_NONE\<rparr> else h) (ip_handles c)
    \<and> cs_handles_closed (fst (ipc_cleanup_pid c pid)) = count_if (\<lambda>h. hs_occupied h \<and> id_pid (hs_owner h) = pid) (ip_handles c)
    \<and> ipc_service_count (snd (ipc_cleanup_pid c pid)) + cs_services_removed (fst (ipc_cleanup_pid c pid)) = ipc_service_count c"
proof -
  have "ipc_inv c" using ipc_reach_inv[OF assms(1), of ops] assms(2) by simp
  then show ?thesis
    by (rule cleanup_ok[where p = "\<lambda>o'. id_pid o' = pid"]) (simp add: ipc_cleanup_pid_def)
qed

theorem ipc_cleanup_exact_witness:
  "\<not> hs_occupied (ip_handles (snd (ipc_cleanup_pid ipc_shared 7)) ! 0)"
  using ipc_cleanup_exact[of 5 4 ipc_shared ipc_setup 7, OF _ ipc_shared_def] by (simp add: ipc_sample ipc_alice_def)

text \<open>C37: The 64-byte wire format is canonical: encoding a valid message and decoding it returns it, and
  every byte string the decoder accepts is the encoding of what it returns.\<close>

theorem ipc_wire_roundtrip:
  assumes "length bs = MESSAGE_WIRE_SIZE" and "wm_is_valid m" "length (wm_payload m) = MESSAGE_PAYLOAD_SIZE"
  shows "wm_from_bytes (wm_to_bytes m) = Inr m \<and> length (wm_to_bytes m) = MESSAGE_WIRE_SIZE
    \<and> (\<forall>m'. wm_from_bytes bs = Inr m' \<longrightarrow> wm_is_valid m' \<and> wm_to_bytes m' = bs)"
  using wm_from_to[OF assms(2,3)] wm_to_from[OF assms(1)] by blast

theorem ipc_wire_roundtrip_witness: "wm_from_bytes (wm_to_bytes ipc_hello) = Inr ipc_hello"
  using ipc_wire_roundtrip[of "replicate 64 0" ipc_hello]
  by (simp add: MESSAGE_WIRE_SIZE_def ipc_hello_def WIRE_EMPTY_def wm_is_valid_def)

end
