(* ===== verification/Byte_Records.thy ===== *)
theory Byte_Records
  imports Prelude
begin

text \<open>
  Fixed-layout byte records, as the disk formats and image parsers of the system read and
  write them: slices, in-place writes at an offset (\<open>copy_from_slice\<close>), bounds-checked
  slices (\<open>get\<close>), little-endian fields of natural numbers, and the CRC-32 that seals the
  records. The CRC is injective in its register and in every single byte, so a sealed
  record with one byte changed is no longer sealed.
\<close>

unbundle bit_operations_syntax

section \<open>Slices and writes\<close>

definition slice :: "nat \<Rightarrow> nat \<Rightarrow> 'a list \<Rightarrow> 'a list" where
  "slice off n xs = take n (drop off xs)"

definition put_at :: "nat \<Rightarrow> 'a list \<Rightarrow> 'a list \<Rightarrow> 'a list" where
  "put_at off bs out = take off out @ bs @ drop (off + length bs) out"

text \<open>\<open>bytes.get(off..off + n)\<close>\<close>

definition get_range :: "'a list \<Rightarrow> nat \<Rightarrow> nat \<Rightarrow> 'a list option" where
  "get_range bytes off n = (if off + n \<le> length bytes then Some (slice off n bytes) else None)"

named_theorems record_simps \<open>reading fields back from written records\<close>

lemma length_slice: "off + n \<le> length xs \<Longrightarrow> length (slice off n xs) = n"
  by (simp add: slice_def)

lemma length_put_at [simp, record_simps]: "off + length bs \<le> length out \<Longrightarrow> length (put_at off bs out) = length out"
  by (simp add: put_at_def)

lemma nth_put_at:
  "off + length bs \<le> length out \<Longrightarrow> i < length out \<Longrightarrow>
   put_at off bs out ! i = (if off \<le> i \<and> i < off + length bs then bs ! (i - off) else out ! i)"
  by (auto simp: put_at_def nth_append)

lemma slice_nth: "off + n \<le> length xs \<Longrightarrow> i < n \<Longrightarrow> slice off n xs ! i = xs ! (off + i)"
  by (simp add: slice_def)

lemma slice_put_same [record_simps]: "off + length bs \<le> length out \<Longrightarrow> n = length bs \<Longrightarrow> slice off n (put_at off bs out) = bs"
  by (simp add: slice_def put_at_def)

lemma slice_put_other [record_simps]:
  assumes "off + length bs \<le> length out" "o' + n \<le> length out" "o' + n \<le> off \<or> off + length bs \<le> o'"
  shows "slice o' n (put_at off bs out) = slice o' n out"
proof (rule nth_equalityI)
  show "length (slice o' n (put_at off bs out)) = length (slice o' n out)" using assms by (simp add: length_slice)
  fix i assume "i < length (slice o' n (put_at off bs out))"
  then have "i < n" using assms by (simp add: length_slice)
  then show "slice o' n (put_at off bs out) ! i = slice o' n out ! i"
    using assms by (auto simp: slice_nth nth_put_at)
qed

lemma slice_slice: "a + n \<le> m \<Longrightarrow> slice a n (slice off m xs) = slice (off + a) n xs"
  by (simp add: slice_def drop_take add.commute min_def)

lemma slice_update: "i < length xs \<Longrightarrow> slice off n (xs[i := v]) = (if off \<le> i \<and> i < off + n then (slice off n xs)[i - off := v] else slice off n xs)"
  by (auto simp: slice_def drop_update_swap take_update_swap list_update_beyond)

lemma put_at_put_at: "off \<le> length out \<Longrightarrow> put_at (off + length a) b (put_at off a out) = put_at off (a @ b) out"
  by (simp add: put_at_def add.assoc add.commute add.left_commute)

lemma slice_put_inside:
  "off + length bs \<le> length out \<Longrightarrow> off \<le> o' \<Longrightarrow> o' + n \<le> off + length bs \<Longrightarrow>
   slice o' n (put_at off bs out) = slice (o' - off) n bs"
  by (rule nth_equalityI) (auto simp: length_slice slice_nth nth_put_at)

text \<open>A record written field by field at ascending offsets: every field reads back.\<close>

definition put_all :: "(nat \<times> 'a list) list \<Rightarrow> 'a list \<Rightarrow> 'a list" where
  "put_all ws out = fold (\<lambda>(off, bs) out. put_at off bs out) ws out"

abbreviation ascending :: "(nat \<times> 'a list) list \<Rightarrow> bool" where
  "ascending ws \<equiv> sorted_wrt (\<lambda>x y. fst x + length (snd x) \<le> fst y) ws"

abbreviation within :: "(nat \<times> 'a list) list \<Rightarrow> nat \<Rightarrow> bool" where
  "within ws n \<equiv> list_all (\<lambda>x. fst x + length (snd x) \<le> n) ws"

lemma put_all_simps: "put_all [] out = out" "put_all ((off, bs) # ws) out = put_all ws (put_at off bs out)"
  by (simp_all add: put_all_def)

lemma put_all_other:
  "within ws (length out) \<Longrightarrow> o' + n \<le> length out \<Longrightarrow> list_all (\<lambda>x. o' + n \<le> fst x) ws \<Longrightarrow>
   length (put_all ws out) = length out \<and> slice o' n (put_all ws out) = slice o' n out"
  by (induction ws arbitrary: out) (auto simp: put_all_simps slice_put_other)

lemma put_all_disjoint:
  "within ws (length out) \<Longrightarrow> o' + n \<le> length out \<Longrightarrow> list_all (\<lambda>x. o' + n \<le> fst x \<or> fst x + length (snd x) \<le> o') ws \<Longrightarrow>
   slice o' n (put_all ws out) = slice o' n out"
  by (induction ws arbitrary: out) (auto simp: put_all_simps slice_put_other)

lemma put_all_length: "within ws (length out) \<Longrightarrow> length (put_all ws out) = length out"
  by (induction ws arbitrary: out) (auto simp: put_all_simps)

lemma put_all_slice:
  "ascending ws \<Longrightarrow> within ws (length out) \<Longrightarrow> (off, bs) \<in> set ws \<Longrightarrow> n = length bs \<Longrightarrow> slice off n (put_all ws out) = bs"
proof (induction ws arbitrary: out)
  case (Cons w ws)
  obtain o1 b1 where w: "w = (o1, b1)" by force
  have b: "o1 + length b1 \<le> length out" "within ws (length (put_at o1 b1 out))" using Cons.prems(2) w by auto
  show ?case
  proof (cases "(off, bs) = w")
    case True
    then have "slice off n (put_all ws (put_at off bs out)) = slice off n (put_at off bs out)"
      using Cons.prems b w by (intro conjunct2[OF put_all_other]) (auto simp: list_all_iff)
    then show ?thesis using True w b Cons.prems(4) by (simp add: put_all_simps slice_put_same)
  next
    case False
    then show ?thesis using Cons.IH[of "put_at o1 b1 out"] Cons.prems b w by (auto simp: put_all_simps)
  qed
qed simp

lemma slice_concat:
  "\<forall>x \<in> set xs. length x = n \<Longrightarrow> k < length xs \<Longrightarrow> slice (n * k) n (concat xs) = xs ! k"
proof (induction xs arbitrary: k)
  case (Cons x xs)
  show ?case
  proof (cases k)
    case 0
    then show ?thesis using Cons.prems by (simp add: slice_def)
  next
    case (Suc j)
    then have "slice (n * k) n (concat (x # xs)) = slice (n * j) n (concat xs)"
      using Cons.prems(1) by (simp add: slice_def)
    then show ?thesis using Cons Suc by simp
  qed
qed simp

section \<open>Little-endian fields\<close>

text \<open>Fields are natural numbers below the width; \<open>to_le_bytes\<close> and \<open>from_le_bytes\<close> go through words.\<close>

definition put_u32 :: "u8 list \<Rightarrow> nat \<Rightarrow> nat \<Rightarrow> u8 list" where
  "put_u32 output offset value = put_at offset (to_le_bytes 4 (of_nat value :: u32w)) output"

definition put_u64 :: "u8 list \<Rightarrow> nat \<Rightarrow> nat \<Rightarrow> u8 list" where
  "put_u64 output offset value = put_at offset (to_le_bytes 8 (of_nat value :: u64w)) output"

definition get_u32 :: "u8 list \<Rightarrow> nat \<Rightarrow> nat" where
  "get_u32 input offset = unat (from_le_bytes (slice offset 4 input) :: u32w)"

definition get_u64 :: "u8 list \<Rightarrow> nat \<Rightarrow> nat" where
  "get_u64 input offset = unat (from_le_bytes (slice offset 8 input) :: u64w)"

lemma unat_of_nat_small: "n < 2 ^ LENGTH('a) \<Longrightarrow> unat (of_nat n :: 'a::len word) = n"
  by (simp add: unat_of_nat)

lemma le_bytes_u32 [record_simps]: "n < 2 ^ 32 \<Longrightarrow> unat (from_le_bytes (to_le_bytes 4 (of_nat n :: u32w)) :: u32w) = n"
  by (simp add: from_to_le_bytes unat_of_nat_small)

lemma le_bytes_u64 [record_simps]: "n < 2 ^ 64 \<Longrightarrow> unat (from_le_bytes (to_le_bytes 8 (of_nat n :: u64w)) :: u64w) = n"
  by (simp add: from_to_le_bytes unat_of_nat_small)

lemma from_le_bytes_inj:
  "LENGTH('a) = 8 * length xs \<Longrightarrow> length ys = length xs \<Longrightarrow> (from_le_bytes xs :: 'a::len word) = from_le_bytes ys \<Longrightarrow> xs = ys"
  using to_from_le_bytes[of xs, where 'a = 'a] to_from_le_bytes[of ys, where 'a = 'a] by argo

lemma get_bounds: "get_u32 input off < 2 ^ 32" "get_u64 input off < 2 ^ 64"
  unfolding get_u32_def get_u64_def by (rule order_less_le_trans[OF unsigned_less], simp)+

section \<open>CRC-32\<close>

text \<open>The reflected CRC-32 with polynomial \<open>0xedb88320\<close>: eight shifts per byte.\<close>

definition crc32_shift :: "u32w \<Rightarrow> u32w" where
  "crc32_shift crc = drop_bit 1 crc XOR (0xedb88320 AND (0 - (crc AND 1)))"

definition crc32_byte :: "u32w \<Rightarrow> u8 \<Rightarrow> u32w" where
  "crc32_byte crc byte = (crc32_shift ^^ 8) (crc XOR ucast byte)"

definition crc32_update :: "u32w \<Rightarrow> u8 list \<Rightarrow> u32w" where
  "crc32_update crc bytes = fold (\<lambda>byte crc. crc32_byte crc byte) bytes crc"

definition crc32 :: "u8 list \<Rightarrow> u32w" where
  "crc32 bytes = NOT (crc32_update (- 1) bytes)"

lemma minus_low_bit: "0 - (w AND 1) = (if bit w 0 then - 1 else 0)" for w :: "'a::len word"
  by (simp add: and_one_eq bit_0 mod2_eq_if)

lemma crc32_shift_eq: "crc32_shift crc = (if bit crc 0 then drop_bit 1 crc XOR 0xedb88320 else drop_bit 1 crc)"
  unfolding crc32_shift_def minus_low_bit by simp

lemma crc32_shift_top: "bit (crc32_shift crc) 31 \<longleftrightarrow> bit crc 0"
proof -
  have t: "\<not> bit (drop_bit 1 crc) 31" by (auto simp: bit_drop_bit_eq dest: bit_imp_le_length)
  have p: "bit (0xedb88320 :: u32w) 31" by simp
  show ?thesis
  proof (cases "bit crc 0")
    case True
    then have "crc32_shift crc = drop_bit 1 crc XOR 0xedb88320" by (simp add: crc32_shift_eq)
    then show ?thesis using t p True by (simp only: bit_xor_iff) blast
  next
    case False
    then show ?thesis using t by (simp only: crc32_shift_eq if_False)
  qed
qed

lemma xor_cancel: "a XOR b = a XOR c \<longleftrightarrow> b = c" "b XOR a = c XOR a \<longleftrightarrow> b = c" for a b c :: "'a::len word"
  by (auto simp: bit_eq_iff bit_xor_iff)

lemma crc32_shift_inj: "inj crc32_shift"
proof
  fix c d :: u32w assume eq: "crc32_shift c = crc32_shift d"
  then have b0: "bit c 0 = bit d 0" using crc32_shift_top by metis
  then have "drop_bit 1 c = drop_bit 1 d"
    using eq unfolding crc32_shift_eq by (cases "bit c 0") (simp_all add: xor_cancel)
  then have "bit c (Suc k) = bit d (Suc k)" for k
    using bit_drop_bit_eq[of 1 c] bit_drop_bit_eq[of 1 d] by (metis comp_apply plus_1_eq_Suc)
  then show "c = d" using b0 by (intro bit_eqI) (metis not0_implies_Suc)
qed

lemma crc32_byte_inj: "crc32_byte c x = crc32_byte d y \<longleftrightarrow> c XOR ucast x = d XOR ucast y"
proof -
  have "inj (crc32_shift ^^ 8)" using crc32_shift_inj by (simp add: inj_fn)
  then show ?thesis unfolding crc32_byte_def by (simp add: inj_eq)
qed

lemma crc32_update_inj: "crc32_update c bytes = crc32_update d bytes \<longleftrightarrow> c = d"
  by (induction bytes arbitrary: c d) (simp_all add: crc32_update_def crc32_byte_inj xor_cancel)

lemma crc32_one_byte:
  assumes "i < length bytes" "v \<noteq> bytes ! i"
  shows "crc32 (bytes[i := v]) \<noteq> crc32 bytes"
proof
  assume eq: "crc32 (bytes[i := v]) = crc32 bytes"
  let ?s = "crc32_update (- 1) (take i bytes)"
  have u: "crc32_update (- 1) (take i bytes @ x # drop (Suc i) bytes) = crc32_update (crc32_byte ?s x) (drop (Suc i) bytes)" for x
    by (simp add: crc32_update_def)
  have "crc32_update (- 1) (bytes[i := v]) = crc32_update (- 1) bytes"
    using eq unfolding crc32_def by (metis bit.double_compl)
  then have "crc32_byte ?s v = crc32_byte ?s (bytes ! i)"
    using u[of v] u[of "bytes ! i"] upd_conv_take_nth_drop[OF assms(1), of v] id_take_nth_drop[OF assms(1)]
    by (simp add: crc32_update_inj)
  then have "(ucast v :: u32w) = ucast (bytes ! i)" by (simp add: crc32_byte_inj xor_cancel)
  then have "v = bytes ! i" by (auto simp: bit_eq_iff bit_ucast_iff dest: bit_imp_le_length)
  with assms(2) show False ..
qed

end
