(* ===== verification/Gpt.thy ===== *)
theory Gpt
  imports Byte_Records
begin

text \<open>
  Locating the data partition of a disk, \<open>crates/gpt/src/lib.rs\<close>. The sector reader is a
  function from sector numbers to the sector's bytes, \<^const>\<open>None\<close> when the read fails: it is the
  device below, which the code only calls. The theorem assumes nothing about it but the
  answer for sector 0.
\<close>

unbundle bit_operations_syntax

definition SECTOR_BYTES :: nat where "SECTOR_BYTES = 512"
definition ENTRY_LIMIT :: nat where "ENTRY_LIMIT = 128"
definition ENTRY_BYTES :: nat where "ENTRY_BYTES = 128"

record partition =
  pa_first_lba :: nat
  pa_sectors :: nat

definition pa_translate :: "partition \<Rightarrow> nat \<Rightarrow> nat \<Rightarrow> nat option" where
  "pa_translate p logical_lba sector_count =
     Option.bind (if sector_count = 0 then Some False
                  else map_option (\<lambda>e. e \<le> pa_sectors p) (checked_add logical_lba sector_count)) (\<lambda>fits.
     Option.bind (checked_add (pa_first_lba p) logical_lba) (\<lambda>lba.
     if fits then Some lba else None))"

datatype disk_layout = LegacyRaw nat | GptLayout partition | InvalidLayout

type_synonym sector_reader = "nat \<Rightarrow> u8 list option"

definition gp_read_u32 :: "u8 list \<Rightarrow> nat \<Rightarrow> nat option" where
  "gp_read_u32 bytes offset = map_option (\<lambda>b. unat (from_le_bytes b :: u32w)) (get_range bytes offset 4)"

definition gp_read_u64 :: "u8 list \<Rightarrow> nat \<Rightarrow> nat option" where
  "gp_read_u64 bytes offset = map_option (\<lambda>b. unat (from_le_bytes b :: u64w)) (get_range bytes offset 8)"

text \<open>The loop that checksums the entry array, over the sector offsets still to read.\<close>

fun gp_entries_crc :: "sector_reader \<Rightarrow> nat \<Rightarrow> nat list \<Rightarrow> u32w \<Rightarrow> nat \<Rightarrow> u32w option" where
  "gp_entries_crc read_sector entries_lba [] crc remaining = Some crc"
| "gp_entries_crc read_sector entries_lba (offset # offsets) crc remaining =
     Option.bind (checked_add entries_lba offset) (\<lambda>lba.
     Option.bind (read_sector lba) (\<lambda>sector.
     let count = min remaining 512
     in gp_entries_crc read_sector entries_lba offsets (crc32_update crc (take count sector)) (remaining - count)))"

text \<open>The search of the entry array; the first entry of the wanted type decides.\<close>

fun gp_find_entry :: "sector_reader \<Rightarrow> u8 list \<Rightarrow> nat \<Rightarrow> nat \<Rightarrow> nat \<Rightarrow> nat \<Rightarrow> nat list \<Rightarrow> partition option" where
  "gp_find_entry read_sector partition_type entries_lba entry_bytes first_usable last_usable [] = None"
| "gp_find_entry read_sector partition_type entries_lba entry_bytes first_usable last_usable (index # indices) =
     (let byte_offset = index * entry_bytes
      in Option.bind (checked_add entries_lba (byte_offset div SECTOR_BYTES)) (\<lambda>lba.
         Option.bind (read_sector lba) (\<lambda>sector.
         Option.bind (get_range sector (byte_offset mod SECTOR_BYTES) ENTRY_BYTES) (\<lambda>entry.
         if take 16 entry \<noteq> partition_type
         then gp_find_entry read_sector partition_type entries_lba entry_bytes first_usable last_usable indices
         else
           Option.bind (gp_read_u64 entry 32) (\<lambda>first.
           Option.bind (gp_read_u64 entry 40) (\<lambda>last'.
           Option.bind (checked_sub last' first) (\<lambda>d.
           Option.bind (checked_add d 1) (\<lambda>sectors.
           if first < first_usable \<or> last' > last_usable \<or> sectors = 0 then None
           else Some \<lparr>pa_first_lba = first, pa_sectors = sectors\<rparr>))))))))"

definition EFI_PART :: "u8 list" where
  "EFI_PART = [0x45, 0x46, 0x49, 0x20, 0x50, 0x41, 0x52, 0x54]"

text \<open>\<open>find_partition\<close> after the header has passed its checks.\<close>

definition gp_search ::
  "sector_reader \<Rightarrow> nat \<Rightarrow> u8 list \<Rightarrow> nat \<Rightarrow> nat \<Rightarrow> nat \<Rightarrow> nat \<Rightarrow> nat \<Rightarrow> nat \<Rightarrow> partition option" where
  "gp_search read_sector device_sectors partition_type first_usable last_usable entries_lba entry_count entry_bytes wanted_entries_crc =
     (if entry_count = 0 \<or> entry_count > ENTRY_LIMIT \<or> entry_bytes \<noteq> ENTRY_BYTES
         \<or> first_usable > last_usable \<or> last_usable \<ge> device_sectors
      then None
      else
        Option.bind (checked_mul entry_count entry_bytes) (\<lambda>array_bytes.
        let array_sectors = (array_bytes + SECTOR_BYTES - 1) div SECTOR_BYTES
        in Option.bind (checked_add entries_lba array_sectors) (\<lambda>e.
        if e > device_sectors then None
        else
          Option.bind (gp_entries_crc read_sector entries_lba [0..<array_sectors] (- 1) array_bytes) (\<lambda>crc.
          if unat (NOT crc) \<noteq> wanted_entries_crc then None
          else gp_find_entry read_sector partition_type entries_lba entry_bytes first_usable last_usable [0..<entry_count]))))"

definition gp_find_partition :: "nat \<Rightarrow> nat \<Rightarrow> u8 list \<Rightarrow> sector_reader \<Rightarrow> partition option" where
  "gp_find_partition device_sectors header_lba partition_type read_sector =
     Option.bind (read_sector header_lba) (\<lambda>header.
     if take 8 header \<noteq> EFI_PART then None
     else Option.bind (gp_read_u32 header 8) (\<lambda>revision.
     if revision \<noteq> 0x00010000 then None
     else
       Option.bind (gp_read_u32 header 12) (\<lambda>header_bytes.
       Option.bind (gp_read_u64 header 24) (\<lambda>my_lba.
       Option.bind (gp_read_u64 header 32) (\<lambda>alternate_lba.
       if \<not> (92 \<le> header_bytes \<and> header_bytes \<le> 512) \<or> my_lba \<noteq> header_lba \<or> alternate_lba \<ge> device_sectors then None
       else
         Option.bind (gp_read_u32 header 16) (\<lambda>wanted_header_crc.
         let header = put_at 16 [0, 0, 0, 0] header
         in if unat (crc32 (take header_bytes header)) \<noteq> wanted_header_crc then None
            else
              Option.bind (gp_read_u64 header 40) (\<lambda>first_usable.
              Option.bind (gp_read_u64 header 48) (\<lambda>last_usable.
              Option.bind (gp_read_u64 header 72) (\<lambda>entries_lba.
              Option.bind (gp_read_u32 header 80) (\<lambda>entry_count.
              Option.bind (gp_read_u32 header 84) (\<lambda>entry_bytes.
              Option.bind (gp_read_u32 header 88) (\<lambda>wanted_entries_crc.
              gp_search read_sector device_sectors partition_type first_usable last_usable entries_lba
                entry_count entry_bytes wanted_entries_crc))))))))))))"

text \<open>A protective MBR: the boot signature and a partition of type \<open>0xee\<close>.\<close>

definition gp_protective :: "u8 list \<Rightarrow> bool" where
  "gp_protective sector \<longleftrightarrow> slice 510 2 sector = [0x55, 0xaa] \<and> sector ! 450 = 0xee"

definition gp_classify :: "nat \<Rightarrow> u8 list \<Rightarrow> sector_reader \<Rightarrow> disk_layout" where
  "gp_classify device_sectors partition_type read_sector =
     (if device_sectors = 0 then InvalidLayout
      else case read_sector 0 of
             None \<Rightarrow> InvalidLayout
           | Some sector \<Rightarrow>
               if \<not> gp_protective sector then LegacyRaw device_sectors
               else case gp_find_partition device_sectors 1 partition_type read_sector of
                      Some p \<Rightarrow> GptLayout p
                    | None \<Rightarrow>
                        (case Option.bind (checked_sub device_sectors 1) (\<lambda>backup.
                                gp_find_partition device_sectors backup partition_type read_sector) of
                           Some p \<Rightarrow> GptLayout p
                         | None \<Rightarrow> InvalidLayout))"

section \<open>Bounds\<close>

lemma gp_find_entry_bounds:
  "gp_find_entry rd ty lba eb first_usable last_usable is = Some p \<Longrightarrow>
   0 < pa_sectors p \<and> first_usable \<le> pa_first_lba p \<and> pa_first_lba p + pa_sectors p \<le> last_usable + 1"
  by (induction "is") (auto simp: Let_def bind_eq_Some_conv split: if_splits)

lemma gp_find_partition_bounds:
  assumes "gp_find_partition n h ty rd = Some p"
  shows "0 < pa_sectors p" "pa_first_lba p + pa_sectors p \<le> n"
proof -
  obtain fu lu el ec eb w where "gp_search rd n ty fu lu el ec eb w = Some p"
    using assms unfolding gp_find_partition_def by (auto simp: Let_def bind_eq_Some_conv split: if_splits)
  then obtain ks where "gp_find_entry rd ty el eb fu lu ks = Some p" "lu < n"
    unfolding gp_search_def by (auto simp: Let_def bind_eq_Some_conv split: if_splits)
  then show "0 < pa_sectors p" "pa_first_lba p + pa_sectors p \<le> n" using gp_find_entry_bounds by fastforce+
qed

lemma pa_translate_Some:
  "pa_translate p l n = Some lba \<longleftrightarrow> 0 < n \<and> l + n \<le> pa_sectors p \<and> l + n < 2 ^ 64 \<and> lba = pa_first_lba p + l \<and> lba < 2 ^ 64"
  by (auto simp: pa_translate_def bind_eq_Some_conv split: if_splits)

section \<open>Properties\<close>

text \<open>A disk of 40 sectors with a protective MBR and a GPT of one entry, sectors 34 to 36.\<close>

definition gp_sample_type :: "u8 list" where
  "gp_sample_type = [116, 143, 106, 141, 51, 62, 68, 77, 162, 231, 15, 90, 75, 79, 83, 1]"

definition gp_sample_entries :: "u8 list" where
  "gp_sample_entries = gp_sample_type @ replicate 16 0 @ [34, 0, 0, 0, 0, 0, 0, 0] @ [36, 0, 0, 0, 0, 0, 0, 0] @ replicate 464 0"

text \<open>The header with the checksum fields \<open>e\<close> of the entries and \<open>c\<close> of itself.\<close>

definition gp_sample_header :: "u8 list \<Rightarrow> u8 list \<Rightarrow> u8 list" where
  "gp_sample_header e c = EFI_PART @ [0, 0, 1, 0] @ [92, 0, 0, 0] @ c @ [0, 0, 0, 0] @ [1, 0, 0, 0, 0, 0, 0, 0] @ [39, 0, 0, 0, 0, 0, 0, 0]
     @ [34, 0, 0, 0, 0, 0, 0, 0] @ [38, 0, 0, 0, 0, 0, 0, 0] @ replicate 16 0 @ [2, 0, 0, 0, 0, 0, 0, 0] @ [1, 0, 0, 0] @ [128, 0, 0, 0] @ e @ replicate 420 0"

definition gp_sample_disk :: sector_reader where
  "gp_sample_disk lba =
     (let e = to_le_bytes 4 (crc32 (take 128 gp_sample_entries));
          c = to_le_bytes 4 (crc32 (take 92 (gp_sample_header e [0, 0, 0, 0])))
      in if lba = 0 then Some (put_at 510 [0x55, 0xaa] (put_at 450 [0xee] (replicate 512 0)))
         else if lba = 1 then Some (gp_sample_header e c)
         else if lba = 2 then Some gp_sample_entries
         else if lba < 40 then Some (replicate 512 0) else None)"

lemma gp_sample_header_reads:
  assumes "length e = 4" "length c = 4"
  shows "take 8 (gp_sample_header e c) = EFI_PART" "gp_read_u32 (gp_sample_header e c) 8 = Some 65536" "gp_read_u32 (gp_sample_header e c) 12 = Some 92"
    "gp_read_u32 (gp_sample_header e c) 16 = Some (unat (from_le_bytes c :: u32w))" "gp_read_u64 (gp_sample_header e c) 24 = Some 1"
    "gp_read_u64 (gp_sample_header e c) 32 = Some 39" "gp_read_u64 (gp_sample_header e c) 40 = Some 34" "gp_read_u64 (gp_sample_header e c) 48 = Some 38"
    "gp_read_u64 (gp_sample_header e c) 72 = Some 2" "gp_read_u32 (gp_sample_header e c) 80 = Some 1" "gp_read_u32 (gp_sample_header e c) 84 = Some 128"
    "gp_read_u32 (gp_sample_header e c) 88 = Some (unat (from_le_bytes e :: u32w))" "put_at 16 [0, 0, 0, 0] (gp_sample_header e c) = gp_sample_header e [0, 0, 0, 0]"
  using assms by (simp_all add: gp_sample_header_def gp_read_u32_def gp_read_u64_def get_range_def slice_def put_at_def EFI_PART_def)

lemma gp_sample_entry_reads:
  "get_range gp_sample_entries 0 128 = Some (take 128 gp_sample_entries)" "take 16 (take 128 gp_sample_entries) = gp_sample_type"
  "gp_read_u64 (take 128 gp_sample_entries) 32 = Some 34" "gp_read_u64 (take 128 gp_sample_entries) 40 = Some 36"
  by (simp_all add: gp_sample_entries_def gp_sample_type_def gp_read_u64_def get_range_def slice_def)

lemma gp_sample_search:
  "gp_search gp_sample_disk 40 gp_sample_type 34 38 2 1 128 (unat (crc32 (take 128 gp_sample_entries))) = Some \<lparr>pa_first_lba = 34, pa_sectors = 3\<rparr>"
proof -
  have "gp_sample_disk 2 = Some gp_sample_entries" by (simp add: gp_sample_disk_def)
  then show ?thesis
    by (simp add: gp_search_def ENTRY_LIMIT_def ENTRY_BYTES_def SECTOR_BYTES_def checked_mul_def checked_add_def checked_sub_def crc32_def gp_sample_entry_reads
      del: take_take)
qed

lemma gp_sample_layout: "gp_classify 40 gp_sample_type gp_sample_disk = GptLayout \<lparr>pa_first_lba = 34, pa_sectors = 3\<rparr>"
proof -
  define e c where "e = to_le_bytes 4 (crc32 (take 128 gp_sample_entries))" and "c = to_le_bytes 4 (crc32 (take 92 (gp_sample_header e [0, 0, 0, 0])))"
  have d: "gp_sample_disk 1 = Some (gp_sample_header e c)" by (simp add: gp_sample_disk_def Let_def e_def c_def)
  have l: "length e = 4" "length c = 4" "length [0 :: u8, 0, 0, 0] = 4" by (simp_all add: e_def c_def)
  have v: "(from_le_bytes e :: u32w) = crc32 (take 128 gp_sample_entries)" "(from_le_bytes c :: u32w) = crc32 (take 92 (gp_sample_header e [0, 0, 0, 0]))"
    unfolding e_def c_def by (simp_all add: from_to_le_bytes)
  have "gp_find_partition 40 1 gp_sample_type gp_sample_disk = Some \<lparr>pa_first_lba = 34, pa_sectors = 3\<rparr>"
    by (simp add: gp_find_partition_def d gp_sample_header_reads[OF l(1,2)] gp_sample_header_reads[OF l(1,3)] v gp_sample_search Let_def del: One_nat_def)
  moreover have "gp_sample_disk 0 = Some (put_at 510 [0x55, 0xaa] (put_at 450 [0xee] (replicate 512 0)))" by (simp add: gp_sample_disk_def)
  moreover have "gp_protective (put_at 510 [0x55, 0xaa] (put_at 450 [0xee] (replicate 512 0)))"
    by (simp add: gp_protective_def slice_put_same nth_put_at)
  ultimately show ?thesis by (simp add: gp_classify_def)
qed

text \<open>C19: A disk with a protective MBR is never used raw: it yields a partition or nothing. A partition found lies on
  the device, is not empty, and address translation keeps every access inside it, so no request
  reaches a sector outside the partition however its numbers were chosen.\<close>

theorem gp_access_contained:
  assumes "read_sector 0 = Some sector" "gp_protective sector"
  shows "case gp_classify device_sectors partition_type read_sector of
      LegacyRaw _ \<Rightarrow> False
    | InvalidLayout \<Rightarrow> True
    | GptLayout p \<Rightarrow> 0 < pa_sectors p \<and> pa_first_lba p + pa_sectors p \<le> device_sectors
        \<and> (\<forall>l n lba. pa_translate p l n = Some lba \<longrightarrow>
             pa_first_lba p \<le> lba \<and> lba + n \<le> pa_first_lba p + pa_sectors p)"
  using assms gp_find_partition_bounds
  by (auto simp: gp_classify_def pa_translate_Some bind_eq_Some_conv split: option.splits)

theorem gp_access_contained_witness:
  "gp_classify 40 gp_sample_type gp_sample_disk = GptLayout \<lparr>pa_first_lba = 34, pa_sectors = 3\<rparr> \<and> pa_translate \<lparr>pa_first_lba = 34, pa_sectors = 3\<rparr> 2 1 = Some 36"
proof -
  have "gp_sample_disk 0 = Some (put_at 510 [0x55, 0xaa] (put_at 450 [0xee] (replicate 512 0)))" by (simp add: gp_sample_disk_def)
  moreover have "gp_protective (put_at 510 [0x55, 0xaa] (put_at 450 [0xee] (replicate 512 0)))"
    by (simp add: gp_protective_def slice_put_same nth_put_at)
  ultimately have "34 + 3 \<le> (40 :: nat)" using gp_access_contained[of gp_sample_disk _ 40 gp_sample_type] by (simp add: gp_sample_layout)
  then show ?thesis by (simp add: gp_sample_layout pa_translate_Some)
qed

end
