(* ===== verification/Makfs4_Extents.thy ===== *)
theory Makfs4_Extents
  imports Prelude
begin

text \<open>
  Space management of the MAKFS4 file system, \<open>crates/makfs4/src/lib.rs\<close>: extents, the
  ordered extent map of a file and the block bitmap with first-fit, copy-on-write tail
  allocation and its rollback. Block numbers and counts are \<^typ>\<open>nat\<close> with the widths in
  the checked operations; the bitmap is the source's array of 64-bit words.
\<close>

unbundle bit_operations_syntax

section \<open>Extents\<close>

definition BLOCK_BYTES :: nat where "BLOCK_BYTES = 4096"
definition MAX_EXTENTS :: nat where "MAX_EXTENTS = 14"

definition block_first_sector :: "nat \<Rightarrow> nat \<Rightarrow> nat option" where
  "block_first_sector block sector_bytes =
     (if sector_bytes = 0 \<or> BLOCK_BYTES mod sector_bytes \<noteq> 0 then None
      else checked_mul block (BLOCK_BYTES div sector_bytes))"

datatype m4_error = M4Invalid | M4Corrupt | M4NoSpace | M4TooFragmented | M4OutOfRange | M4WrongPhase

record extent =
  ex_start_block :: nat
  ex_block_count :: nat

definition EXTENT_EMPTY :: extent where
  "EXTENT_EMPTY = \<lparr>ex_start_block = 0, ex_block_count = 0\<rparr>"

definition ex_end_block :: "extent \<Rightarrow> nat option" where
  "ex_end_block e = checked_add (ex_start_block e) (ex_block_count e)"

record extent_map =
  em_extents :: "extent list"
  em_count :: nat

definition EXTENT_MAP_EMPTY :: extent_map where
  "EXTENT_MAP_EMPTY = \<lparr>em_extents = replicate MAX_EXTENTS EXTENT_EMPTY, em_count = 0\<rparr>"

text \<open>The slice \<open>extents()\<close> of the extents in use.\<close>

definition em_list :: "extent_map \<Rightarrow> extent list" where
  "em_list m = take (em_count m) (em_extents m)"

definition em_blocks :: "extent_map \<Rightarrow> nat" where
  "em_blocks m = sum_list (map ex_block_count (em_list m))"

definition em_append :: "extent_map \<Rightarrow> extent \<Rightarrow> nat \<Rightarrow> (m4_error, unit) result \<times> extent_map" where
  "em_append m extent e =
     (if em_count m = MAX_EXTENTS \<or> e < ex_start_block extent then (Inl M4TooFragmented, m)
      else (Inr (), \<lparr>em_extents = (em_extents m)[em_count m := extent], em_count = em_count m + 1\<rparr>))"

definition em_push :: "extent_map \<Rightarrow> extent \<Rightarrow> (m4_error, unit) result \<times> extent_map" where
  "em_push m extent =
     (case ex_end_block extent of
        None \<Rightarrow> (Inl M4OutOfRange, m)
      | Some e \<Rightarrow>
          if ex_block_count extent = 0 then (Inl M4Invalid, m)
          else if em_list m = [] then em_append m extent e
          else
            (let previous = last (em_list m)
             in case ex_end_block previous of
                  None \<Rightarrow> (Inl M4OutOfRange, m)
                | Some last_end \<Rightarrow>
                    if ex_start_block extent < last_end then (Inl M4Invalid, m)
                    else if ex_start_block extent = last_end then
                      (let merged = ex_block_count previous + ex_block_count extent
                       in if merged > u32_max then (Inl M4OutOfRange, m)
                          else (Inr (), m\<lparr>em_extents := (em_extents m)[em_count m - 1 :=
                                  (em_extents m ! (em_count m - 1))\<lparr>ex_block_count := merged\<rparr>]\<rparr>))
                    else em_append m extent e))"

fun em_locate :: "extent list \<Rightarrow> nat \<Rightarrow> nat option" where
  "em_locate [] remaining = None"
| "em_locate (e # es) remaining =
     (if remaining < ex_block_count e then checked_add (ex_start_block e) remaining
      else em_locate es (remaining - ex_block_count e))"

definition em_file_block_to_device :: "extent_map \<Rightarrow> nat \<Rightarrow> nat option" where
  "em_file_block_to_device m file_block = em_locate (em_list m) file_block"

text \<open>The loop of \<open>split_at\<close>: each extent goes to the prefix, to the suffix or is cut in two.\<close>

fun em_split_loop :: "extent list \<Rightarrow> nat \<Rightarrow> extent_map \<Rightarrow> extent_map \<Rightarrow> (m4_error, extent_map \<times> extent_map) result" where
  "em_split_loop [] remaining prefix suffix = Inr (prefix, suffix)"
| "em_split_loop (e # es) remaining prefix suffix =
     (let kept = min remaining (ex_block_count e)
      in case (if kept \<noteq> 0 then em_push prefix (e\<lparr>ex_block_count := kept\<rparr>) else (Inr (), prefix)) of
           (Inl err, _) \<Rightarrow> Inl err
         | (Inr _, prefix) \<Rightarrow>
             (if kept \<noteq> ex_block_count e then
                case checked_add (ex_start_block e) kept of
                  None \<Rightarrow> Inl M4OutOfRange
                | Some s \<Rightarrow>
                    (case em_push suffix \<lparr>ex_start_block = s, ex_block_count = ex_block_count e - kept\<rparr> of
                       (Inl err, _) \<Rightarrow> Inl err
                     | (Inr _, suffix) \<Rightarrow> em_split_loop es (remaining - kept) prefix suffix)
              else em_split_loop es (remaining - kept) prefix suffix))"

definition em_split_at :: "extent_map \<Rightarrow> nat \<Rightarrow> (m4_error, extent_map \<times> extent_map) result" where
  "em_split_at m blocks =
     (if blocks > em_blocks m then Inl M4OutOfRange
      else em_split_loop (em_list m) blocks EXTENT_MAP_EMPTY EXTENT_MAP_EMPTY)"

section \<open>The block bitmap\<close>

record block_bitmap =
  bb_words :: "u64w list"
  bb_base_block :: nat
  bb_block_count :: nat

definition bb_new_at :: "u64w list \<Rightarrow> nat \<Rightarrow> nat \<Rightarrow> (m4_error, block_bitmap) result" where
  "bb_new_at ws base_block block_count =
     (case checked_mul (length ws) 64 of
        None \<Rightarrow> Inl M4OutOfRange
      | Some capacity \<Rightarrow>
          if block_count = 0 \<or> block_count > capacity \<or> checked_add base_block block_count = None then Inl M4Invalid
          else Inr \<lparr>bb_words = ws, bb_base_block = base_block, bb_block_count = block_count\<rparr>)"

definition bb_new :: "u64w list \<Rightarrow> nat \<Rightarrow> (m4_error, block_bitmap) result" where
  "bb_new ws block_count = bb_new_at ws 0 block_count"

text \<open>The common prefix of \<open>allocated\<close> and \<open>set\<close>: the block's index, when it is on the volume.\<close>

definition bb_relative :: "block_bitmap \<Rightarrow> nat \<Rightarrow> (m4_error, nat) result" where
  "bb_relative b block =
     (case checked_sub block (bb_base_block b) of
        None \<Rightarrow> Inl M4OutOfRange
      | Some relative \<Rightarrow> if relative < bb_block_count b then Inr relative else Inl M4OutOfRange)"

definition bb_allocated :: "block_bitmap \<Rightarrow> nat \<Rightarrow> (m4_error, bool) result" where
  "bb_allocated b block =
     (case bb_relative b block of
        Inl e \<Rightarrow> Inl e
      | Inr relative \<Rightarrow> Inr (bb_words b ! (relative div 64) AND push_bit (relative mod 64) 1 \<noteq> 0))"

definition bb_set :: "block_bitmap \<Rightarrow> nat \<Rightarrow> bool \<Rightarrow> (m4_error, unit) result \<times> block_bitmap" where
  "bb_set b block allocated =
     (case bb_relative b block of
        Inl e \<Rightarrow> (Inl e, b)
      | Inr relative \<Rightarrow>
          (let word = relative div 64; mask = push_bit (relative mod 64) 1; w = bb_words b ! word
           in (Inr (), b\<lparr>bb_words := (bb_words b)[word := if allocated then w OR mask else w AND NOT mask]\<rparr>)))"

text \<open>The two loops of \<open>reserve\<close> and \<open>release\<close>: every block must have the opposite state, then all are set.\<close>

fun bb_check :: "block_bitmap \<Rightarrow> bool \<Rightarrow> nat list \<Rightarrow> (m4_error, unit) result" where
  "bb_check b taken [] = Inr ()"
| "bb_check b taken (block # blocks) =
     (case bb_allocated b block of
        Inl e \<Rightarrow> Inl e
      | Inr a \<Rightarrow> if a = taken then Inl M4Invalid else bb_check b taken blocks)"

fun bb_set_all :: "block_bitmap \<Rightarrow> bool \<Rightarrow> nat list \<Rightarrow> (m4_error, unit) result \<times> block_bitmap" where
  "bb_set_all b v [] = (Inr (), b)"
| "bb_set_all b v (block # blocks) =
     (case bb_set b block v of
        (Inl e, b) \<Rightarrow> (Inl e, b)
      | (Inr _, b) \<Rightarrow> bb_set_all b v blocks)"

definition bb_mark :: "block_bitmap \<Rightarrow> bool \<Rightarrow> extent \<Rightarrow> (m4_error, unit) result \<times> block_bitmap" where
  "bb_mark b v extent =
     (case ex_end_block extent of
        None \<Rightarrow> (Inl M4OutOfRange, b)
      | Some e \<Rightarrow>
          if ex_block_count extent = 0 \<or> ex_start_block extent < bb_base_block b
             \<or> e > bb_base_block b + bb_block_count b
          then (Inl M4OutOfRange, b)
          else (case bb_check b v [ex_start_block extent..<e] of
                  Inl err \<Rightarrow> (Inl err, b)
                | Inr _ \<Rightarrow> bb_set_all b v [ex_start_block extent..<e]))"

definition bb_reserve :: "block_bitmap \<Rightarrow> extent \<Rightarrow> (m4_error, unit) result \<times> block_bitmap" where
  "bb_reserve b extent = bb_mark b True extent"

definition bb_release :: "block_bitmap \<Rightarrow> extent \<Rightarrow> (m4_error, unit) result \<times> block_bitmap" where
  "bb_release b extent = bb_mark b False extent"

text \<open>The scan of \<open>allocate_from\<close>, over the blocks still to visit.\<close>

fun bb_scan :: "block_bitmap \<Rightarrow> nat \<Rightarrow> nat list \<Rightarrow> nat \<Rightarrow> nat \<Rightarrow> (m4_error, extent) result \<times> block_bitmap" where
  "bb_scan b wanted [] run_start run_length = (Inl M4NoSpace, b)"
| "bb_scan b wanted (block # blocks) run_start run_length =
     (case bb_allocated b block of
        Inl e \<Rightarrow> (Inl e, b)
      | Inr a \<Rightarrow>
          if a then bb_scan b wanted blocks (saturating_add block 1) 0
          else if run_length + 1 = wanted then
            (let extent = \<lparr>ex_start_block = run_start, ex_block_count = wanted\<rparr>
             in case bb_reserve b extent of
                  (Inl e, b) \<Rightarrow> (Inl e, b)
                | (Inr _, b) \<Rightarrow> (Inr extent, b))
          else bb_scan b wanted blocks run_start (run_length + 1))"

definition bb_allocate_from :: "block_bitmap \<Rightarrow> nat \<Rightarrow> nat \<Rightarrow> (m4_error, extent) result \<times> block_bitmap" where
  "bb_allocate_from b min_block block_count =
     (if block_count = 0 \<or> block_count > bb_block_count b then (Inl M4Invalid, b)
      else (let first = max (bb_base_block b) min_block
            in bb_scan b block_count [first..<bb_base_block b + bb_block_count b] first 0))"

definition bb_allocate :: "block_bitmap \<Rightarrow> nat \<Rightarrow> (m4_error, extent) result \<times> block_bitmap" where
  "bb_allocate b block_count = bb_allocate_from b (bb_base_block b) block_count"

text \<open>The inner loop of \<open>allocate_after_prefix\<close>: halve the request while there is no run that long.\<close>

function bb_attempt :: "block_bitmap \<Rightarrow> nat \<Rightarrow> nat \<Rightarrow> (m4_error, extent) result \<times> block_bitmap" where
  "bb_attempt b minimum attempt =
     (case bb_allocate_from b minimum attempt of
        (Inr extent, b) \<Rightarrow> (Inr extent, b)
      | (Inl error, b) \<Rightarrow>
          if error = M4NoSpace \<and> attempt > 1 then bb_attempt b minimum ((attempt + 1) div 2)
          else (Inl error, b))"
  by pat_completeness auto

termination
  by (relation "measure (\<lambda>(b, minimum, attempt). attempt)") auto

declare bb_attempt.simps [simp del]

lemma em_push_nonempty: "em_push m e = (Inr u, m') \<Longrightarrow> 0 < ex_block_count e"
  by (auto simp: em_push_def split: option.splits if_splits)

text \<open>
  The outer loop: the outcome, the reservations made so far and the bitmap. \<open>allocated\<close> lists
  the blocks this call reserved, \<open>acc\<close> is the result map that starts from the prefix.
\<close>

function bb_tail_loop ::
  "block_bitmap \<Rightarrow> extent_map \<Rightarrow> extent_map \<Rightarrow> nat \<Rightarrow> nat \<Rightarrow> ((m4_error, extent_map) result \<times> extent_map) \<times> block_bitmap" where
  "bb_tail_loop b acc allocated minimum block_count =
     (if block_count = 0 then ((Inr acc, allocated), b)
      else
        (case bb_attempt b minimum (min block_count u32_max) of
           (Inl error, b) \<Rightarrow> ((Inl error, allocated), b)
         | (Inr extent, b) \<Rightarrow>
             (case em_push allocated extent of
                (Inl error, _) \<Rightarrow>
                  (case bb_release b extent of
                     (Inl error', b) \<Rightarrow> ((Inl error', allocated), b)
                   | (Inr _, b) \<Rightarrow> ((Inl error, allocated), b))
              | (Inr _, allocated) \<Rightarrow>
                  (case em_push acc extent of
                     (Inl error, _) \<Rightarrow> ((Inl error, allocated), b)
                   | (Inr _, acc) \<Rightarrow>
                       (case ex_end_block extent of
                          None \<Rightarrow> ((Inl M4OutOfRange, allocated), b)
                        | Some minimum \<Rightarrow>
                            bb_tail_loop b acc allocated minimum (block_count - ex_block_count extent))))))"
  by pat_completeness auto

termination
  by (relation "measure (\<lambda>(b, acc, allocated, minimum, block_count). block_count)") (auto dest: em_push_nonempty[OF sym])

declare bb_tail_loop.simps [simp del]

fun bb_release_all :: "block_bitmap \<Rightarrow> extent list \<Rightarrow> (m4_error, unit) result \<times> block_bitmap" where
  "bb_release_all b [] = (Inr (), b)"
| "bb_release_all b (e # es) =
     (case bb_release b e of
        (Inl error, b) \<Rightarrow> (Inl error, b)
      | (Inr _, b) \<Rightarrow> bb_release_all b es)"

definition bb_allocate_after_prefix ::
  "block_bitmap \<Rightarrow> extent_map \<Rightarrow> nat \<Rightarrow> (m4_error, extent_map) result \<times> block_bitmap" where
  "bb_allocate_after_prefix b prefix block_count =
     (case (if em_list prefix = [] then Some (bb_base_block b) else ex_end_block (last (em_list prefix))) of
        None \<Rightarrow> (Inl M4OutOfRange, b)
      | Some minimum \<Rightarrow>
          (case bb_tail_loop b prefix EXTENT_MAP_EMPTY minimum block_count of
             ((Inr m, _), b) \<Rightarrow> (Inr m, b)
           | ((Inl error, allocated), b) \<Rightarrow>
               (case bb_release_all b (em_list allocated) of
                  (Inl error', b) \<Rightarrow> (Inl error', b)
                | (Inr _, b) \<Rightarrow> (Inl error, b))))"

section \<open>Extent maps as lists of blocks\<close>

definition ex_blocks :: "extent \<Rightarrow> nat list" where
  "ex_blocks e = [ex_start_block e..<ex_start_block e + ex_block_count e]"

definition em_block_list :: "extent_map \<Rightarrow> nat list" where
  "em_block_list m = concat (map ex_blocks (em_list m))"

definition ex_ok :: "extent \<Rightarrow> bool" where
  "ex_ok e \<longleftrightarrow> 0 < ex_block_count e \<and> ex_block_count e \<le> u32_max \<and> ex_start_block e + ex_block_count e < 2 ^ 64"

abbreviation ex_end :: "extent \<Rightarrow> nat" where
  "ex_end e \<equiv> ex_start_block e + ex_block_count e"

definition em_wf :: "extent_map \<Rightarrow> bool" where
  "em_wf m \<longleftrightarrow> length (em_extents m) = MAX_EXTENTS \<and> em_count m \<le> MAX_EXTENTS
     \<and> drop (em_count m) (em_extents m) = replicate (MAX_EXTENTS - em_count m) EXTENT_EMPTY
     \<and> list_all ex_ok (em_list m) \<and> sorted_wrt (\<lambda>a b. ex_end a < ex_start_block b) (em_list m)"

lemma em_wf_EMPTY [simp]: "em_wf EXTENT_MAP_EMPTY" "em_list EXTENT_MAP_EMPTY = []" "em_block_list EXTENT_MAP_EMPTY = []"
  by (simp_all add: em_wf_def em_list_def EXTENT_MAP_EMPTY_def em_block_list_def)

lemma ex_blocks_simps [simp]: "length (ex_blocks e) = ex_block_count e" "set (ex_blocks e) = {ex_start_block e..<ex_end e}"
  by (simp_all add: ex_blocks_def)

lemma em_list_length [simp]: "em_wf m \<Longrightarrow> length (em_list m) = em_count m"
  by (simp add: em_wf_def em_list_def)

lemma em_block_list_length: "length (em_block_list m) = em_blocks m"
  by (simp add: em_block_list_def em_blocks_def length_concat comp_def)

lemma concat_blocks_distinct:
  "sorted_wrt (\<lambda>a b. ex_end a < ex_start_block b) es \<Longrightarrow> distinct (concat (map ex_blocks es))"
proof (induction es)
  case (Cons e es)
  then have "set (ex_blocks e) \<inter> set (concat (map ex_blocks es)) = {}" by fastforce
  then show ?case using Cons by (simp add: ex_blocks_def)
qed simp

lemma em_block_list_distinct: "em_wf m \<Longrightarrow> distinct (em_block_list m)"
  by (simp add: em_wf_def em_block_list_def concat_blocks_distinct)

text \<open>A well-formed map is determined by its list of extents.\<close>

lemma em_wf_eqI: "em_wf m \<Longrightarrow> em_wf m' \<Longrightarrow> em_list m = em_list m' \<Longrightarrow> m = m'"
proof -
  assume w: "em_wf m" "em_wf m'" and l: "em_list m = em_list m'"
  then have c: "em_count m = em_count m'" using em_list_length by metis
  then have "em_extents m = em_extents m'"
    using l w append_take_drop_id[of "em_count m" "em_extents m"] append_take_drop_id[of "em_count m'" "em_extents m'"]
    by (simp add: em_list_def em_wf_def)
  with c show ?thesis by simp
qed

lemma em_append_ok:
  assumes w: "em_wf m" and e: "ex_ok e" and gap: "\<forall>x \<in> set (em_list m). ex_end x < ex_start_block e" and c: "em_count m \<noteq> MAX_EXTENTS"
  obtains m' where "em_append m e (ex_end e) = (Inr (), m')" "em_wf m'" "em_list m' = em_list m @ [e]"
proof -
  let ?m = "\<lparr>em_extents = (em_extents m)[em_count m := e], em_count = em_count m + 1\<rparr>"
  have n: "em_count m < length (em_extents m)" using w c by (simp add: em_wf_def)
  have l: "em_list ?m = em_list m @ [e]" using n by (simp add: em_list_def take_Suc_conv_app_nth)
  have "drop (Suc (em_count m)) (em_extents m) = replicate (MAX_EXTENTS - Suc (em_count m)) EXTENT_EMPTY"
    using w n by (simp add: em_wf_def drop_Suc flip: tl_drop)
  then have "em_wf ?m"
    using w e gap n unfolding em_wf_def l by (simp add: sorted_wrt_append list_all_iff)
  then show ?thesis using that[of ?m] l c by (simp add: em_append_def)
qed

lemma em_last:
  assumes "em_wf m" "em_list m \<noteq> []"
  shows "ex_ok (last (em_list m))" "last (em_list m) = em_extents m ! (em_count m - 1)" "0 < em_count m" "em_count m \<le> length (em_extents m)"
    "\<forall>x \<in> set (em_list m). ex_end x \<le> ex_end (last (em_list m))"
proof -
  show "ex_ok (last (em_list m))" using assms by (simp add: em_wf_def list_all_iff)
  show c: "0 < em_count m" "em_count m \<le> length (em_extents m)" using assms by (auto simp: em_list_def em_wf_def)
  then show "last (em_list m) = em_extents m ! (em_count m - 1)" using assms(2) by (simp add: em_list_def last_conv_nth)
  have "sorted_wrt (\<lambda>a b. ex_end a < ex_start_block b) (butlast (em_list m) @ [last (em_list m)])" using assms by (simp add: em_wf_def)
  then have "\<forall>x \<in> set (butlast (em_list m)). ex_end x \<le> ex_end (last (em_list m))" by (fastforce simp: sorted_wrt_append)
  moreover have "set (em_list m) = set (butlast (em_list m)) \<union> {last (em_list m)}"
    using assms(2) by (metis append_butlast_last_id list.set(1) list.set(2) set_append)
  ultimately show "\<forall>x \<in> set (em_list m). ex_end x \<le> ex_end (last (em_list m))" by auto
qed

lemma em_merge_ok:
  assumes w: "em_wf m" and ne: "em_list m \<noteq> []" and e: "ex_ok e" and adj: "ex_start_block e = ex_end (last (em_list m))"
    and fit: "ex_block_count (last (em_list m)) + ex_block_count e \<le> u32_max"
  defines "m' \<equiv> m\<lparr>em_extents := (em_extents m)[em_count m - 1 := (em_extents m ! (em_count m - 1))\<lparr>ex_block_count :=
      ex_block_count (last (em_list m)) + ex_block_count e\<rparr>]\<rparr>"
  shows "em_wf m'" "em_list m' = butlast (em_list m) @ [(last (em_list m))\<lparr>ex_block_count := ex_block_count (last (em_list m)) + ex_block_count e\<rparr>]"
    "em_block_list m' = em_block_list m @ ex_blocks e"
proof -
  note L = em_last[OF w ne]
  let ?l = "(last (em_list m))\<lparr>ex_block_count := ex_block_count (last (em_list m)) + ex_block_count e\<rparr>"
  show l: "em_list m' = butlast (em_list m) @ [?l]"
  proof -
    have "em_list m' = (em_list m)[em_count m - 1 := ?l]"
      unfolding m'_def L(2)[symmetric] by (simp add: em_list_def take_update_swap)
    moreover have "em_count m - 1 = length (em_list m) - 1" using w by simp
    ultimately show ?thesis using ne by (cases "em_list m" rule: rev_cases) simp_all
  qed
  have s: "butlast (em_list m) @ [last (em_list m)] = em_list m" using ne by simp
  then have sw: "sorted_wrt (\<lambda>a b. ex_end a < ex_start_block b) (butlast (em_list m) @ [last (em_list m)])"
    "list_all ex_ok (butlast (em_list m) @ [last (em_list m)])"
    using w by (simp_all add: em_wf_def)
  have "ex_ok ?l" using e adj fit by (simp add: ex_ok_def)
  then show "em_wf m'"
    using w sw L(3,4) unfolding em_wf_def l by (simp add: m'_def sorted_wrt_append)
  have "ex_blocks ?l = ex_blocks (last (em_list m)) @ ex_blocks e"
    using adj upt_add_eq_append[of "ex_start_block (last (em_list m))" "ex_end (last (em_list m))" "ex_block_count e"]
    by (simp add: ex_blocks_def add.assoc[symmetric])
  then have "em_block_list m' = concat (map ex_blocks (butlast (em_list m))) @ ex_blocks (last (em_list m)) @ ex_blocks e"
    by (simp add: em_block_list_def l)
  also have "\<dots> = concat (map ex_blocks (butlast (em_list m) @ [last (em_list m)])) @ ex_blocks e" by simp
  finally show "em_block_list m' = em_block_list m @ ex_blocks e" by (simp only: s em_block_list_def)
qed

text \<open>Every outcome of \<open>push\<close>.\<close>

lemma em_push_cases:
  assumes w: "em_wf m" and small: "ex_block_count e \<le> u32_max"
  obtains (fail) err where "em_push m e = (Inl err, m)"
    | (pushed) m' where "em_push m e = (Inr (), m')" "em_wf m'" "em_block_list m' = em_block_list m @ ex_blocks e" "ex_ok e"
        "\<forall>x \<in> set (em_list m). ex_end x \<le> ex_start_block e"
proof (cases "ex_end e < 2 ^ 64 \<and> 0 < ex_block_count e")
  case False
  then show ?thesis by (intro fail[of "if ex_end e < 2 ^ 64 then M4Invalid else M4OutOfRange"]) (auto simp: em_push_def ex_end_block_def checked_add_def)
next
  case True
  then have ok: "ex_ok e" using small by (simp add: ex_ok_def)
  have ee: "ex_end_block e = Some (ex_end e)" using True by (simp add: ex_end_block_def)
  show ?thesis
  proof (cases "em_list m = []")
    case nil: True
    then have "em_count m \<noteq> MAX_EXTENTS" using em_list_length[OF w] by (auto simp: MAX_EXTENTS_def)
    from em_append_ok[OF w ok _ this] nil obtain m' where "em_append m e (ex_end e) = (Inr (), m')" "em_wf m'" "em_list m' = em_list m @ [e]"
      by auto
    then show ?thesis using pushed[of m'] nil ok True ee by (simp add: em_push_def em_block_list_def)
  next
    case ne: False
    note L = em_last[OF w ne]
    have le: "ex_end_block (last (em_list m)) = Some (ex_end (last (em_list m)))" using L(1) by (simp add: ex_end_block_def ex_ok_def)
    consider "ex_start_block e < ex_end (last (em_list m))" | (adj) "ex_start_block e = ex_end (last (em_list m))"
      | (gap) "ex_start_block e > ex_end (last (em_list m))" by linarith
    then show ?thesis
    proof cases
      case 1
      then show ?thesis using ne True ee le by (intro fail[of M4Invalid]) (simp add: em_push_def Let_def)
    next
      case adj
      show ?thesis
      proof (cases "ex_block_count (last (em_list m)) + ex_block_count e \<le> u32_max")
        case True
        then show ?thesis using em_merge_ok[OF w ne ok adj True] pushed ne ok adj ee le L(5) \<open>ex_end e < 2 ^ 64 \<and> _\<close>
          by (simp add: em_push_def Let_def)
      next
        case False
        then show ?thesis using ne True ee le adj by (intro fail[of M4OutOfRange]) (simp add: em_push_def Let_def)
      qed
    next
      case gap
      show ?thesis
      proof (cases "em_count m = MAX_EXTENTS")
        case full: True
        then show ?thesis using ne True ee le gap by (intro fail[of M4TooFragmented]) (simp add: em_push_def em_append_def Let_def)
      next
        case room: False
        have "\<forall>x \<in> set (em_list m). ex_end x < ex_start_block e" using L(5) gap by (meson le_less_trans)
        from em_append_ok[OF w ok this room] obtain m' where
          "em_append m e (ex_end e) = (Inr (), m')" "em_wf m'" "em_list m' = em_list m @ [e]" by auto
        moreover have "\<forall>x \<in> set (em_list m). ex_end x \<le> ex_start_block e" using L(5) gap by (meson le_trans less_imp_le)
        ultimately show ?thesis using pushed[of m'] ne True ee le gap ok by (simp add: em_push_def Let_def em_block_list_def)
      qed
    qed
  qed
qed

lemma em_push_append:
  assumes w: "em_wf m" and e: "ex_ok e" and gap: "\<forall>x \<in> set (em_list m). ex_end x < ex_start_block e" and c: "em_count m \<noteq> MAX_EXTENTS"
  obtains m' where "em_push m e = (Inr (), m')" "em_wf m'" "em_list m' = em_list m @ [e]"
proof -
  obtain m' where m': "em_append m e (ex_end e) = (Inr (), m')" "em_wf m'" "em_list m' = em_list m @ [e]"
    by (rule em_append_ok[OF assms])
  have ee: "ex_end_block e = Some (ex_end e)" "0 < ex_block_count e" using e by (simp_all add: ex_end_block_def ex_ok_def)
  have "em_push m e = em_append m e (ex_end e)"
  proof (cases "em_list m = []")
    case False
    have "ex_end (last (em_list m)) < ex_start_block e" using gap False by simp
    moreover have "ex_end_block (last (em_list m)) = Some (ex_end (last (em_list m)))"
      using em_last(1)[OF w False] by (simp add: ex_end_block_def ex_ok_def)
    ultimately show ?thesis using False ee by (simp add: em_push_def Let_def)
  qed (use ee in \<open>simp add: em_push_def\<close>)
  then show ?thesis using that m' by simp
qed

section \<open>Lookup and splitting\<close>

lemma extent_eta [simp]: "\<lparr>ex_start_block = ex_start_block e, ex_block_count = ex_block_count e\<rparr> = e" for e :: extent
  by simp

lemma em_locate_nth:
  "list_all ex_ok es \<Longrightarrow> em_locate es r = (if r < length (concat (map ex_blocks es)) then Some (concat (map ex_blocks es) ! r) else None)"
proof (induction es arbitrary: r)
  case (Cons e es)
  show ?case
  proof (cases "r < ex_block_count e")
    case True
    then have "ex_start_block e + r < 2 ^ 64" using Cons.prems by (simp add: ex_ok_def)
    then show ?thesis using True by (simp add: nth_append) (simp add: ex_blocks_def)
  next
    case False
    then show ?thesis using Cons by (auto simp: nth_append)
  qed
qed simp

abbreviation below :: "extent list \<Rightarrow> extent list \<Rightarrow> bool" where
  "below xs ys \<equiv> \<forall>x \<in> set xs. \<forall>y \<in> set ys. ex_end x < ex_start_block y"

lemma em_push_step:
  assumes "em_wf m" "ex_ok e" "below (em_list m) [e]" "em_count m < MAX_EXTENTS"
  obtains m' where "em_push m e = (Inr (), m')" "em_wf m'" "em_list m' = em_list m @ [e]" "em_count m' = em_count m + 1"
    "em_block_list m' = em_block_list m @ ex_blocks e"
proof -
  obtain m' where m': "em_push m e = (Inr (), m')" "em_wf m'" "em_list m' = em_list m @ [e]"
    by (rule em_push_append[of m e]) (use assms in auto)
  then have "em_count m' = em_count m + 1" using em_list_length[OF assms(1)] em_list_length[OF m'(2)] by simp
  then show ?thesis using that m' by (simp add: em_block_list_def)
qed

lemma em_split_loop_ok:
  assumes "em_wf p" "em_wf s" "list_all ex_ok es" "sorted_wrt (\<lambda>a b. ex_end a < ex_start_block b) es"
    "below (em_list p) es" "below (em_list s) es" "em_list s = [] \<or> r = 0"
    "em_count p + length es \<le> MAX_EXTENTS" "em_count s + length es \<le> MAX_EXTENTS"
  shows "\<exists>p' s'. em_split_loop es r p s = Inr (p', s') \<and> em_wf p' \<and> em_wf s'
    \<and> em_block_list p' = em_block_list p @ take r (concat (map ex_blocks es))
    \<and> em_block_list s' = em_block_list s @ drop r (concat (map ex_blocks es))"
  using assms
proof (induction es arbitrary: r p s)
  case (Cons e es)
  have e: "ex_ok e" "0 < ex_block_count e" "ex_end e < 2 ^ 64" using Cons.prems(3) by (simp_all add: ex_ok_def)
  have after: "below [e] es" using Cons.prems(4) by simp
  note es = Cons.prems(3,4)[simplified]
  consider (whole) "ex_block_count e \<le> r" | (cut) "0 < r" "r < ex_block_count e" | (none) "r = 0" by linarith
  then show ?case
  proof cases
    case whole
    have s: "em_list s = []" using Cons.prems(7) whole e(2) by auto
    obtain p' where p': "em_push p e = (Inr (), p')" "em_wf p'" "em_list p' = em_list p @ [e]" "em_count p' = em_count p + 1"
      "em_block_list p' = em_block_list p @ ex_blocks e"
      by (rule em_push_step[of p e]) (use Cons.prems e in auto)
    have "em_split_loop (e # es) r p s = em_split_loop es (r - ex_block_count e) p' s"
      using whole e(2) p'(1) by (simp add: Let_def min_def)
    moreover from Cons.IH[of p' s "r - ex_block_count e"] obtain q t where
      "em_split_loop es (r - ex_block_count e) p' s = Inr (q, t)" "em_wf q" "em_wf t"
      "em_block_list q = em_block_list p' @ take (r - ex_block_count e) (concat (map ex_blocks es))"
      "em_block_list t = em_block_list s @ drop (r - ex_block_count e) (concat (map ex_blocks es))"
      using Cons.prems es p' after s by auto
    ultimately show ?thesis using p'(5) whole by simp
  next
    case cut
    have s: "em_list s = []" using Cons.prems(7) cut by auto
    let ?a = "e\<lparr>ex_block_count := r\<rparr>" and ?b = "\<lparr>ex_start_block = ex_start_block e + r, ex_block_count = ex_block_count e - r\<rparr>"
    have ab: "ex_ok ?a" "ex_ok ?b" using e cut by (auto simp: ex_ok_def)
    obtain p' where p': "em_push p ?a = (Inr (), p')" "em_wf p'" "em_list p' = em_list p @ [?a]" "em_count p' = em_count p + 1"
      "em_block_list p' = em_block_list p @ ex_blocks ?a"
      by (rule em_push_step[of p ?a]) (use Cons.prems ab in auto)
    obtain s' where s': "em_push s ?b = (Inr (), s')" "em_wf s'" "em_list s' = em_list s @ [?b]" "em_count s' = em_count s + 1"
      "em_block_list s' = em_block_list s @ ex_blocks ?b"
      by (rule em_push_step[of s ?b]) (use Cons.prems ab s in auto)
    have "em_split_loop (e # es) r p s = em_split_loop es 0 p' s'"
      using cut p'(1) s'(1) e(3) by (simp add: Let_def min_def checked_add_def)
    moreover have b2: "below (em_list p') es" "below (em_list s') es"
      using p'(3) s'(3) s Cons.prems(5) after cut by auto
    from Cons.IH[OF p'(2) s'(2) _ _ b2, of 0] obtain q t where
      "em_split_loop es 0 p' s' = Inr (q, t)" "em_wf q" "em_wf t" "em_block_list q = em_block_list p'"
      "em_block_list t = em_block_list s' @ concat (map ex_blocks es)"
      using Cons.prems es p'(4) s'(4) by auto
    moreover have "ex_blocks ?a = take r (ex_blocks e)" "ex_blocks ?b = drop r (ex_blocks e)"
      using cut by (simp_all add: ex_blocks_def)
    ultimately show ?thesis using p'(5) s'(5) cut by simp
  next
    case none
    obtain s' where s': "em_push s e = (Inr (), s')" "em_wf s'" "em_list s' = em_list s @ [e]" "em_count s' = em_count s + 1"
      "em_block_list s' = em_block_list s @ ex_blocks e"
      by (rule em_push_step[of s e]) (use Cons.prems e in auto)
    have "em_split_loop (e # es) r p s = em_split_loop es 0 p s'"
      using none e(2,3) s'(1) by (simp add: Let_def checked_add_def)
    moreover from Cons.IH[of p s' 0] obtain q t where
      "em_split_loop es 0 p s' = Inr (q, t)" "em_wf q" "em_wf t" "em_block_list q = em_block_list p"
      "em_block_list t = em_block_list s' @ concat (map ex_blocks es)"
      using Cons.prems es s' after by auto
    ultimately show ?thesis using s'(5) none by simp
  qed
qed simp

lemma em_split_at_ok:
  assumes w: "em_wf m" and n: "n \<le> em_blocks m"
  shows "\<exists>p s. em_split_at m n = Inr (p, s) \<and> em_wf p \<and> em_wf s
    \<and> em_block_list p = take n (em_block_list m) \<and> em_block_list s = drop n (em_block_list m)"
proof -
  have z: "em_count EXTENT_MAP_EMPTY = 0" by (simp add: EXTENT_MAP_EMPTY_def)
  have "list_all ex_ok (em_list m)" "sorted_wrt (\<lambda>a b. ex_end a < ex_start_block b) (em_list m)" "em_count m \<le> MAX_EXTENTS"
    using w by (simp_all add: em_wf_def)
  from em_split_loop_ok[OF em_wf_EMPTY(1) em_wf_EMPTY(1) this(1,2), of n] this(3)
  show ?thesis using n em_list_length[OF w] by (simp add: em_split_at_def z em_block_list_def)
qed

section \<open>The bitmap as a set of blocks\<close>

definition bb_bit :: "block_bitmap \<Rightarrow> nat \<Rightarrow> bool" where
  "bb_bit b i \<longleftrightarrow> bb_words b ! (i div 64) AND push_bit (i mod 64) 1 \<noteq> 0"

definition bb_wf :: "block_bitmap \<Rightarrow> bool" where
  "bb_wf b \<longleftrightarrow> 0 < bb_block_count b \<and> bb_block_count b \<le> 64 * length (bb_words b) \<and> bb_base_block b + bb_block_count b < 2 ^ 64"

abbreviation bb_range :: "block_bitmap \<Rightarrow> nat set" where
  "bb_range b \<equiv> {bb_base_block b..<bb_base_block b + bb_block_count b}"

definition bb_used :: "block_bitmap \<Rightarrow> nat set" where
  "bb_used b = {x \<in> bb_range b. bb_bit b (x - bb_base_block b)}"

abbreviation bb_same_volume :: "block_bitmap \<Rightarrow> block_bitmap \<Rightarrow> bool" where
  "bb_same_volume b b' \<equiv> bb_base_block b' = bb_base_block b \<and> bb_block_count b' = bb_block_count b
     \<and> length (bb_words b') = length (bb_words b)"

lemma bb_wf_same: "bb_same_volume b b' \<Longrightarrow> bb_wf b' = bb_wf b"
  by (simp add: bb_wf_def)

lemma bb_relative_simps:
  "x \<in> bb_range b \<Longrightarrow> bb_relative b x = Inr (x - bb_base_block b)" "x \<notin> bb_range b \<Longrightarrow> bb_relative b x = Inl M4OutOfRange"
  by (auto simp: bb_relative_def checked_sub_def)

lemma bb_allocated_used:
  "bb_allocated b x = (if x \<in> bb_range b then Inr (x \<in> bb_used b) else Inl M4OutOfRange)"
  by (simp add: bb_allocated_def bb_relative_simps bb_used_def bb_bit_def del: atLeastLessThan_iff)

definition bb_put :: "block_bitmap \<Rightarrow> nat \<Rightarrow> bool \<Rightarrow> block_bitmap" where
  "bb_put b i v = snd (bb_set b (bb_base_block b + i) v)"

lemma bb_put_same: "bb_same_volume b (bb_put b i v)"
  by (auto simp: bb_put_def bb_set_def Let_def split: sum.split)

lemma bb_bit_put:
  assumes "i < bb_block_count b" "i div 64 < length (bb_words b)" "j div 64 < length (bb_words b)"
  shows "bb_bit (bb_put b i v) j = (if j = i then v else bb_bit b j)"
proof -
  have ij: "j = i \<longleftrightarrow> j div 64 = i div 64 \<and> j mod 64 = i mod 64" by (metis div_mult_mod_eq)
  have r: "bb_relative b (bb_base_block b + i) = Inr i" using assms(1) by (simp add: bb_relative_simps)
  have m: "i mod 64 < LENGTH(64)" by simp
  have w: "bb_words (bb_put b i v) = (bb_words b)[i div 64 := if v then bb_words b ! (i div 64) OR push_bit (i mod 64) 1
      else bb_words b ! (i div 64) AND NOT (push_bit (i mod 64) 1)]"
    by (simp add: bb_put_def bb_set_def r Let_def)
  show ?thesis
  proof (cases "j div 64 = i div 64")
    case True
    then have "j = i \<longleftrightarrow> j mod 64 = i mod 64" using ij by blast
    then show ?thesis
      using True assms(2) mask_set[OF m, of "bb_words b ! (i div 64)" "j mod 64"] mask_clear[OF m, of "bb_words b ! (i div 64)" "j mod 64"]
      unfolding bb_bit_def mask_test w by (auto split: if_splits)
  next
    case False
    then have "j \<noteq> i" by auto
    then show ?thesis using False by (simp add: bb_bit_def w)
  qed
qed

text \<open>The bitmap implements the contract of single-bit updates.\<close>

interpretation bb: bitmap bb_bit bb_put "\<lambda>b. min (bb_block_count b) (64 * length (bb_words b))"
proof
  fix i j v and b :: block_bitmap assume "i < min (bb_block_count b) (64 * length (bb_words b))" "j < min (bb_block_count b) (64 * length (bb_words b))"
  then show "bb_bit (bb_put b i v) j = (if j = i then v else bb_bit b j)"
    by (intro bb_bit_put) (auto simp: less_mult_imp_div_less mult.commute)
qed (simp add: bb_put_same)

lemma bb_set_all_fold:
  "set xs \<subseteq> bb_range b \<Longrightarrow>
   bb_set_all b v xs = (Inr (), fold (\<lambda>i b. bb_put b i v) (map (\<lambda>x. x - bb_base_block b) xs) b)"
proof (induction xs arbitrary: b)
  case (Cons x xs)
  then have x: "bb_base_block b \<le> x" "x < bb_base_block b + bb_block_count b" by auto
  have "bb_set b x v = (Inr (), bb_put b (x - bb_base_block b) v)"
    using x by (simp add: bb_put_def) (simp add: bb_set_def bb_relative_simps Let_def)
  moreover have "bb_set_all (bb_put b (x - bb_base_block b) v) v xs =
      (Inr (), fold (\<lambda>i b. bb_put b i v) (map (\<lambda>x. x - bb_base_block b) xs) (bb_put b (x - bb_base_block b) v))"
    using Cons.IH[of "bb_put b (x - bb_base_block b) v"] Cons.prems bb_put_same[of b "x - bb_base_block b" v] by simp
  ultimately show ?case by simp
qed simp

lemma bb_fold_same: "bb_same_volume b (fold (\<lambda>i b. bb_put b i v) is b)"
  by (induction "is" arbitrary: b) (simp_all add: bb_put_same)

lemma bb_set_all_used:
  assumes w: "bb_wf b" and xs: "set xs \<subseteq> bb_range b"
  obtains b' where "bb_set_all b v xs = (Inr (), b')" "bb_same_volume b b'"
    "bb_used b' = (if v then bb_used b \<union> set xs else bb_used b - set xs)"
proof -
  let ?is = "map (\<lambda>x. x - bb_base_block b) xs"
  let ?b = "fold (\<lambda>i b. bb_put b i v) ?is b"
  have bits: "min (bb_block_count b) (64 * length (bb_words b)) = bb_block_count b" using w by (simp add: bb_wf_def)
  have lt: "\<forall>i \<in> set ?is. i < bb_block_count b" using xs by fastforce
  have g: "bb_bit ?b (x - bb_base_block b) = (if x \<in> set xs then v else bb_bit b (x - bb_base_block b))" if x: "x \<in> bb_range b" for x
  proof -
    have "x - bb_base_block b \<in> set ?is \<longleftrightarrow> x \<in> set xs"
    proof
      assume "x - bb_base_block b \<in> set ?is"
      then obtain y where y: "y \<in> set xs" "x - bb_base_block b = y - bb_base_block b" by auto
      then have "x = y" using x subsetD[OF xs y(1)] by (auto simp: eq_diff_iff)
      then show "x \<in> set xs" using y by simp
    qed simp
    moreover have "x - bb_base_block b < bb_block_count b" using x by auto
    ultimately show ?thesis using bb.get_fill[of ?is b "x - bb_base_block b" v] lt unfolding bits by simp
  qed
  have "bb_used ?b = (if v then bb_used b \<union> set xs else bb_used b - set xs)"
    using g bb_fold_same[of v ?is b] xs unfolding bb_used_def by (auto split: if_splits)
  then show ?thesis using that[of ?b] bb_set_all_fold[OF xs, of v] bb_fold_same[of v ?is b] by simp
qed

lemma bb_check_used:
  "set xs \<subseteq> bb_range b \<Longrightarrow> bb_check b v xs = (if \<forall>x \<in> set xs. (x \<in> bb_used b) \<noteq> v then Inr () else Inl M4Invalid)"
  by (induction xs) (auto simp: bb_allocated_used)

text \<open>Every outcome of \<open>reserve\<close> and \<open>release\<close>.\<close>

definition bb_fits :: "block_bitmap \<Rightarrow> extent \<Rightarrow> bool" where
  "bb_fits b e \<longleftrightarrow> 0 < ex_block_count e \<and> bb_base_block b \<le> ex_start_block e \<and> ex_end e \<le> bb_base_block b + bb_block_count b"

lemma bb_mark_cases:
  assumes w: "bb_wf b"
  obtains (fail) err where "bb_mark b v e = (Inl err, b)" "\<not> (bb_fits b e \<and> (\<forall>x \<in> set (ex_blocks e). (x \<in> bb_used b) \<noteq> v))"
    | (marked) b' where "bb_mark b v e = (Inr (), b')" "bb_fits b e" "\<forall>x \<in> set (ex_blocks e). (x \<in> bb_used b) \<noteq> v"
        "bb_same_volume b b'" "bb_used b' = (if v then bb_used b \<union> set (ex_blocks e) else bb_used b - set (ex_blocks e))"
proof (cases "bb_fits b e")
  case False
  then show ?thesis by (intro fail[of M4OutOfRange]) (auto simp: bb_mark_def bb_fits_def ex_end_block_def split: option.split)
next
  case fits: True
  then have ee: "ex_end_block e = Some (ex_end e)" using w by (simp add: ex_end_block_def bb_fits_def bb_wf_def)
  have sub: "set (ex_blocks e) \<subseteq> bb_range b" using fits by (auto simp: bb_fits_def)
  have m: "bb_mark b v e = (case bb_check b v (ex_blocks e) of Inl err \<Rightarrow> (Inl err, b) | Inr _ \<Rightarrow> bb_set_all b v (ex_blocks e))"
    using fits ee unfolding ex_blocks_def by (simp add: bb_mark_def bb_fits_def)
  show ?thesis
  proof (cases "\<forall>x \<in> set (ex_blocks e). (x \<in> bb_used b) \<noteq> v")
    case True
    obtain b' where "bb_set_all b v (ex_blocks e) = (Inr (), b')" "bb_same_volume b b'"
      "bb_used b' = (if v then bb_used b \<union> set (ex_blocks e) else bb_used b - set (ex_blocks e))"
      by (rule bb_set_all_used[OF w sub, of v]) (rule that)
    then show ?thesis using marked[of b'] True fits m bb_check_used[OF sub, of v] by simp
  next
    case False
    then have "bb_check b v (ex_blocks e) = Inl M4Invalid" using bb_check_used[OF sub, of v] by (simp only: if_False)
    then show ?thesis using fail[of M4Invalid] m False by simp
  qed
qed

section \<open>Allocation\<close>

text \<open>A window of \<open>n\<close> blocks from \<open>x\<close> holds a used block.\<close>

abbreviation blocked :: "block_bitmap \<Rightarrow> nat \<Rightarrow> nat \<Rightarrow> bool" where
  "blocked b n x \<equiv> \<exists>k. x \<le> k \<and> k < x + n \<and> k \<in> bb_used b"

lemma blocked_iff: "blocked b n k \<longleftrightarrow> {k..<k + n} \<inter> bb_used b \<noteq> {}"
  by auto

definition first_fit :: "block_bitmap \<Rightarrow> nat \<Rightarrow> nat \<Rightarrow> nat \<Rightarrow> (m4_error, extent) result \<times> block_bitmap \<Rightarrow> bool" where
  "first_fit b n first E res \<longleftrightarrow>
     (\<exists>b' e. res = (Inr e, b') \<and> ex_block_count e = n \<and> first \<le> ex_start_block e \<and> bb_fits b e
        \<and> set (ex_blocks e) \<inter> bb_used b = {} \<and> (\<forall>k. first \<le> k \<and> k < ex_start_block e \<longrightarrow> blocked b n k)
        \<and> bb_same_volume b b' \<and> bb_used b' = bb_used b \<union> set (ex_blocks e))
     \<or> res = (Inl M4NoSpace, b) \<and> (\<forall>k. first \<le> k \<and> k + n \<le> E \<longrightarrow> blocked b n k)"

lemma bb_scan_cases:
  assumes w: "bb_wf b" and x: "bb_base_block b \<le> first" "first \<le> rs" "rs \<le> x" "x \<le> E" "E = bb_base_block b + bb_block_count b"
    and n: "x - rs < n" and free: "\<forall>k. rs \<le> k \<and> k < x \<longrightarrow> k \<notin> bb_used b"
    and low: "\<forall>k. first \<le> k \<and> k < rs \<longrightarrow> blocked b n k"
  shows "first_fit b n first E (bb_scan b n [x..<E] rs (x - rs))"
  using x(3,4) n free low x(2)
proof (induction "E - x" arbitrary: x rs)
  case 0
  then have "x = E" by simp
  moreover have "blocked b n k" if "first \<le> k" "k + n \<le> E" for k
  proof -
    have "k < rs" using that 0(4) \<open>x = E\<close> 0(2) by linarith
    then show ?thesis using 0(6) that(1) by blast
  qed
  ultimately show ?case by (auto simp: first_fit_def)
next
  case (Suc d)
  then have lt: "x < E" and up: "[x..<E] = x # [Suc x..<E]" by (simp_all add: upt_rec)
  have al: "bb_allocated b x = Inr (x \<in> bb_used b)" using lt x(1,5) Suc.prems(1,6) by (simp add: bb_allocated_used)
  show ?case
  proof (cases "x \<in> bb_used b")
    case True
    have sat: "saturating_add x 1 = Suc x" using lt x(5) w by (simp add: saturating_add_def bb_wf_def u64_max_def)
    have low': "\<forall>k. first \<le> k \<and> k < Suc x \<longrightarrow> blocked b n k"
    proof (intro allI impI)
      fix k assume k: "first \<le> k \<and> k < Suc x"
      show "blocked b n k"
      proof (cases "k < rs")
        case False
        then have "k \<le> x" "x < k + n" using k Suc.prems(3) by auto
        then show ?thesis using True by blast
      qed (use Suc.prems(5) k in blast)
    qed
    have "bb_scan b n [x..<E] rs (x - rs) = bb_scan b n [Suc x..<E] (Suc x) (Suc x - Suc x)" using True al sat by (simp add: up)
    moreover have "first_fit b n first E (bb_scan b n [Suc x..<E] (Suc x) (Suc x - Suc x))"
      by (rule Suc.hyps(1)) (use Suc.hyps(2) lt Suc.prems(1,3,6) low' in auto)
    ultimately show ?thesis by simp
  next
    case False
    have free': "\<forall>k. rs \<le> k \<and> k < Suc x \<longrightarrow> k \<notin> bb_used b" using Suc.prems(4) False by (auto simp: less_Suc_eq)
    show ?thesis
    proof (cases "x - rs + 1 = n")
      case True
      let ?e = "\<lparr>ex_start_block = rs, ex_block_count = n\<rparr>"
      have ends: "rs + n = Suc x" using True Suc.prems(1) by simp
      have fits: "bb_fits b ?e" using ends True lt x(1,5) Suc.prems(6) by (simp add: bb_fits_def)
      have fr: "\<forall>k \<in> set (ex_blocks ?e). (k \<in> bb_used b) \<noteq> True" using free' ends by auto
      obtain b' where b': "bb_mark b True ?e = (Inr (), b')" "bb_same_volume b b'" "bb_used b' = bb_used b \<union> set (ex_blocks ?e)"
        by (rule bb_mark_cases[OF w, of True ?e]) (use fits fr that in auto)
      have "bb_scan b n [x..<E] rs (x - rs) = (Inr ?e, b')" using False True al b'(1) by (simp add: up bb_reserve_def)
      then show ?thesis using b' fits fr Suc.prems(5,6) unfolding first_fit_def
        by (intro disjI1 exI[of _ b'] exI[of _ ?e]) auto
    next
      case step: False
      have "bb_scan b n [x..<E] rs (x - rs) = bb_scan b n [Suc x..<E] rs (Suc x - rs)"
        using False step al Suc.prems(1) by (simp add: up Suc_diff_le)
      moreover have "Suc x - rs < n" using step Suc.prems(1,3) by linarith
      then have "first_fit b n first E (bb_scan b n [Suc x..<E] rs (Suc x - rs))"
        by (intro Suc.hyps(1)) (use Suc.hyps(2) lt Suc.prems(1,5,6) free' in auto)
      ultimately show ?thesis by simp
    qed
  qed
qed

lemma bb_allocate_from_cases:
  assumes w: "bb_wf b"
  obtains (invalid) "bb_allocate_from b m n = (Inl M4Invalid, b)" "n = 0 \<or> n > bb_block_count b"
    | (nospace) "bb_allocate_from b m n = (Inl M4NoSpace, b)" "0 < n"
        "\<forall>k. max (bb_base_block b) m \<le> k \<and> k + n \<le> bb_base_block b + bb_block_count b \<longrightarrow> blocked b n k"
    | (found) e b' where "bb_allocate_from b m n = (Inr e, b')" "0 < n" "ex_block_count e = n" "m \<le> ex_start_block e" "bb_fits b e"
        "set (ex_blocks e) \<inter> bb_used b = {}" "\<forall>k. max (bb_base_block b) m \<le> k \<and> k < ex_start_block e \<longrightarrow> blocked b n k"
        "bb_same_volume b b'" "bb_used b' = bb_used b \<union> set (ex_blocks e)"
proof (cases "n = 0 \<or> n > bb_block_count b")
  case True
  then show ?thesis using invalid by (simp add: bb_allocate_from_def)
next
  case False
  let ?E = "bb_base_block b + bb_block_count b" and ?f = "max (bb_base_block b) m"
  have eq: "bb_allocate_from b m n = bb_scan b n [?f..<?E] ?f 0" using False by (simp add: bb_allocate_from_def Let_def)
  show ?thesis
  proof (cases "?f \<le> ?E")
    case True
    have n: "0 < n" using False by simp
    have "first_fit b n ?f ?E (bb_scan b n [?f..<?E] ?f (?f - ?f))"
      by (rule bb_scan_cases[OF w]) (use True n in auto)
    then have "first_fit b n ?f ?E (bb_allocate_from b m n)" by (simp add: eq)
    then show ?thesis unfolding first_fit_def
    proof (elim disjE exE conjE)
      fix b' e assume "bb_allocate_from b m n = (Inr e, b')" "ex_block_count e = n" "?f \<le> ex_start_block e" "bb_fits b e"
        "set (ex_blocks e) \<inter> bb_used b = {}" "\<forall>k. ?f \<le> k \<and> k < ex_start_block e \<longrightarrow> blocked b n k"
        "bb_base_block b' = bb_base_block b" "bb_block_count b' = bb_block_count b" "length (bb_words b') = length (bb_words b)"
        "bb_used b' = bb_used b \<union> set (ex_blocks e)"
      then show ?thesis by (intro found[of e b'] n) simp_all
    qed (rule nospace[OF _ n])
  next
    case out: False
    then have nil: "[?f..<?E] = []" by simp
    have "bb_allocate_from b m n = (Inl M4NoSpace, b)" unfolding eq nil by simp
    then show ?thesis by (rule nospace) (use False out in auto)
  qed
qed

lemma bb_attempt_cases:
  assumes w: "bb_wf b"
  obtains (fail) err where "bb_attempt b m n = (Inl err, b)"
    | (found) e b' where "bb_attempt b m n = (Inr e, b')" "0 < ex_block_count e" "ex_block_count e \<le> n" "m \<le> ex_start_block e" "bb_fits b e"
        "set (ex_blocks e) \<inter> bb_used b = {}" "bb_same_volume b b'" "bb_used b' = bb_used b \<union> set (ex_blocks e)"
proof (induction n arbitrary: thesis rule: less_induct)
  case (less n)
  show ?case
  proof (cases rule: bb_allocate_from_cases[OF w, of m n])
    case invalid: 1
    then show ?thesis using less.prems(1)[of M4Invalid] by (simp add: bb_attempt.simps[of b m n])
  next
    case nospace: 2
    show ?thesis
    proof (cases "n > 1")
      case True
      then have eq: "bb_attempt b m n = bb_attempt b m ((n + 1) div 2)" using nospace(1) by (simp add: bb_attempt.simps[of b m n])
      have "(n + 1) div 2 < n" using True by simp
      from less.IH[OF this] show ?thesis
      proof cases
        case (2 e b')
        then show ?thesis using less.prems(2)[of e b'] eq True by simp
      qed (use less.prems(1) eq in simp)
    next
      case False
      then show ?thesis using nospace(1) less.prems(1)[of M4NoSpace] by (simp add: bb_attempt.simps[of b m n])
    qed
  next
    case found: (3 e b')
    then show ?thesis using less.prems(2)[of e b'] by (simp add: bb_attempt.simps[of b m n])
  qed
qed

text \<open>
  The state of the tail loop: the bitmap holds the blocks used before and exactly the blocks
  recorded in \<open>allocated\<close>, and the result map lists them after the prefix.
\<close>

definition tail_inv :: "nat set \<Rightarrow> block_bitmap \<Rightarrow> extent_map \<Rightarrow> bool" where
  "tail_inv U b allocated \<longleftrightarrow> bb_wf b \<and> em_wf allocated \<and> bb_used b = U \<union> set (em_block_list allocated)
     \<and> set (em_block_list allocated) \<inter> U = {} \<and> set (em_block_list allocated) \<subseteq> bb_range b"

lemma bb_release_undo:
  assumes w: "bb_wf b" and b: "bb_same_volume b b'" "bb_used b' = bb_used b \<union> set (ex_blocks e)" and f: "bb_fits b e"
    and d: "set (ex_blocks e) \<inter> bb_used b = {}"
  obtains b'' where "bb_release b' e = (Inr (), b'')" "bb_same_volume b b''" "bb_used b'' = bb_used b"
proof -
  have w': "bb_wf b'" using w bb_wf_same[OF b(1)] by simp
  have f': "bb_fits b' e" using f b(1) by (simp add: bb_fits_def)
  show ?thesis
    by (rule bb_mark_cases[OF w', of False e]) (use f' b d that in \<open>auto simp: bb_release_def\<close>)
qed

lemma bb_tail_loop_ok:
  assumes "tail_inv U b al" "em_wf acc" "em_block_list acc = pre @ em_block_list al"
  obtains (fail) err al' b' where "bb_tail_loop b acc al m n = ((Inl err, al'), b')" "tail_inv U b' al'" "bb_same_volume b b'"
    | (ready) acc' al' b' where "bb_tail_loop b acc al m n = ((Inr acc', al'), b')" "tail_inv U b' al'" "em_wf acc'" "bb_same_volume b b'"
        "em_block_list acc' = pre @ em_block_list al'" "length (em_block_list al') = length (em_block_list al) + n"
  using assms
proof (induction n arbitrary: thesis b acc al m rule: less_induct)
  case (less n)
  note T = less.prems(3)[unfolded tail_inv_def]
  have w: "bb_wf b" and wa: "em_wf al" using T by auto
  show ?case
  proof (cases "n = 0")
    case True
    then have "bb_tail_loop b acc al m n = ((Inr acc, al), b)" by (subst bb_tail_loop.simps) simp
    then show ?thesis using less.prems(2)[of acc al b] less.prems(3-5) True by simp
  next
    case n: False
    note loop = bb_tail_loop.simps[of b acc al m n]
    show ?thesis
    proof (cases rule: bb_attempt_cases[OF w, of m "min n u32_max"])
      case fail: (1 err)
      then show ?thesis using less.prems(1)[of err al b] less.prems(3) n by (simp add: loop)
    next
      case found: (2 e b1)
      have small: "ex_block_count e \<le> u32_max" "ex_block_count e \<le> n" using found(3) by simp_all
      have w1: "bb_wf b1" using w bb_wf_same[OF found(7)] by simp
      have sub: "set (ex_blocks e) \<subseteq> bb_range b" using found(5) by (auto simp: bb_fits_def)
      show ?thesis
      proof (cases rule: em_push_cases[OF wa small(1)])
        case f: (1 err)
        obtain b2 where b2: "bb_release b1 e = (Inr (), b2)" "bb_same_volume b b2" "bb_used b2 = bb_used b"
          by (rule bb_release_undo[OF w found(7,8,5,6)]) (rule that)
        have "tail_inv U b2 al" using T b2 bb_wf_same[OF b2(2)] by (simp add: tail_inv_def)
        then show ?thesis using less.prems(1)[of err al b2] n found(1) f b2 by (simp add: loop)
      next
        case p: (2 al1)
        have t1: "tail_inv U b1 al1" using T w1 p(2,3) found(6-8) sub unfolding tail_inv_def by auto
        show ?thesis
        proof (cases rule: em_push_cases[OF less.prems(4) small(1)])
          case f: (1 err)
          then show ?thesis using less.prems(1)[of err al1 b1] n found(1,7) p(1) t1 by (simp add: loop)
        next
          case q: (2 acc1)
          have ee: "ex_end_block e = Some (ex_end e)" using p(4) by (simp add: ex_end_block_def ex_ok_def)
          have eq: "bb_tail_loop b acc al m n = bb_tail_loop b1 acc1 al1 (ex_end e) (n - ex_block_count e)"
            using n found(1) p(1) q(1) ee by (simp add: loop)
          have a1: "em_block_list acc1 = pre @ em_block_list al1" using q(3) p(3) less.prems(5) by simp
          have "n - ex_block_count e < n" using n found(2) by simp
          from less.IH[OF this _ _ t1 q(2) a1, of "ex_end e"] show ?thesis
          proof cases
            case (1 err al2 b2)
            then show ?thesis using less.prems(1)[of err al2 b2] eq found(7) by simp
          next
            case (2 acc2 al2 b2)
            then show ?thesis using less.prems(2)[of acc2 al2 b2] eq found(7) p(3) small(2) by simp
          qed
        qed
      qed
    qed
  qed
qed

lemma bb_release_all_ok:
  assumes "bb_wf b" "list_all ex_ok es" "sorted_wrt (\<lambda>a b. ex_end a < ex_start_block b) es"
    "set (concat (map ex_blocks es)) \<subseteq> bb_used b"
  shows "\<exists>b'. bb_release_all b es = (Inr (), b') \<and> bb_same_volume b b' \<and> bb_used b' = bb_used b - set (concat (map ex_blocks es))"
  using assms
proof (induction es arbitrary: b)
  case (Cons e es)
  have e: "ex_ok e" "set (ex_blocks e) \<subseteq> bb_used b" using Cons.prems(2,4) by auto
  have "set (ex_blocks e) \<subseteq> bb_range b" using e(2) unfolding bb_used_def by blast
  moreover have "ex_start_block e \<in> set (ex_blocks e)" "ex_end e - 1 \<in> set (ex_blocks e)" using e(1) by (auto simp: ex_ok_def)
  ultimately have ends: "ex_start_block e \<in> bb_range b" "ex_end e - 1 \<in> bb_range b" by blast+
  then have f: "bb_fits b e" using e(1) by (auto simp: bb_fits_def ex_ok_def)
  obtain b1 where b1: "bb_release b e = (Inr (), b1)" "bb_same_volume b b1" "bb_used b1 = bb_used b - set (ex_blocks e)"
    by (rule bb_mark_cases[OF Cons.prems(1), of False e]) (use f e(2) that in \<open>auto simp: bb_release_def\<close>)
  have "set (ex_blocks e) \<inter> set (concat (map ex_blocks es)) = {}"
    using concat_blocks_distinct[OF Cons.prems(3)] by simp
  then have "set (concat (map ex_blocks es)) \<subseteq> bb_used b1" using Cons.prems(4) b1(3) by auto
  from Cons.IH[OF _ _ _ this] obtain b2 where
    "bb_release_all b1 es = (Inr (), b2)" "bb_same_volume b1 b2" "bb_used b2 = bb_used b1 - set (concat (map ex_blocks es))"
    using Cons.prems(1-3) bb_wf_same[OF b1(2)] by auto
  then show ?case using b1 by auto
qed simp

text \<open>Every outcome of \<open>allocate_after_prefix\<close>.\<close>

lemma bb_allocate_after_prefix_cases:
  assumes w: "bb_wf b" and p: "em_wf prefix"
  obtains (fail) err b' where "bb_allocate_after_prefix b prefix n = (Inl err, b')" "bb_same_volume b b'" "bb_used b' = bb_used b"
    | (ready) m new b' where "bb_allocate_after_prefix b prefix n = (Inr m, b')" "em_wf m" "em_block_list m = em_block_list prefix @ new"
        "length new = n" "set new \<inter> bb_used b = {}" "set new \<subseteq> bb_range b" "bb_same_volume b b'" "bb_used b' = bb_used b \<union> set new"
proof -
  obtain mn where mn: "(if em_list prefix = [] then Some (bb_base_block b) else ex_end_block (last (em_list prefix))) = Some mn"
    using em_last(1)[OF p] by (cases "em_list prefix = []") (auto simp: ex_end_block_def ex_ok_def)
  have t: "tail_inv (bb_used b) b EXTENT_MAP_EMPTY" using w by (simp add: tail_inv_def)
  have a: "em_block_list prefix = em_block_list prefix @ em_block_list EXTENT_MAP_EMPTY" by simp
  show ?thesis
  proof (cases rule: bb_tail_loop_ok[OF t p a, of mn n])
    case (1 err al b1)
    note T = 1(2)[unfolded tail_inv_def]
    obtain b2 where "bb_release_all b1 (em_list al) = (Inr (), b2)" "bb_same_volume b1 b2" "bb_used b2 = bb_used b1 - set (em_block_list al)"
      using bb_release_all_ok[of b1 "em_list al"] T by (auto simp: em_wf_def em_block_list_def)
    then show ?thesis using 1 T by (intro fail[of err b2]) (auto simp: bb_allocate_after_prefix_def mn)
  next
    case (2 m al b1)
    then show ?thesis by (intro ready[of m b1 "em_block_list al"]) (auto simp: bb_allocate_after_prefix_def mn tail_inv_def)
  qed
qed

section \<open>Properties\<close>

definition m4_sample_bitmap :: block_bitmap where
  "m4_sample_bitmap = \<lparr>bb_words = [0xb], bb_base_block = 100, bb_block_count = 10\<rparr>"

definition m4_sample_map :: extent_map where
  "m4_sample_map = \<lparr>em_extents = [\<lparr>ex_start_block = 100, ex_block_count = 2\<rparr>, \<lparr>ex_start_block = 103, ex_block_count = 1\<rparr>]
     @ replicate 12 EXTENT_EMPTY, em_count = 2\<rparr>"

lemma m4_samples: "bb_wf m4_sample_bitmap" "em_wf m4_sample_map" "em_blocks m4_sample_map = 3"
  by (simp_all add: bb_wf_def m4_sample_bitmap_def em_wf_def m4_sample_map_def MAX_EXTENTS_def em_list_def ex_ok_def u32_max_def em_blocks_def)

text \<open>C5: Copy-on-write tail allocation is all or nothing. On success the new map is the prefix followed by
  exactly the requested number of blocks, all free before and marked now; on any failure,
  fragmentation in the middle of the work included, the bitmap is what it was.\<close>

theorem m4_tail_allocation:
  assumes "bb_wf b" "em_wf prefix"
  shows "case bb_allocate_after_prefix b prefix n of
      (Inl _, b') \<Rightarrow> bb_same_volume b b' \<and> bb_used b' = bb_used b
    | (Inr m, b') \<Rightarrow> bb_same_volume b b' \<and> em_wf m
        \<and> (\<exists>new. em_block_list m = em_block_list prefix @ new \<and> length new = n \<and> distinct new
             \<and> set new \<inter> bb_used b = {} \<and> set new \<subseteq> bb_range b \<and> bb_used b' = bb_used b \<union> set new)"
proof (cases rule: bb_allocate_after_prefix_cases[OF assms, of n])
  case (2 m new b')
  then have "distinct new" using em_block_list_distinct[OF 2(2)] by simp
  then show ?thesis using 2 by auto
qed simp

theorem m4_tail_allocation_witness:
  "case bb_allocate_after_prefix m4_sample_bitmap m4_sample_map 4 of
      (Inl _, b') \<Rightarrow> bb_used b' = bb_used m4_sample_bitmap
    | (Inr m, b') \<Rightarrow> (\<exists>new. em_block_list m = em_block_list m4_sample_map @ new \<and> length new = 4)"
  using m4_tail_allocation[OF m4_samples(1,2), of 4] by (auto split: sum.splits prod.splits)

text \<open>Block allocation is first fit: it returns the lowest run of the requested length at or above the
  bound, marks exactly that run, and reports that there is no space only when every run of that
  length holds a used block.\<close>

theorem m4_allocate_lowest:
  assumes "bb_wf b" "0 < n" "n \<le> bb_block_count b"
  shows "case bb_allocate_from b m n of
      (Inr e, b') \<Rightarrow> ex_block_count e = n \<and> max (bb_base_block b) m \<le> ex_start_block e \<and> set (ex_blocks e) \<subseteq> bb_range b - bb_used b
        \<and> (\<forall>k. max (bb_base_block b) m \<le> k \<and> k < ex_start_block e \<longrightarrow> {k..<k + n} \<inter> bb_used b \<noteq> {})
        \<and> bb_used b' = bb_used b \<union> set (ex_blocks e)
    | (Inl err, b') \<Rightarrow> err = M4NoSpace \<and> b' = b
        \<and> (\<forall>k. max (bb_base_block b) m \<le> k \<and> k + n \<le> bb_base_block b + bb_block_count b \<longrightarrow> {k..<k + n} \<inter> bb_used b \<noteq> {})"
  unfolding blocked_iff[symmetric]
  by (cases rule: bb_allocate_from_cases[OF assms(1), of m n]) (use assms in \<open>auto simp: bb_fits_def\<close>)

theorem m4_allocate_lowest_witness:
  "case bb_allocate_from m4_sample_bitmap 101 2 of
      (Inr e, b') \<Rightarrow> ex_block_count e = 2 | (Inl err, b') \<Rightarrow> err = M4NoSpace"
  using m4_allocate_lowest[OF m4_samples(1), of 2 101] by (auto simp: m4_sample_bitmap_def split: sum.splits prod.splits)

text \<open>C25: An extent map is a list of device blocks: looking up a file block indexes it, and splitting it
  at \<open>n\<close> always succeeds within range and yields the first \<open>n\<close> blocks and the rest, both again
  ordered, disjoint maps of at most fourteen extents.\<close>

theorem m4_map_as_list:
  assumes "em_wf m" "n \<le> em_blocks m"
  shows "(\<forall>k. em_file_block_to_device m k = (if k < em_blocks m then Some (em_block_list m ! k) else None))
    \<and> (\<exists>p s. em_split_at m n = Inr (p, s) \<and> em_wf p \<and> em_wf s
         \<and> em_block_list p = take n (em_block_list m) \<and> em_block_list s = drop n (em_block_list m))"
  using em_split_at_ok[OF assms] em_locate_nth[of "em_list m"] assms(1) em_block_list_length[of m]
  by (auto simp: em_file_block_to_device_def em_wf_def em_block_list_def)

theorem m4_map_as_list_witness:
  "\<exists>p s. em_split_at m4_sample_map 2 = Inr (p, s) \<and> em_block_list p = take 2 (em_block_list m4_sample_map)"
  using m4_map_as_list[OF m4_samples(2), of 2] by (auto simp: m4_samples(3))

end
