(* ===== verification/Makfs4_Records.thy ===== *)
theory Makfs4_Records
  imports Makfs4_Extents Byte_Records
begin

text \<open>
  The on-disk records of MAKFS4, \<open>crates/makfs4/src/lib.rs\<close>: superblock, inode and catalog
  with their validation, encoding, decoding and CRC seal, the choice of the newest
  superblock, the directory index and the commit sequencer. Integer fields are \<^typ>\<open>nat\<close>;
  the records are 512 bytes. The lookup of the directory index follows links stored in
  arrays and is a \<open>partial_function\<close>: that it ends after a rebuild is a theorem.
\<close>

unbundle bit_operations_syntax

section \<open>Sealed records\<close>

definition RECORD_BYTES :: nat where "RECORD_BYTES = 512"
definition MAX_PATH_BYTES :: nat where "MAX_PATH_BYTES = 255"
definition FORMAT_VERSION :: nat where "FORMAT_VERSION = 4"
definition SUPER_MAGIC :: "u8 list" where "SUPER_MAGIC = [0x4d, 0x41, 0x4b, 0x46, 0x53, 0x30, 0x30, 0x34]"
definition INODE_MAGIC :: "u8 list" where "INODE_MAGIC = [0x4d, 0x41, 0x4b, 0x49, 0x4e, 0x4f, 0x44, 0x34]"
definition CATALOG_MAGIC :: "u8 list" where "CATALOG_MAGIC = [0x4d, 0x41, 0x4b, 0x43, 0x41, 0x54, 0x30, 0x34]"

definition seal :: "u8 list \<Rightarrow> u8 list" where
  "seal record' = put_u32 record' (RECORD_BYTES - 4) (unat (crc32 (take (RECORD_BYTES - 4) record')))"

definition sealed :: "u8 list \<Rightarrow> bool" where
  "sealed record' \<longleftrightarrow> unat (crc32 (take (RECORD_BYTES - 4) record')) = get_u32 record' (RECORD_BYTES - 4)"

section \<open>Superblock\<close>

record superblock =
  sb_generation :: nat
  sb_commit_id :: nat
  sb_block_count :: nat
  sb_data_start :: nat
  sb_catalog_block :: nat
  sb_bitmap_block :: nat
  sb_bitmap_blocks :: nat

definition sb_validate :: "superblock \<Rightarrow> (m4_error, superblock) result" where
  "sb_validate s =
     (case checked_add (sb_bitmap_block s) (sb_bitmap_blocks s) of
        None \<Rightarrow> Inl M4Corrupt
      | Some bitmap_end \<Rightarrow>
          if sb_generation s = 0 \<or> sb_block_count s = 0 \<or> sb_bitmap_blocks s = 0
             \<or> sb_data_start s \<ge> sb_block_count s \<or> sb_catalog_block s \<ge> sb_block_count s
             \<or> bitmap_end > sb_block_count s
             \<or> (sb_catalog_block s \<ge> sb_bitmap_block s \<and> sb_catalog_block s < bitmap_end)
          then Inl M4Corrupt else Inr s)"

definition sb_encode :: "superblock \<Rightarrow> (m4_error, u8 list) result" where
  "sb_encode s =
     (case sb_validate s of
        Inl e \<Rightarrow> Inl e
      | Inr _ \<Rightarrow>
          (let output = replicate RECORD_BYTES 0;
               output = put_at 0 SUPER_MAGIC output;
               output = put_u32 output 8 FORMAT_VERSION;
               output = put_u64 output 16 (sb_generation s);
               output = put_u64 output 24 (sb_commit_id s);
               output = put_u64 output 32 (sb_block_count s);
               output = put_u64 output 40 (sb_data_start s);
               output = put_u64 output 48 (sb_catalog_block s);
               output = put_u64 output 56 (sb_bitmap_block s);
               output = put_u32 output 64 (sb_bitmap_blocks s)
           in Inr (seal output)))"

definition sb_decode :: "u8 list \<Rightarrow> (m4_error, superblock) result" where
  "sb_decode input =
     (if take 8 input \<noteq> SUPER_MAGIC \<or> get_u32 input 8 \<noteq> FORMAT_VERSION \<or> \<not> sealed input then Inl M4Corrupt
      else sb_validate \<lparr>sb_generation = get_u64 input 16, sb_commit_id = get_u64 input 24,
             sb_block_count = get_u64 input 32, sb_data_start = get_u64 input 40,
             sb_catalog_block = get_u64 input 48, sb_bitmap_block = get_u64 input 56,
             sb_bitmap_blocks = get_u32 input 64\<rparr>)"

definition newest_superblock ::
  "(m4_error, superblock) result \<Rightarrow> (m4_error, superblock) result \<Rightarrow> (m4_error, superblock \<times> nat) result" where
  "newest_superblock first second =
     (case (first, second) of
        (Inr f, Inr s) \<Rightarrow> if sb_generation s > sb_generation f then Inr (s, 1) else Inr (f, 0)
      | (Inr f, Inl _) \<Rightarrow> Inr (f, 0)
      | (Inl _, Inr s) \<Rightarrow> Inr (s, 1)
      | (Inl _, Inl _) \<Rightarrow> Inl M4Corrupt)"

section \<open>Inode\<close>

record inode =
  in_inode :: nat
  in_generation :: nat
  in_mode :: nat
  in_uid :: nat
  in_gid :: nat
  in_size :: nat
  in_modified_ns :: nat
  in_accessed_seconds :: nat
  in_changed_seconds :: nat
  in_parent :: nat
  in_path :: "u8 list"
  in_path_length :: nat
  in_extents :: extent_map

definition INODE_EMPTY :: inode where
  "INODE_EMPTY = \<lparr>in_inode = 0, in_generation = 0, in_mode = 0, in_uid = 0, in_gid = 0, in_size = 0,
     in_modified_ns = 0, in_accessed_seconds = 0, in_changed_seconds = 0, in_parent = 0,
     in_path = replicate MAX_PATH_BYTES 0, in_path_length = 0, in_extents = EXTENT_MAP_EMPTY\<rparr>"

definition in_set_name :: "inode \<Rightarrow> u8 list \<Rightarrow> (m4_error, unit) result \<times> inode" where
  "in_set_name i name =
     (if name = [] \<or> length name > MAX_PATH_BYTES \<or> list_ex (\<lambda>byte. byte = 0 \<or> byte = 0x2f) name
      then (Inl M4Invalid, i)
      else (Inr (), i\<lparr>in_path := put_at 0 name (replicate MAX_PATH_BYTES 0), in_path_length := length name\<rparr>))"

definition in_name :: "inode \<Rightarrow> u8 list" where
  "in_name i = take (in_path_length i) (in_path i)"

definition in_validate :: "inode \<Rightarrow> (m4_error, unit) result" where
  "in_validate i =
     (case checked_mul (em_blocks (in_extents i)) BLOCK_BYTES of
        None \<Rightarrow> Inl M4OutOfRange
      | Some capacity \<Rightarrow>
          if in_inode i = 0 \<or> in_generation i = 0 \<or> in_name i = []
             \<or> list_ex (\<lambda>byte. byte = 0 \<or> byte = 0x2f) (in_name i) \<or> in_size i > capacity
          then Inl M4Corrupt else Inr ())"

definition in_validate_on_volume :: "inode \<Rightarrow> nat \<Rightarrow> nat \<Rightarrow> (m4_error, unit) result" where
  "in_validate_on_volume i data_start block_count =
     (case in_validate i of
        Inl e \<Rightarrow> Inl e
      | Inr _ \<Rightarrow>
          if data_start \<ge> block_count
             \<or> list_ex (\<lambda>extent. ex_start_block extent < data_start
                  \<or> (case ex_end_block extent of None \<Rightarrow> True | Some e \<Rightarrow> e > block_count)) (em_list (in_extents i))
          then Inl M4Corrupt else Inr ())"

text \<open>The loop of \<open>encode\<close> over the extents, from index \<open>index\<close>.\<close>

fun put_extents :: "u8 list \<Rightarrow> nat \<Rightarrow> extent list \<Rightarrow> u8 list" where
  "put_extents output index [] = output"
| "put_extents output index (extent # es) =
     (let offset = 336 + index * 12;
          output = put_u64 output offset (ex_start_block extent);
          output = put_u32 output (offset + 8) (ex_block_count extent)
      in put_extents output (index + 1) es)"

definition in_encode :: "inode \<Rightarrow> (m4_error, u8 list) result" where
  "in_encode i =
     (case in_validate i of
        Inl e \<Rightarrow> Inl e
      | Inr _ \<Rightarrow>
          (let output = replicate RECORD_BYTES 0;
               output = put_at 0 INODE_MAGIC output;
               output = put_u32 output 8 FORMAT_VERSION;
               output = put_u64 output 16 (in_inode i);
               output = put_u64 output 24 (in_generation i);
               output = put_u32 output 32 (in_mode i);
               output = put_u32 output 36 (in_uid i);
               output = put_u32 output 40 (in_gid i);
               output = put_u32 output 44 (in_accessed_seconds i);
               output = put_u64 output 48 (in_size i);
               output = put_u64 output 56 (in_modified_ns i);
               output = put_u64 output 64 (in_parent i);
               output = put_at 72 [of_nat (in_path_length i)] output;
               output = put_at 73 [of_nat (em_count (in_extents i))] output;
               output = put_u32 output 76 (in_changed_seconds i);
               output = put_at 80 (in_name i) output;
               output = put_extents output 0 (em_list (in_extents i))
           in Inr (seal output)))"

text \<open>The loop of \<open>decode\<close> over the extent records \<open>indices\<close>.\<close>

fun get_extents :: "u8 list \<Rightarrow> nat list \<Rightarrow> extent_map \<Rightarrow> (m4_error, extent_map) result" where
  "get_extents input [] m = Inr m"
| "get_extents input (index # indices) m =
     (let offset = 336 + index * 12
      in case em_push m \<lparr>ex_start_block = get_u64 input offset, ex_block_count = get_u32 input (offset + 8)\<rparr> of
           (Inl e, _) \<Rightarrow> Inl e
         | (Inr _, m) \<Rightarrow> get_extents input indices m)"

definition in_decode :: "u8 list \<Rightarrow> (m4_error, inode) result" where
  "in_decode input =
     (if take 8 input \<noteq> INODE_MAGIC \<or> get_u32 input 8 \<noteq> FORMAT_VERSION \<or> \<not> sealed input
         \<or> unat (input ! 72) > MAX_PATH_BYTES \<or> unat (input ! 73) > MAX_EXTENTS
      then Inl M4Corrupt
      else
        (let name_length = unat (input ! 72);
             i = \<lparr>in_inode = get_u64 input 16, in_generation = get_u64 input 24, in_mode = get_u32 input 32,
                  in_uid = get_u32 input 36, in_gid = get_u32 input 40, in_size = get_u64 input 48,
                  in_modified_ns = get_u64 input 56, in_accessed_seconds = get_u32 input 44,
                  in_changed_seconds = get_u32 input 76, in_parent = get_u64 input 64,
                  in_path = put_at 0 (slice 80 name_length input) (replicate MAX_PATH_BYTES 0),
                  in_path_length = name_length, in_extents = EXTENT_MAP_EMPTY\<rparr>
         in case get_extents input [0..<unat (input ! 73)] (in_extents i) of
              Inl e \<Rightarrow> Inl e
            | Inr m \<Rightarrow>
                (let i = i\<lparr>in_extents := m\<rparr>
                 in case in_validate i of Inl e \<Rightarrow> Inl e | Inr _ \<Rightarrow> Inr i)))"

section \<open>Directory index\<close>

record directory_index =
  dx_heads :: "nat list"
  dx_next :: "nat list"

definition dx_empty :: "nat \<Rightarrow> nat \<Rightarrow> directory_index" where
  "dx_empty inodes buckets = \<lparr>dx_heads = replicate buckets 0, dx_next = replicate inodes 0\<rparr>"

definition child_hash :: "nat \<Rightarrow> u8 list \<Rightarrow> nat" where
  "child_hash parent name =
     unat (fold (\<lambda>byte hash. (hash XOR ucast byte) * 0x100000001b3)
       (to_le_bytes 8 (of_nat parent :: u64w) @ name) (0xcbf29ce484222325 :: u64w))"

fun dx_insert_all :: "directory_index \<Rightarrow> nat \<Rightarrow> inode option list \<Rightarrow> (m4_error, unit) result \<times> directory_index" where
  "dx_insert_all d index [] = (Inr (), d)"
| "dx_insert_all d index (None # entries) = dx_insert_all d (index + 1) entries"
| "dx_insert_all d index (Some i # entries) =
     (let bucket = child_hash (in_parent i) (in_name i) mod length (dx_heads d);
          d = d\<lparr>dx_next := (dx_next d)[index := dx_heads d ! bucket]\<rparr>
      in if index + 1 > 65535 then (Inl M4OutOfRange, d)
         else dx_insert_all (d\<lparr>dx_heads := (dx_heads d)[bucket := index + 1]\<rparr>) (index + 1) entries)"

definition dx_rebuild :: "directory_index \<Rightarrow> inode option list \<Rightarrow> (m4_error, unit) result \<times> directory_index" where
  "dx_rebuild d entries =
     (if length (dx_heads d) = 0 \<or> length (dx_next d) > 65535 then (Inl M4OutOfRange, d)
      else dx_insert_all (dx_empty (length (dx_next d)) (length (dx_heads d))) 0 entries)"

text \<open>The loop of \<open>find\<close>: \<^const>\<open>None\<close> when it does not end, \<open>Some r\<close> when it returns \<open>r\<close>.\<close>

partial_function (option) dx_walk ::
  "directory_index \<Rightarrow> inode option list \<Rightarrow> nat \<Rightarrow> u8 list \<Rightarrow> nat \<Rightarrow> nat option option" where
  "dx_walk d entries parent name encoded =
     (if encoded = 0 then Some None
      else if encoded - 1 \<ge> length entries then Some None
      else case entries ! (encoded - 1) of
             None \<Rightarrow> Some None
           | Some i \<Rightarrow>
               if in_parent i = parent \<and> in_name i = name
               then Some (if encoded - 1 \<le> u32_max then Some (encoded - 1) else None)
               else if encoded - 1 \<ge> length (dx_next d) then Some None
               else dx_walk d entries parent name (dx_next d ! (encoded - 1)))"

definition dx_find :: "directory_index \<Rightarrow> inode option list \<Rightarrow> nat \<Rightarrow> u8 list \<Rightarrow> nat option option" where
  "dx_find d entries parent name =
     (if length (dx_heads d) = 0 then Some None
      else dx_walk d entries parent name (dx_heads d ! (child_hash parent name mod length (dx_heads d))))"

section \<open>Catalog\<close>

record catalog =
  ct_generation :: nat
  ct_inode_count :: nat
  ct_maximum_inodes :: nat
  ct_inode_table_block :: nat
  ct_inode_table_blocks :: nat

definition ct_validate :: "catalog \<Rightarrow> nat \<Rightarrow> nat \<Rightarrow> (m4_error, catalog) result" where
  "ct_validate c block_count data_start =
     (case checked_add (ct_inode_table_block c) (ct_inode_table_blocks c) of
        None \<Rightarrow> Inl M4Corrupt
      | Some e \<Rightarrow>
          (case checked_mul (ct_inode_table_blocks c) (BLOCK_BYTES div RECORD_BYTES) of
             None \<Rightarrow> Inl M4Corrupt
           | Some record_capacity \<Rightarrow>
               if ct_generation c = 0 \<or> ct_maximum_inodes c = 0 \<or> ct_inode_count c > ct_maximum_inodes c
                  \<or> ct_maximum_inodes c > record_capacity \<or> ct_inode_table_blocks c = 0
                  \<or> e > block_count \<or> e > data_start
               then Inl M4Corrupt else Inr c))"

definition ct_encode :: "catalog \<Rightarrow> nat \<Rightarrow> nat \<Rightarrow> (m4_error, u8 list) result" where
  "ct_encode c block_count data_start =
     (case ct_validate c block_count data_start of
        Inl e \<Rightarrow> Inl e
      | Inr _ \<Rightarrow>
          (let output = replicate RECORD_BYTES 0;
               output = put_at 0 CATALOG_MAGIC output;
               output = put_u32 output 8 FORMAT_VERSION;
               output = put_u64 output 16 (ct_generation c);
               output = put_u32 output 24 (ct_inode_count c);
               output = put_u32 output 28 (ct_maximum_inodes c);
               output = put_u64 output 32 (ct_inode_table_block c);
               output = put_u32 output 40 (ct_inode_table_blocks c)
           in Inr (seal output)))"

definition ct_decode :: "u8 list \<Rightarrow> nat \<Rightarrow> nat \<Rightarrow> (m4_error, catalog) result" where
  "ct_decode input block_count data_start =
     (if take 8 input \<noteq> CATALOG_MAGIC \<or> get_u32 input 8 \<noteq> FORMAT_VERSION \<or> \<not> sealed input then Inl M4Corrupt
      else ct_validate \<lparr>ct_generation = get_u64 input 16, ct_inode_count = get_u32 input 24,
             ct_maximum_inodes = get_u32 input 28, ct_inode_table_block = get_u64 input 32,
             ct_inode_table_blocks = get_u32 input 40\<rparr> block_count data_start)"

section \<open>Commit sequencer\<close>

datatype commit_phase = PhData | PhInodes | PhBitmap | PhCatalog | PhFlushMetadata | PhSuperblock | PhFlushRoot | PhComplete

definition cq_new :: commit_phase where "cq_new = PhData"

definition cq_complete :: "commit_phase \<Rightarrow> commit_phase \<Rightarrow> (m4_error, commit_phase) result \<times> commit_phase" where
  "cq_complete phase completed =
     (if completed \<noteq> phase \<or> phase = PhComplete then (Inl M4WrongPhase, phase)
      else case phase of
             PhData \<Rightarrow> (Inr PhInodes, PhInodes)
           | PhInodes \<Rightarrow> (Inr PhBitmap, PhBitmap)
           | PhBitmap \<Rightarrow> (Inr PhCatalog, PhCatalog)
           | PhCatalog \<Rightarrow> (Inr PhFlushMetadata, PhFlushMetadata)
           | PhFlushMetadata \<Rightarrow> (Inr PhSuperblock, PhSuperblock)
           | PhSuperblock \<Rightarrow> (Inr PhFlushRoot, PhFlushRoot)
           | PhFlushRoot \<Rightarrow> (Inr PhComplete, PhComplete)
           | PhComplete \<Rightarrow> (Inl M4WrongPhase, phase))"

section \<open>Round trips\<close>

lemma take_slice: "take n xs = slice 0 n xs"
  by (simp add: slice_def)

lemma nth_slice: "i < length xs \<Longrightarrow> xs ! i = hd (slice i 1 xs)"
  by (simp add: slice_def hd_drop_conv_nth take_Suc_conv_app_nth flip: Cons_nth_drop_Suc)

lemma seal_slices:
  assumes "length out = RECORD_BYTES"
  shows "length (seal out) = RECORD_BYTES" "sealed (seal out)"
    "off + n \<le> 508 \<Longrightarrow> slice off n (seal out) = slice off n out"
proof -
  have l: "length out = 512" using assms by (simp add: RECORD_BYTES_def)
  have u: "unat w < 2 ^ 32" for w :: u32w by (rule order_less_le_trans[OF unsigned_less]) simp
  note simps = seal_def RECORD_BYTES_def put_u32_def record_simps l
  show "length (seal out) = RECORD_BYTES" by (simp add: simps)
  show sl: "slice off n (seal out) = slice off n out" if "off + n \<le> 508" for off n
    using that by (simp add: simps)
  show "sealed (seal out)"
    using sl[of 0 508] u unfolding sealed_def take_slice
    by (simp add: get_u32_def RECORD_BYTES_def) (simp add: simps from_to_le_bytes take_slice)
qed

lemma seal_fields:
  assumes "length out = RECORD_BYTES"
  shows "off + 4 \<le> 508 \<Longrightarrow> get_u32 (seal out) off = get_u32 out off" "off + 8 \<le> 508 \<Longrightarrow> get_u64 (seal out) off = get_u64 out off"
    "n \<le> 508 \<Longrightarrow> take n (seal out) = take n out" "i < 508 \<Longrightarrow> seal out ! i = out ! i"
  using seal_slices[OF assms] assms
  by (simp_all add: get_u32_def get_u64_def take_slice nth_slice[of i "seal out"] nth_slice[of i out] RECORD_BYTES_def)

lemma FORMAT_VERSION_small: "FORMAT_VERSION < 2 ^ 32" "FORMAT_VERSION < 4294967296"
  by (simp_all add: FORMAT_VERSION_def)

lemmas field_simps' = put_u32_def put_u64_def get_u32_def get_u64_def take_slice record_simps

definition sb_typed :: "superblock \<Rightarrow> bool" where
  "sb_typed s \<longleftrightarrow> sb_generation s < 2 ^ 64 \<and> sb_commit_id s < 2 ^ 64 \<and> sb_block_count s < 2 ^ 64 \<and> sb_data_start s < 2 ^ 64
     \<and> sb_catalog_block s < 2 ^ 64 \<and> sb_bitmap_block s < 2 ^ 64 \<and> sb_bitmap_blocks s < 2 ^ 32"

lemma sb_validate_Inr: "sb_validate s = Inr t \<Longrightarrow> t = s"
  by (auto simp: sb_validate_def split: option.splits if_splits)

lemma sb_roundtrip:
  assumes t: "sb_typed s" and e: "sb_encode s = Inr bytes"
  shows "sb_decode bytes = Inr s" "length bytes = RECORD_BYTES"
proof -
  define out where "out = put_u32 (put_u64 (put_u64 (put_u64 (put_u64 (put_u64 (put_u64 (put_u32
      (put_at 0 SUPER_MAGIC (replicate RECORD_BYTES 0)) 8 FORMAT_VERSION) 16 (sb_generation s)) 24 (sb_commit_id s))
      32 (sb_block_count s)) 40 (sb_data_start s)) 48 (sb_catalog_block s)) 56 (sb_bitmap_block s)) 64 (sb_bitmap_blocks s)"
  have b: "bytes = seal out" and v: "sb_validate s = Inr s"
    using e by (auto simp: sb_encode_def out_def Let_def dest: sb_validate_Inr split: sum.splits)
  have m: "length SUPER_MAGIC = 8" by (simp add: SUPER_MAGIC_def)
  have l: "length out = RECORD_BYTES" by (simp add: out_def put_u32_def put_u64_def m RECORD_BYTES_def)
  have f: "take 8 out = SUPER_MAGIC" "get_u32 out 8 = FORMAT_VERSION" "get_u64 out 16 = sb_generation s" "get_u64 out 24 = sb_commit_id s"
    "get_u64 out 32 = sb_block_count s" "get_u64 out 40 = sb_data_start s" "get_u64 out 48 = sb_catalog_block s"
    "get_u64 out 56 = sb_bitmap_block s" "get_u32 out 64 = sb_bitmap_blocks s"
    using t by (simp_all add: out_def sb_typed_def field_simps' m RECORD_BYTES_def FORMAT_VERSION_small)
  have eta: "\<lparr>sb_generation = sb_generation s, sb_commit_id = sb_commit_id s, sb_block_count = sb_block_count s,
      sb_data_start = sb_data_start s, sb_catalog_block = sb_catalog_block s, sb_bitmap_block = sb_bitmap_block s,
      sb_bitmap_blocks = sb_bitmap_blocks s\<rparr> = s" by simp
  show "sb_decode bytes = Inr s" "length bytes = RECORD_BYTES"
    using v by (simp_all add: sb_decode_def b seal_slices[OF l] seal_fields[OF l] f eta)
qed

definition ct_typed :: "catalog \<Rightarrow> bool" where
  "ct_typed c \<longleftrightarrow> ct_generation c < 2 ^ 64 \<and> ct_inode_count c < 2 ^ 32 \<and> ct_maximum_inodes c < 2 ^ 32
     \<and> ct_inode_table_block c < 2 ^ 64 \<and> ct_inode_table_blocks c < 2 ^ 32"

lemma ct_validate_Inr: "ct_validate c n d = Inr t \<Longrightarrow> t = c"
  by (auto simp: ct_validate_def split: option.splits if_splits)

lemma ct_roundtrip:
  assumes t: "ct_typed c" and e: "ct_encode c n d = Inr bytes"
  shows "ct_decode bytes n d = Inr c" "length bytes = RECORD_BYTES"
proof -
  define out where "out = put_u32 (put_u64 (put_u32 (put_u32 (put_u64 (put_u32
      (put_at 0 CATALOG_MAGIC (replicate RECORD_BYTES 0)) 8 FORMAT_VERSION) 16 (ct_generation c)) 24 (ct_inode_count c))
      28 (ct_maximum_inodes c)) 32 (ct_inode_table_block c)) 40 (ct_inode_table_blocks c)"
  have b: "bytes = seal out" and v: "ct_validate c n d = Inr c"
    using e by (auto simp: ct_encode_def out_def Let_def dest: ct_validate_Inr split: sum.splits)
  have m: "length CATALOG_MAGIC = 8" by (simp add: CATALOG_MAGIC_def)
  have l: "length out = RECORD_BYTES" by (simp add: out_def put_u32_def put_u64_def m RECORD_BYTES_def)
  have f: "take 8 out = CATALOG_MAGIC" "get_u32 out 8 = FORMAT_VERSION" "get_u64 out 16 = ct_generation c" "get_u32 out 24 = ct_inode_count c"
    "get_u32 out 28 = ct_maximum_inodes c" "get_u64 out 32 = ct_inode_table_block c" "get_u32 out 40 = ct_inode_table_blocks c"
    using t by (simp_all add: out_def ct_typed_def field_simps' m RECORD_BYTES_def FORMAT_VERSION_small)
  have eta: "\<lparr>ct_generation = ct_generation c, ct_inode_count = ct_inode_count c, ct_maximum_inodes = ct_maximum_inodes c,
      ct_inode_table_block = ct_inode_table_block c, ct_inode_table_blocks = ct_inode_table_blocks c\<rparr> = c" by simp
  show "ct_decode bytes n d = Inr c" "length bytes = RECORD_BYTES"
    using v by (simp_all add: ct_decode_def b seal_slices[OF l] seal_fields[OF l] f eta)
qed

text \<open>Inodes: the extent records are written one after the other.\<close>

definition ex_bytes :: "extent \<Rightarrow> u8 list" where
  "ex_bytes e = to_le_bytes 8 (of_nat (ex_start_block e) :: u64w) @ to_le_bytes 4 (of_nat (ex_block_count e) :: u32w)"

lemma length_ex_bytes [simp]: "length (ex_bytes e) = 12" "length (concat (map ex_bytes es)) = 12 * length es"
  by (simp_all add: ex_bytes_def length_concat comp_def sum_list_triv)

lemma put_extents_eq:
  "336 + 12 * (k + length es) \<le> length out \<Longrightarrow> put_extents out k es = put_at (336 + 12 * k) (concat (map ex_bytes es)) out"
proof (induction es arbitrary: out k)
  case Nil
  then show ?case by (simp add: put_at_def)
next
  case (Cons e es)
  have w: "put_u32 (put_u64 out (336 + k * 12) (ex_start_block e)) (336 + k * 12 + 8) (ex_block_count e) = put_at (336 + 12 * k) (ex_bytes e) out"
    using Cons.prems put_at_put_at[of "336 + 12 * k" out "to_le_bytes 8 (of_nat (ex_start_block e) :: u64w)"]
    by (simp add: put_u32_def put_u64_def ex_bytes_def mult.commute)
  have "put_extents out k (e # es) = put_extents (put_at (336 + 12 * k) (ex_bytes e) out) (k + 1) es"
    by (simp only: put_extents.simps Let_def w)
  also have "\<dots> = put_at (336 + 12 * (k + 1)) (concat (map ex_bytes es)) (put_at (336 + 12 * k) (ex_bytes e) out)"
    using Cons.prems by (intro Cons.IH) simp
  also have "\<dots> = put_at (336 + 12 * k) (ex_bytes e @ concat (map ex_bytes es)) out"
    using put_at_put_at[of "336 + 12 * k" out "ex_bytes e"] Cons.prems by (simp add: algebra_simps)
  finally show ?case by simp
qed

lemma ex_bytes_fields:
  assumes "ex_ok e"
  shows "unat (from_le_bytes (slice 0 8 (ex_bytes e)) :: u64w) = ex_start_block e" "unat (from_le_bytes (slice 8 4 (ex_bytes e)) :: u32w) = ex_block_count e"
  using assms by (simp_all add: ex_bytes_def slice_def ex_ok_def record_simps u32_max_def)

lemma get_put_extents:
  assumes "list_all ex_ok es" "336 + 12 * length es \<le> length out" "k < length es"
  defines "x \<equiv> put_extents out 0 es"
  shows "get_u64 x (336 + k * 12) = ex_start_block (es ! k)" "get_u32 x (336 + k * 12 + 8) = ex_block_count (es ! k)"
proof -
  have x: "x = put_at 336 (concat (map ex_bytes es)) out" using put_extents_eq[of 0 es out] assms(2) by (simp add: x_def)
  have k: "12 * k + 12 \<le> 12 * length es" using assms(3) by simp
  have rec: "slice (12 * k) 12 (concat (map ex_bytes es)) = ex_bytes (es ! k)"
    using slice_concat[of "map ex_bytes es" 12 k] assms(3) by simp
  have "slice (336 + k * 12) 8 x = slice (12 * k) 8 (concat (map ex_bytes es))"
    unfolding x using assms(2) k by (subst slice_put_inside) (simp_all add: mult.commute)
  also have "\<dots> = slice 0 8 (ex_bytes (es ! k))" using slice_slice[of 0 8 12 "12 * k" "concat (map ex_bytes es)"] unfolding rec by simp
  finally show "get_u64 x (336 + k * 12) = ex_start_block (es ! k)"
    using ex_bytes_fields(1)[of "es ! k"] assms(1,3) by (simp add: get_u64_def list_all_length)
  have "slice (336 + k * 12 + 8) 4 x = slice (12 * k + 8) 4 (concat (map ex_bytes es))"
    unfolding x using assms(2) k by (subst slice_put_inside) (simp_all add: mult.commute add.commute)
  also have "\<dots> = slice 8 4 (ex_bytes (es ! k))" using slice_slice[of 8 4 12 "12 * k" "concat (map ex_bytes es)"] unfolding rec by simp
  finally show "get_u32 x (336 + k * 12 + 8) = ex_block_count (es ! k)"
    using ex_bytes_fields(2)[of "es ! k"] assms(1,3) by (simp add: get_u32_def list_all_length)
qed

lemma get_extents_ok:
  assumes f: "\<And>k. k < length es \<Longrightarrow> get_u64 input (336 + k * 12) = ex_start_block (es ! k) \<and> get_u32 input (336 + k * 12 + 8) = ex_block_count (es ! k)"
    and es: "list_all ex_ok es" "sorted_wrt (\<lambda>a b. ex_end a < ex_start_block b) es" "length es \<le> MAX_EXTENTS"
    and m: "em_wf m" "em_list m = take k es" "k \<le> length es"
  shows "\<exists>m'. get_extents input [k..<length es] m = Inr m' \<and> em_wf m' \<and> em_list m' = es"
  using m
proof (induction "length es - k" arbitrary: k m)
  case 0
  then show ?case by auto
next
  case (Suc d)
  then have k: "k < length es" by simp
  have c: "em_count m = k" using em_list_length[OF Suc.prems(1)] Suc.prems(2) k by simp
  have "\<forall>x \<in> set (em_list m). ex_end x < ex_start_block (es ! k)"
    using es(2) k Suc.prems(2) unfolding sorted_wrt_iff_nth_less by (auto simp: in_set_conv_nth)
  moreover have "ex_ok (es ! k)" using es(1) k by (simp add: list_all_length)
  ultimately obtain m1 where m1: "em_push m (es ! k) = (Inr (), m1)" "em_wf m1" "em_list m1 = em_list m @ [es ! k]"
    using em_push_append[OF Suc.prems(1), of "es ! k"] c k es(3) by auto
  have "em_list m1 = take (Suc k) es" using m1(3) Suc.prems(2) k by (simp add: take_Suc_conv_app_nth)
  moreover have "d = length es - Suc k" using Suc.hyps(2) by simp
  ultimately obtain m' where "get_extents input [Suc k..<length es] m1 = Inr m'" "em_wf m'" "em_list m' = es"
    using Suc.hyps(1)[of "Suc k" m1] m1(2) k by auto
  moreover have "[k..<length es] = k # [Suc k..<length es]" using k by (simp add: upt_rec)
  ultimately show ?case using m1(1) f[OF k] by simp
qed

definition in_typed :: "inode \<Rightarrow> bool" where
  "in_typed i \<longleftrightarrow> in_inode i < 2 ^ 64 \<and> in_generation i < 2 ^ 64 \<and> in_mode i < 2 ^ 32 \<and> in_uid i < 2 ^ 32 \<and> in_gid i < 2 ^ 32
     \<and> in_size i < 2 ^ 64 \<and> in_modified_ns i < 2 ^ 64 \<and> in_accessed_seconds i < 2 ^ 32 \<and> in_changed_seconds i < 2 ^ 32
     \<and> in_parent i < 2 ^ 64 \<and> length (in_path i) = MAX_PATH_BYTES \<and> in_path_length i \<le> MAX_PATH_BYTES
     \<and> drop (in_path_length i) (in_path i) = replicate (MAX_PATH_BYTES - in_path_length i) 0 \<and> em_wf (in_extents i)"

text \<open>The record before the extents, and its fields.\<close>

definition in_fields :: "inode \<Rightarrow> (nat \<times> u8 list) list" where
  "in_fields i = [(0, INODE_MAGIC), (8, to_le_bytes 4 (of_nat FORMAT_VERSION :: u32w)), (16, to_le_bytes 8 (of_nat (in_inode i) :: u64w)),
     (24, to_le_bytes 8 (of_nat (in_generation i) :: u64w)), (32, to_le_bytes 4 (of_nat (in_mode i) :: u32w)),
     (36, to_le_bytes 4 (of_nat (in_uid i) :: u32w)), (40, to_le_bytes 4 (of_nat (in_gid i) :: u32w)),
     (44, to_le_bytes 4 (of_nat (in_accessed_seconds i) :: u32w)), (48, to_le_bytes 8 (of_nat (in_size i) :: u64w)),
     (56, to_le_bytes 8 (of_nat (in_modified_ns i) :: u64w)), (64, to_le_bytes 8 (of_nat (in_parent i) :: u64w)),
     (72, [of_nat (in_path_length i)]), (73, [of_nat (em_count (in_extents i))]),
     (76, to_le_bytes 4 (of_nat (in_changed_seconds i) :: u32w)), (80, in_name i)]"

definition in_head :: "inode \<Rightarrow> u8 list" where
  "in_head i = put_all (in_fields i) (replicate RECORD_BYTES 0)"

lemma in_name_length: "in_typed i \<Longrightarrow> length (in_name i) = in_path_length i" "in_typed i \<Longrightarrow> in_path_length i \<le> 255" "in_typed i \<Longrightarrow> em_count (in_extents i) \<le> 14"
  by (simp_all add: in_typed_def in_name_def MAX_PATH_BYTES_def em_wf_def MAX_EXTENTS_def)

lemma in_head_fields:
  assumes t: "in_typed i"
  shows "length (in_head i) = RECORD_BYTES" "take 8 (in_head i) = INODE_MAGIC" "get_u32 (in_head i) 8 = FORMAT_VERSION"
    "get_u64 (in_head i) 16 = in_inode i" "get_u64 (in_head i) 24 = in_generation i" "get_u32 (in_head i) 32 = in_mode i"
    "get_u32 (in_head i) 36 = in_uid i" "get_u32 (in_head i) 40 = in_gid i" "get_u32 (in_head i) 44 = in_accessed_seconds i"
    "get_u64 (in_head i) 48 = in_size i" "get_u64 (in_head i) 56 = in_modified_ns i" "get_u64 (in_head i) 64 = in_parent i"
    "slice 72 1 (in_head i) = [of_nat (in_path_length i)]" "slice 73 1 (in_head i) = [of_nat (em_count (in_extents i))]"
    "get_u32 (in_head i) 76 = in_changed_seconds i" "slice 80 (in_path_length i) (in_head i) = in_name i"
proof -
  have m: "length INODE_MAGIC = 8" by (simp add: INODE_MAGIC_def)
  note n = in_name_length[OF t]
  have a: "ascending (in_fields i)" using m by (simp add: in_fields_def)
  have w: "within (in_fields i) (length (replicate RECORD_BYTES (0 :: u8)))" using m n by (simp add: in_fields_def RECORD_BYTES_def)
  show "length (in_head i) = RECORD_BYTES" using put_all_length[OF w] by (simp add: in_head_def)
  have S: "(off, bs) \<in> set (in_fields i) \<Longrightarrow> k = length bs \<Longrightarrow> slice off k (in_head i) = bs" for off bs k
    using put_all_slice[OF a w] by (simp add: in_head_def)
  note T = t[unfolded in_typed_def] and F = in_fields_def record_simps FORMAT_VERSION_small
  show "take 8 (in_head i) = INODE_MAGIC" unfolding take_slice by (rule S) (simp_all add: F m)
  show "slice 72 1 (in_head i) = [of_nat (in_path_length i)]" "slice 73 1 (in_head i) = [of_nat (em_count (in_extents i))]"
    "slice 80 (in_path_length i) (in_head i) = in_name i" by (rule S; simp add: F n)+
  have S4: "(off, to_le_bytes 4 (of_nat v :: u32w)) \<in> set (in_fields i) \<Longrightarrow> v < 2 ^ 32 \<Longrightarrow> get_u32 (in_head i) off = v" for off v
    using S[of off "to_le_bytes 4 (of_nat v :: u32w)" 4] by (simp add: get_u32_def record_simps)
  have S8: "(off, to_le_bytes 8 (of_nat v :: u64w)) \<in> set (in_fields i) \<Longrightarrow> v < 2 ^ 64 \<Longrightarrow> get_u64 (in_head i) off = v" for off v
    using S[of off "to_le_bytes 8 (of_nat v :: u64w)" 8] by (simp add: get_u64_def record_simps)
  show "get_u32 (in_head i) 8 = FORMAT_VERSION" "get_u32 (in_head i) 32 = in_mode i" "get_u32 (in_head i) 36 = in_uid i"
    "get_u32 (in_head i) 40 = in_gid i" "get_u32 (in_head i) 44 = in_accessed_seconds i" "get_u32 (in_head i) 76 = in_changed_seconds i"
    by (rule S4; use T in \<open>simp add: in_fields_def FORMAT_VERSION_small\<close>)+
  show "get_u64 (in_head i) 16 = in_inode i" "get_u64 (in_head i) 24 = in_generation i" "get_u64 (in_head i) 48 = in_size i"
    "get_u64 (in_head i) 56 = in_modified_ns i" "get_u64 (in_head i) 64 = in_parent i"
    by (rule S8; use T in \<open>simp add: in_fields_def\<close>)+
qed

lemma in_roundtrip:
  assumes t: "in_typed i" and e: "in_encode i = Inr bytes"
  shows "in_decode bytes = Inr i" "length bytes = RECORD_BYTES"
proof -
  let ?es = "em_list (in_extents i)"
  define out where "out = put_extents (in_head i) 0 ?es"
  have w: "em_wf (in_extents i)" using t by (simp add: in_typed_def)
  then have es: "list_all ex_ok ?es" "sorted_wrt (\<lambda>a b. ex_end a < ex_start_block b) ?es" "length ?es \<le> MAX_EXTENTS" "length ?es = em_count (in_extents i)"
    by (simp_all add: em_wf_def em_list_length[OF w])
  note F = in_head_fields[OF t] and n = in_name_length[OF t]
  have b: "bytes = seal out" and v: "in_validate i = Inr ()"
    using e by (auto simp: in_encode_def out_def in_head_def in_fields_def put_all_simps put_u32_def put_u64_def Let_def split: sum.splits)
  have le: "336 + 12 * length ?es \<le> length (in_head i)" using es(3) F(1) by (simp add: MAX_EXTENTS_def RECORD_BYTES_def)
  have o: "out = put_at 336 (concat (map ex_bytes ?es)) (in_head i)" using put_extents_eq[of 0 ?es "in_head i"] le by (simp add: out_def)
  have l: "length out = RECORD_BYTES" using le F(1) by (simp add: o)
  have keep: "slice off k out = slice off k (in_head i)" if "off + k \<le> 336" for off k
    using that le by (simp add: o slice_put_other)
  have S: "slice off k bytes = slice off k (in_head i)" if "off + k \<le> 336" for off k
    using that keep[OF that] seal_slices(3)[OF l, of off k] by (simp add: b)
  have f: "get_u32 bytes off = get_u32 (in_head i) off" if "off + 4 \<le> 336" for off using S[OF that] by (simp add: get_u32_def)
  have f': "get_u64 bytes off = get_u64 (in_head i) off" if "off + 8 \<le> 336" for off using S[OF that] by (simp add: get_u64_def)
  have lb: "length bytes = 512" using seal_slices(1)[OF l] by (simp add: b RECORD_BYTES_def)
  have b72: "unat (bytes ! 72) = in_path_length i" "unat (bytes ! 73) = length ?es"
    using S[of 72 1] S[of 73 1] F(13,14) n(2,3) lb es(4) nth_slice[of 72 bytes] nth_slice[of 73 bytes] by (simp_all add: unat_of_nat_small)
  have x: "get_u64 bytes (336 + k * 12) = ex_start_block (?es ! k) \<and> get_u32 bytes (336 + k * 12 + 8) = ex_block_count (?es ! k)" if "k < length ?es" for k
  proof -
    have "336 + k * 12 + 8 + 4 \<le> 508" using that es(3) by (simp add: MAX_EXTENTS_def)
    then show ?thesis
      using get_put_extents[OF es(1) le that] seal_fields(2)[OF l, of "336 + k * 12"] seal_fields(1)[OF l, of "336 + k * 12 + 8"]
      unfolding b out_def by simp
  qed
  obtain m where m: "get_extents bytes [0..<length ?es] EXTENT_MAP_EMPTY = Inr m" "em_wf m" "em_list m = ?es"
    using get_extents_ok[OF x es(1-3), of EXTENT_MAP_EMPTY 0] by auto
  have mi: "m = in_extents i" by (rule em_wf_eqI[OF m(2) w m(3)])
  have path: "put_at 0 (in_name i) (replicate MAX_PATH_BYTES 0) = in_path i"
    using t append_take_drop_id[of "in_path_length i" "in_path i"] by (simp add: put_at_def in_typed_def in_name_def)
  have "sealed bytes" "take 8 bytes = INODE_MAGIC" using seal_slices(2)[OF l] S[of 0 8] F(2) by (simp_all add: b take_slice)
  moreover have "in_path_length i \<le> MAX_PATH_BYTES" "length ?es \<le> MAX_EXTENTS" using t es by (simp_all add: in_typed_def)
  moreover have nm: "slice 80 (in_path_length i) bytes = in_name i" using S[of 80 "in_path_length i"] F(16) n(2) by simp
  moreover have eta: "\<lparr>in_inode = in_inode i, in_generation = in_generation i, in_mode = in_mode i, in_uid = in_uid i, in_gid = in_gid i,
      in_size = in_size i, in_modified_ns = in_modified_ns i, in_accessed_seconds = in_accessed_seconds i,
      in_changed_seconds = in_changed_seconds i, in_parent = in_parent i, in_path = in_path i,
      in_path_length = in_path_length i, in_extents = in_extents i\<rparr> = i" by simp
  ultimately show "in_decode bytes = Inr i"
    using v m(1) by (simp add: in_decode_def b72 f f' F Let_def path mi eta)
  show "length bytes = RECORD_BYTES" using lb by (simp add: RECORD_BYTES_def)
qed

section \<open>What a decoder accepts\<close>

lemma get_extents_wf: "em_wf m \<Longrightarrow> get_extents input is m = Inr m' \<Longrightarrow> em_wf m'"
proof (induction "is" arbitrary: m)
  case (Cons k ks)
  let ?e = "\<lparr>ex_start_block = get_u64 input (336 + k * 12), ex_block_count = get_u32 input (336 + k * 12 + 8)\<rparr>"
  have "ex_block_count ?e \<le> u32_max" using get_bounds(1)[of input "336 + k * 12 + 8"] by (simp add: u32_max_def)
  from em_push_cases[OF Cons.prems(1) this] show ?case
    by cases (use Cons in \<open>auto simp: Let_def\<close>)
qed simp

lemma in_decode_typed:
  assumes l: "length input = RECORD_BYTES" and d: "in_decode input = Inr i"
  shows "in_typed i \<and> in_validate i = Inr ()"
proof -
  obtain m where m: "get_extents input [0..<unat (input ! 73)] EXTENT_MAP_EMPTY = Inr m" and v: "in_validate i = Inr ()"
    and i: "in_extents i = m" "in_path i = put_at 0 (slice 80 (in_path_length i) input) (replicate MAX_PATH_BYTES 0)"
      "in_path_length i = unat (input ! 72)" "in_inode i = get_u64 input 16" "in_generation i = get_u64 input 24" "in_mode i = get_u32 input 32"
      "in_uid i = get_u32 input 36" "in_gid i = get_u32 input 40" "in_size i = get_u64 input 48" "in_modified_ns i = get_u64 input 56"
      "in_accessed_seconds i = get_u32 input 44" "in_changed_seconds i = get_u32 input 76" "in_parent i = get_u64 input 64"
    using d by (auto simp: in_decode_def Let_def split: if_splits sum.splits)
  have n: "in_path_length i \<le> 255" using i(3) unsigned_less[of "input ! 72", where 'a = nat] by simp
  have sl: "length (slice 80 (in_path_length i) input) = in_path_length i" using n l by (simp add: length_slice RECORD_BYTES_def)
  have "em_wf m" using get_extents_wf[OF em_wf_EMPTY(1) m] .
  moreover have "drop (in_path_length i) (in_path i) = replicate (MAX_PATH_BYTES - in_path_length i) 0" "length (in_path i) = MAX_PATH_BYTES"
    using n sl unfolding i(2) by (simp_all add: put_at_def MAX_PATH_BYTES_def)
  ultimately show ?thesis using v n get_bounds[of input] by (simp add: in_typed_def i(1,4-) MAX_PATH_BYTES_def)
qed

text \<open>A sealed record with one byte changed is not sealed.\<close>

lemma sealed_one_byte:
  assumes l: "length r = RECORD_BYTES" and s: "sealed r" and i: "i < RECORD_BYTES" "v \<noteq> r ! i"
  shows "\<not> sealed (r[i := v])"
proof
  assume s': "sealed (r[i := v])"
  have l: "length r = 512" and i': "i < 512" using l i by (simp_all add: RECORD_BYTES_def)
  note S = s[unfolded sealed_def RECORD_BYTES_def, simplified] s'[unfolded sealed_def RECORD_BYTES_def, simplified]
  show False
  proof (cases "i < 508")
    case True
    then have "get_u32 (r[i := v]) 508 = get_u32 r 508" using l by (simp add: get_u32_def slice_update)
    then have "crc32 ((take 508 r)[i := v]) = crc32 (take 508 r)" using S True l by (simp add: take_update_swap word_unat_eq_iff)
    then show False using crc32_one_byte[of i "take 508 r" v] True l i(2) by simp
  next
    case False
    then have t: "take 508 (r[i := v]) = take 508 r" by simp
    then have "(from_le_bytes (slice 508 4 (r[i := v])) :: u32w) = from_le_bytes (slice 508 4 r)"
      using S by (simp add: get_u32_def word_unat_eq_iff)
    then have "slice 508 4 (r[i := v]) = slice 508 4 r"
      by (rule from_le_bytes_inj[rotated 2]) (simp_all add: length_slice l)
    then have "(slice 508 4 r)[i - 508 := v] ! (i - 508) = slice 508 4 r ! (i - 508)" using False l i' by (simp add: slice_update)
    then show False using False l i' i(2) by (simp add: length_slice slice_nth)
  qed
qed

lemma decode_sealed:
  "sb_decode input = Inr s \<Longrightarrow> sealed input" "in_decode input = Inr i \<Longrightarrow> sealed input" "ct_decode input n d = Inr c \<Longrightarrow> sealed input"
  "\<not> sealed input \<Longrightarrow> sb_decode input = Inl M4Corrupt" "\<not> sealed input \<Longrightarrow> in_decode input = Inl M4Corrupt"
  "\<not> sealed input \<Longrightarrow> ct_decode input n d = Inl M4Corrupt"
  by (auto simp: sb_decode_def in_decode_def ct_decode_def split: if_splits)

section \<open>The directory index\<close>

text \<open>\<open>chain next e is\<close>: following the links from \<open>e\<close> visits the entries \<open>is\<close> and ends.\<close>

inductive chain :: "nat list \<Rightarrow> nat \<Rightarrow> nat list \<Rightarrow> bool" for nxt where
  stop: "chain nxt 0 []"
| link: "i < length nxt \<Longrightarrow> chain nxt (nxt ! i) is \<Longrightarrow> chain nxt (Suc i) (i # is)"

lemma chain_update: "chain nxt e is \<Longrightarrow> k \<notin> set is \<Longrightarrow> chain (nxt[k := v]) e is"
  by (induction rule: chain.induct) (auto intro: chain.intros)

definition dx_matches :: "inode option list \<Rightarrow> nat \<Rightarrow> u8 list \<Rightarrow> nat \<Rightarrow> bool" where
  "dx_matches entries parent name k \<longleftrightarrow> (\<exists>i. entries ! k = Some i \<and> in_parent i = parent \<and> in_name i = name)"

lemma dx_walk_chain:
  assumes "chain (dx_next d) e is" "\<forall>k \<in> set is. k < length entries \<and> k \<le> u32_max \<and> entries ! k \<noteq> None"
  shows "dx_walk d entries parent name e = Some (find (dx_matches entries parent name) is)"
  using assms
proof (induction rule: chain.induct)
  case stop
  then show ?case by (simp add: dx_walk.simps)
next
  case (link k ks)
  then obtain i where i: "entries ! k = Some i" by auto
  then have m: "dx_matches entries parent name k \<longleftrightarrow> in_parent i = parent \<and> in_name i = name" by (simp add: dx_matches_def)
  show ?case by (subst dx_walk.simps) (use link i in \<open>simp add: m\<close>)
qed

definition dx_bucket :: "nat \<Rightarrow> inode option \<Rightarrow> nat option" where
  "dx_bucket n e = map_option (\<lambda>i. child_hash (in_parent i) (in_name i) mod n) e"

definition dx_indexes :: "directory_index \<Rightarrow> inode option list \<Rightarrow> nat \<Rightarrow> bool" where
  "dx_indexes d entries n \<longleftrightarrow> length (dx_next d) = length entries \<and>
     (\<forall>bk < length (dx_heads d). chain (dx_next d) (dx_heads d ! bk)
        (rev (filter (\<lambda>k. dx_bucket (length (dx_heads d)) (entries ! k) = Some bk) [0..<n])))"

lemma dx_insert_all_ok:
  assumes "dx_indexes d entries n" "n \<le> length entries" "length entries \<le> 65535" "0 < length (dx_heads d)"
  shows "\<exists>d'. dx_insert_all d n (drop n entries) = (Inr (), d') \<and> length (dx_heads d') = length (dx_heads d) \<and> dx_indexes d' entries (length entries)"
  using assms
proof (induction "length entries - n" arbitrary: n d)
  case 0
  then show ?case by simp
next
  case (Suc k)
  then have n: "n < length entries" by simp
  have k: "k = length entries - Suc n" using Suc.hyps(2) by simp
  have dr: "drop n entries = entries ! n # drop (Suc n) entries" using n by (simp add: Cons_nth_drop_Suc)
  note I = Suc.prems(1)[unfolded dx_indexes_def]
  show ?case
  proof (cases "entries ! n")
    case None
    have "dx_indexes d entries (Suc n)" using I None by (simp add: dx_indexes_def dx_bucket_def)
    from Suc.hyps(1)[OF k this] show ?thesis using Suc.prems n None by (simp add: dr)
  next
    case (Some i)
    let ?B = "length (dx_heads d)" let ?bk = "child_hash (in_parent i) (in_name i) mod ?B"
    let ?d = "d\<lparr>dx_next := (dx_next d)[n := dx_heads d ! ?bk], dx_heads := (dx_heads d)[?bk := Suc n]\<rparr>"
    have bk: "?bk < ?B" using Suc.prems(4) by simp
    have "chain (dx_next ?d) (dx_heads ?d ! b) (rev (filter (\<lambda>k. dx_bucket (length (dx_heads ?d)) (entries ! k) = Some b) [0..<Suc n]))"
      if b: "b < length (dx_heads ?d)" for b
    proof -
      have old: "chain (dx_next ?d) (dx_heads d ! b) (rev (filter (\<lambda>k. dx_bucket ?B (entries ! k) = Some b) [0..<n]))"
        using I b by (auto intro: chain_update)
      have nb: "dx_bucket ?B (entries ! n) = Some ?bk" using Some by (simp add: dx_bucket_def)
      show ?thesis
      proof (cases "b = ?bk")
        case True
        have "chain (dx_next ?d) (Suc n) (n # rev (filter (\<lambda>k. dx_bucket ?B (entries ! k) = Some b) [0..<n]))"
          by (rule chain.link) (use old I n True in simp_all)
        then show ?thesis using True nb bk by simp
      next
        case False
        then show ?thesis using old nb by simp
      qed
    qed
    then have ix: "dx_indexes ?d entries (Suc n)" using I by (simp add: dx_indexes_def)
    from Suc.hyps(1)[OF k ix] show ?thesis using Suc.prems n Some by (simp add: dr Let_def)
  qed
qed

lemma find_rev_filter:
  assumes "\<And>k. P k \<Longrightarrow> Q k"
  shows "find P (rev (filter Q [0..<n])) = (if filter P [0..<n] = [] then None else Some (last (filter P [0..<n])))"
proof (induction n)
  case (Suc n)
  then show ?case using assms[of n] by auto
qed simp

lemma dx_rebuild_find:
  assumes "length (dx_next d) = length entries" "length entries \<le> 65535" "0 < length (dx_heads d)"
  obtains d' where "dx_rebuild d entries = (Inr (), d')"
    "\<And>parent name. dx_find d' entries parent name =
      Some (let is = filter (dx_matches entries parent name) [0..<length entries] in if is = [] then None else Some (last is))"
proof -
  let ?z = "dx_empty (length (dx_next d)) (length (dx_heads d))"
  have "dx_indexes ?z entries 0" using assms(1) by (simp add: dx_indexes_def dx_empty_def chain.stop)
  then obtain d' where d': "dx_insert_all ?z 0 entries = (Inr (), d')" "length (dx_heads d') = length (dx_heads d)" "dx_indexes d' entries (length entries)"
    using dx_insert_all_ok[of ?z entries 0] assms by (auto simp: dx_empty_def)
  have "dx_rebuild d entries = (Inr (), d')" using d'(1) assms by (simp add: dx_rebuild_def)
  moreover have "dx_find d' entries parent name =
      Some (let is = filter (dx_matches entries parent name) [0..<length entries] in if is = [] then None else Some (last is))" for parent name
  proof -
    let ?B = "length (dx_heads d')" let ?bk = "child_hash parent name mod ?B"
    let ?is = "rev (filter (\<lambda>k. dx_bucket ?B (entries ! k) = Some ?bk) [0..<length entries])"
    have B: "?bk < ?B" using assms(3) d'(2) by simp
    then have "chain (dx_next d') (dx_heads d' ! ?bk) ?is" using d'(3) by (simp add: dx_indexes_def)
    moreover have "\<forall>k \<in> set ?is. k < length entries \<and> k \<le> u32_max \<and> entries ! k \<noteq> None"
    proof
      fix k assume "k \<in> set ?is"
      then have k: "k < length entries" "dx_bucket ?B (entries ! k) = Some ?bk" by simp_all
      have "(65535 :: nat) \<le> u32_max" by (simp add: u32_max_def)
      then have "k \<le> u32_max" using k(1) assms(2) by linarith
      moreover have "entries ! k \<noteq> None" using k(2) by (cases "entries ! k") (simp_all add: dx_bucket_def)
      ultimately show "k < length entries \<and> k \<le> u32_max \<and> entries ! k \<noteq> None" using k(1) by simp
    qed
    ultimately have walk: "dx_walk d' entries parent name (dx_heads d' ! ?bk) = Some (find (dx_matches entries parent name) ?is)"
      by (rule dx_walk_chain)
    have "?B \<noteq> 0" using B by linarith
    then have "dx_find d' entries parent name = Some (find (dx_matches entries parent name) ?is)"
      unfolding dx_find_def walk by (simp only: if_False)
    moreover have "dx_bucket ?B (entries ! k) = Some ?bk" if "dx_matches entries parent name k" for k
      using that by (auto simp: dx_matches_def dx_bucket_def)
    ultimately show ?thesis unfolding Let_def by (simp only: find_rev_filter)
  qed
  ultimately show ?thesis by (rule that)
qed

section \<open>The commit order\<close>

text \<open>The phases reported complete that the sequencer accepted, and where it stands afterwards.\<close>

fun cq_run :: "commit_phase \<Rightarrow> commit_phase list \<Rightarrow> commit_phase list \<times> commit_phase" where
  "cq_run phase [] = ([], phase)"
| "cq_run phase (c # cs) =
     (case cq_complete phase c of
        (Inl _, phase) \<Rightarrow> cq_run phase cs
      | (Inr _, phase) \<Rightarrow> (case cq_run phase cs of (accepted, phase) \<Rightarrow> (c # accepted, phase)))"

definition COMMIT_ORDER :: "commit_phase list" where
  "COMMIT_ORDER = [PhData, PhInodes, PhBitmap, PhCatalog, PhFlushMetadata, PhSuperblock, PhFlushRoot, PhComplete]"

lemma length_COMMIT_ORDER: "length COMMIT_ORDER = 8"
  by (simp add: COMMIT_ORDER_def)

lemma cq_complete_order:
  assumes "k < 8"
  shows "cq_complete (COMMIT_ORDER ! k) c =
    (if k < 7 \<and> c = COMMIT_ORDER ! k then (Inr (COMMIT_ORDER ! Suc k), COMMIT_ORDER ! Suc k) else (Inl M4WrongPhase, COMMIT_ORDER ! k))"
proof -
  have "k \<in> {0, 1, 2, 3, 4, 5, 6, 7}" using assms by auto
  then show ?thesis by (auto simp: COMMIT_ORDER_def cq_complete_def)
qed

lemma cq_run_order:
  "k < 8 \<Longrightarrow> \<exists>j. k + j < 8 \<and> cq_run (COMMIT_ORDER ! k) cs = (take j (drop k COMMIT_ORDER), COMMIT_ORDER ! (k + j))"
proof (induction cs arbitrary: k)
  case Nil
  then show ?case by (intro exI[of _ 0]) simp
next
  case (Cons c cs)
  show ?case
  proof (cases "k < 7 \<and> c = COMMIT_ORDER ! k")
    case True
    then obtain j where j: "Suc k + j < 8" "cq_run (COMMIT_ORDER ! Suc k) cs = (take j (drop (Suc k) COMMIT_ORDER), COMMIT_ORDER ! (Suc k + j))"
      using Cons.IH[of "Suc k"] by auto
    have "drop k COMMIT_ORDER = COMMIT_ORDER ! k # drop (Suc k) COMMIT_ORDER"
      using True Cons_nth_drop_Suc[of k COMMIT_ORDER] length_COMMIT_ORDER by simp
    then show ?thesis using True j cq_complete_order[OF Cons.prems, of c] by (intro exI[of _ "Suc j"]) simp
  next
    case False
    have "cq_complete (COMMIT_ORDER ! k) c = (Inl M4WrongPhase, COMMIT_ORDER ! k)"
      unfolding cq_complete_order[OF Cons.prems] using False by (simp only: if_False)
    then show ?thesis using Cons.IH[OF Cons.prems] by simp
  qed
qed

section \<open>Samples\<close>

definition m4_sample_super :: "nat \<Rightarrow> superblock" where
  "m4_sample_super g = \<lparr>sb_generation = g, sb_commit_id = 5, sb_block_count = 1000, sb_data_start = 40, sb_catalog_block = 4,
     sb_bitmap_block = 2, sb_bitmap_blocks = 1\<rparr>"

definition m4_sample_catalog :: catalog where
  "m4_sample_catalog = \<lparr>ct_generation = 1, ct_inode_count = 2, ct_maximum_inodes = 16, ct_inode_table_block = 5, ct_inode_table_blocks = 2\<rparr>"

definition m4_sample_inode :: inode where
  "m4_sample_inode = INODE_EMPTY\<lparr>in_inode := 1, in_generation := 1, in_size := 9000, in_extents := m4_sample_map,
     in_path := 0x61 # replicate 254 0, in_path_length := 1\<rparr>"

lemma m4_sample_typed: "g < 2 ^ 64 \<Longrightarrow> sb_typed (m4_sample_super g)" "ct_typed m4_sample_catalog" "in_typed m4_sample_inode"
  using m4_samples(2)
  by (simp_all add: sb_typed_def m4_sample_super_def ct_typed_def m4_sample_catalog_def in_typed_def m4_sample_inode_def INODE_EMPTY_def MAX_PATH_BYTES_def)

lemma m4_sample_encode:
  "0 < g \<Longrightarrow> \<exists>b. sb_encode (m4_sample_super g) = Inr b" "\<exists>b. ct_encode m4_sample_catalog 1000 40 = Inr b" "\<exists>b. in_encode m4_sample_inode = Inr b"
  using m4_samples(3)
  by (simp_all add: sb_encode_def sb_validate_def m4_sample_super_def checked_add_def checked_mul_def ct_encode_def ct_validate_def
      m4_sample_catalog_def in_encode_def in_validate_def m4_sample_inode_def in_name_def BLOCK_BYTES_def RECORD_BYTES_def Let_def)

section \<open>Properties\<close>

text \<open>C14: Superblocks, inodes and catalogs survive the disk: whatever encodes decodes to the same value, from a
  record of exactly 512 bytes.\<close>

theorem m4_records_roundtrip:
  assumes "sb_typed s" "in_typed i" "ct_typed c"
  shows "(\<forall>b. sb_encode s = Inr b \<longrightarrow> sb_decode b = Inr s \<and> length b = RECORD_BYTES)
    \<and> (\<forall>b. in_encode i = Inr b \<longrightarrow> in_decode b = Inr i \<and> length b = RECORD_BYTES)
    \<and> (\<forall>b n d. ct_encode c n d = Inr b \<longrightarrow> ct_decode b n d = Inr c \<and> length b = RECORD_BYTES)"
  using sb_roundtrip[OF assms(1)] in_roundtrip[OF assms(2)] ct_roundtrip[OF assms(3)] by blast

theorem m4_records_roundtrip_witness:
  "\<exists>a b c. in_encode m4_sample_inode = Inr a \<and> in_decode a = Inr m4_sample_inode
     \<and> sb_encode (m4_sample_super 1) = Inr b \<and> sb_decode b = Inr (m4_sample_super 1)
     \<and> ct_encode m4_sample_catalog 1000 40 = Inr c \<and> ct_decode c 1000 40 = Inr m4_sample_catalog"
proof -
  have "sb_typed (m4_sample_super 1)" by (rule m4_sample_typed) simp
  from m4_records_roundtrip[OF this m4_sample_typed(3,2)] m4_sample_encode(1)[of 1] m4_sample_encode(2,3) show ?thesis by fastforce
qed

text \<open>C7: Damage is detected and survived: when any one byte of a sealed record changes, all three decoders refuse
  it, and mounting from a pair of superblocks of which one was damaged this way selects the
  intact one, whatever the generations say.\<close>

theorem m4_damage_detected:
  assumes "length r = RECORD_BYTES" "sealed r" "k < RECORD_BYTES" "v \<noteq> r ! k" and "sb_decode other = Inr s"
  shows "sb_decode (r[k := v]) = Inl M4Corrupt \<and> in_decode (r[k := v]) = Inl M4Corrupt \<and> ct_decode (r[k := v]) n d = Inl M4Corrupt
    \<and> newest_superblock (sb_decode other) (sb_decode (r[k := v])) = Inr (s, 0)
    \<and> newest_superblock (sb_decode (r[k := v])) (sb_decode other) = Inr (s, 1)"
  using decode_sealed(4-6)[OF sealed_one_byte[OF assms(1-4)]] assms(5) by (simp add: newest_superblock_def)

theorem m4_damage_detected_witness:
  "\<exists>a b. sb_encode (m4_sample_super 1) = Inr a \<and> sb_encode (m4_sample_super 2) = Inr b
     \<and> newest_superblock (sb_decode a) (sb_decode (b[17 := b ! 17 + 1])) = Inr (m4_sample_super 1, 0)"
proof -
  obtain a b where e: "sb_encode (m4_sample_super 1) = Inr a" "sb_encode (m4_sample_super 2) = Inr b"
    using m4_sample_encode(1)[of 1] m4_sample_encode(1)[of 2] by auto
  have t: "sb_typed (m4_sample_super 1)" "sb_typed (m4_sample_super 2)" by (rule m4_sample_typed; simp)+
  have p: "17 < RECORD_BYTES" "b ! 17 + 1 \<noteq> b ! 17" by (simp_all add: RECORD_BYTES_def)
  note A = sb_roundtrip[OF t(1) e(1)] and B = sb_roundtrip[OF t(2) e(2)]
  have "newest_superblock (sb_decode a) (sb_decode (b[17 := b ! 17 + 1])) = Inr (m4_sample_super 1, 0)"
    using m4_damage_detected[OF B(2) decode_sealed(1)[OF B(1)] p A(1)] by blast
  then show ?thesis using e by blast
qed

text \<open>C24: Whatever a decoder accepts from an arbitrary 512-byte block is well formed: all fields in range, a padded
  name without NUL or slash, an ordered extent map, and a size its extents can hold.\<close>

theorem m4_decode_well_formed:
  assumes "length input = RECORD_BYTES" "in_decode input = Inr i"
  shows "in_typed i \<and> in_inode i \<noteq> 0 \<and> in_name i \<noteq> [] \<and> 0 \<notin> set (in_name i) \<and> 0x2f \<notin> set (in_name i)
    \<and> in_size i \<le> length (em_block_list (in_extents i)) * BLOCK_BYTES \<and> distinct (em_block_list (in_extents i))"
proof -
  note T = in_decode_typed[OF assms]
  then have "em_wf (in_extents i)" by (simp add: in_typed_def)
  then show ?thesis
    using T em_block_list_distinct unfolding in_validate_def em_block_list_length
    by (auto simp: list_ex_iff split: option.splits if_splits)
qed

theorem m4_decode_well_formed_witness: "\<exists>b. in_decode b = Inr m4_sample_inode \<and> in_name m4_sample_inode \<noteq> []"
proof -
  obtain b where b: "in_encode m4_sample_inode = Inr b" using m4_sample_encode(3) by blast
  note r = in_roundtrip[OF m4_sample_typed(3) b]
  from m4_decode_well_formed[OF r(2,1)] r(1) show ?thesis by blast
qed

text \<open>C13: After a rebuild, directory lookup always ends, although it follows links stored in memory, and returns
  the highest-numbered entry with the given parent and name, or nothing when there is none: the
  answer of a linear search.\<close>

theorem m4_directory_lookup:
  assumes "length (dx_next d) = length entries" "length entries \<le> 65535" "0 < length (dx_heads d)"
  shows "\<exists>d'. dx_rebuild d entries = (Inr (), d') \<and> (\<forall>parent name. dx_find d' entries parent name =
      Some (let is = filter (dx_matches entries parent name) [0..<length entries] in if is = [] then None else Some (last is)))"
  by (rule dx_rebuild_find[OF assms]) blast

theorem m4_directory_lookup_witness:
  "\<exists>d'. dx_rebuild (dx_empty 2 4) [Some m4_sample_inode, None] = (Inr (), d')
     \<and> dx_find d' [Some m4_sample_inode, None] 0 [0x61] = Some (Some 0)"
proof -
  let ?es = "[Some m4_sample_inode, None]"
  have "length (dx_next (dx_empty 2 4)) = length ?es" "length ?es \<le> 65535" "0 < length (dx_heads (dx_empty 2 4))"
    by (simp_all add: dx_empty_def)
  from m4_directory_lookup[OF this] obtain d' where d': "dx_rebuild (dx_empty 2 4) ?es = (Inr (), d')"
    "\<forall>parent name. dx_find d' ?es parent name =
      Some (let is = filter (dx_matches ?es parent name) [0..<length ?es] in if is = [] then None else Some (last is))" by blast
  have "dx_matches ?es 0 [0x61] 0" "\<not> dx_matches ?es 0 [0x61] 1"
    by (simp_all add: dx_matches_def m4_sample_inode_def INODE_EMPTY_def in_name_def)
  moreover have "[0..<length ?es] = [0, 1]" by (simp add: upt_rec)
  ultimately have "filter (dx_matches ?es 0 [0x61]) [0..<length ?es] = [0]" by (simp only: filter.simps if_True if_False)
  then have "dx_find d' ?es 0 [0x61] = Some (Some 0)" using d'(2) by (simp only: Let_def) simp
  then show ?thesis using d'(1) by blast
qed

text \<open>C26: Whatever completions are reported, the sequencer accepts them only in the commit order and each once:
  the superblock is accepted only after data, inodes, bitmap, catalog and the metadata flush.\<close>

theorem m4_commit_order:
  "\<exists>j \<le> 7. cq_run cq_new cs = (take j COMMIT_ORDER, COMMIT_ORDER ! j)"
proof -
  have "cq_new = COMMIT_ORDER ! 0" by (simp add: cq_new_def COMMIT_ORDER_def)
  moreover obtain j where "j < 8" "cq_run (COMMIT_ORDER ! 0) cs = (take j COMMIT_ORDER, COMMIT_ORDER ! j)"
    using cq_run_order[of 0 cs] by auto
  ultimately show ?thesis by (intro exI[of _ j]) simp
qed

end
