(* ===== verification/Fsck.thy ===== *)
theory Fsck
  imports Gpt Makfs4_Records
begin

text \<open>
  The offline checker of MAKFS4 volumes, \<open>crates/makfs4-fsck/src/lib.rs\<close>: it finds the data
  partition, reads both superblocks, the catalog, every inode and the bitmap, and compares
  them. The file is the list of its bytes; seeking and reading are bounds-checked slices. The
  error strings are the constructors of \<open>fsck_error\<close>. The hash set of child names is a list.
  The theorems show what an accepted volume satisfies.
\<close>

unbundle bit_operations_syntax

section \<open>Geometry\<close>

definition SUPERBLOCK_LBAS :: "nat list" where "SUPERBLOCK_LBAS = [112, 120]"
definition METADATA_FIRST_BLOCK :: nat where "METADATA_FIRST_BLOCK = 16"
definition METADATA_LIMIT_BLOCK :: nat where "METADATA_LIMIT_BLOCK = 256"
definition DATA_START_BLOCK :: nat where "DATA_START_BLOCK = 131072"
definition MAXIMUM_INODES :: nat where "MAXIMUM_INODES = 512"
definition INODE_TABLE_BLOCKS :: nat where "INODE_TABLE_BLOCKS = 64"

datatype fsck_error =
    FkIo | FkDiskUnaligned | FkPartitionOverflow | FkNoPartition | FkVolumeUnaligned | FkSuperblocks | FkCatalog
  | FkGeometry | FkCatalogGeometry | FkGeneration | FkOffsetOverflow | FkInodeCorrupt nat | FkInodeIdentity nat
  | FkInodeCount | FkRootMissing | FkRootInvalid | FkType nat | FkParent nat | FkParentMissing nat | FkDuplicateName nat
  | FkChain nat | FkChainMissing nat | FkCycle nat | FkExtentOverflow nat | FkMultiplyReferenced nat
  | FkBitmapMismatch nat | FkBitmapTail | FkNoDataRegion | FkBitmapTooLarge | FkMetadataTooLarge

record report =
  rp_generation :: nat
  rp_root_slot :: nat
  rp_inodes :: nat
  rp_files :: nat
  rp_directories :: nat
  rp_symlinks :: nat
  rp_allocated_blocks :: nat
  rp_volume_offset_bytes :: nat

definition div_ceil :: "nat \<Rightarrow> nat \<Rightarrow> nat" where
  "div_ceil a b = (a + b - 1) div b"

definition fk_metadata_sets :: "nat \<Rightarrow> (fsck_error, nat \<times> (nat \<times> nat) list) result" where
  "fk_metadata_sets block_count =
     (if block_count \<le> DATA_START_BLOCK then Inl FkNoDataRegion
      else
        (let bitmap_blocks = div_ceil (div_ceil (block_count - DATA_START_BLOCK) 8) BLOCK_BYTES
         in if bitmap_blocks > u32_max then Inl FkBitmapTooLarge
            else
              (let set_blocks = bitmap_blocks + 1 + INODE_TABLE_BLOCKS;
                   starts = [METADATA_FIRST_BLOCK, METADATA_FIRST_BLOCK + set_blocks, METADATA_FIRST_BLOCK + set_blocks * 2]
               in if starts ! 2 + set_blocks > METADATA_LIMIT_BLOCK then Inl FkMetadataTooLarge
                  else Inr (bitmap_blocks, map (\<lambda>start. (start, start + bitmap_blocks)) starts))))"

definition fk_validate_geometry :: "superblock \<Rightarrow> nat \<Rightarrow> (fsck_error, unit) result" where
  "fk_validate_geometry s block_count =
     and_then (fk_metadata_sets block_count) (\<lambda>(bitmap_blocks, sets).
     if sb_block_count s \<noteq> block_count \<or> sb_data_start s \<noteq> DATA_START_BLOCK \<or> sb_bitmap_blocks s \<noteq> bitmap_blocks
        \<or> (sb_bitmap_block s, sb_catalog_block s) \<notin> set sets
     then Inl FkGeometry else Inr ())"

definition fk_validate_catalog_geometry :: "superblock \<Rightarrow> catalog \<Rightarrow> (fsck_error, unit) result" where
  "fk_validate_catalog_geometry s c =
     and_then (fk_metadata_sets (sb_block_count s)) (\<lambda>(_, sets).
     if ct_maximum_inodes c \<noteq> MAXIMUM_INODES \<or> ct_inode_table_blocks c \<noteq> INODE_TABLE_BLOCKS
        \<or> \<not> list_ex (\<lambda>(bits, catalog_block). bits = sb_bitmap_block s \<and> catalog_block = sb_catalog_block s
              \<and> ct_inode_table_block c = catalog_block + 1) sets
     then Inl FkCatalogGeometry else Inr ())"

section \<open>Reading\<close>

definition fk_read_record :: "u8 list \<Rightarrow> nat \<Rightarrow> (fsck_error, u8 list) result" where
  "fk_read_record disk offset = ok_or FkIo (get_range disk offset RECORD_BYTES)"

definition fk_read_blocks :: "u8 list \<Rightarrow> nat \<Rightarrow> nat \<Rightarrow> nat \<Rightarrow> (fsck_error, u8 list) result" where
  "fk_read_blocks disk volume_offset block count =
     ok_or FkIo (get_range disk (volume_offset + block * BLOCK_BYTES) (count * BLOCK_BYTES))"

text \<open>One superblock slot: an unreadable record fails the check, an invalid one counts as corrupt.\<close>

definition fk_root :: "u8 list \<Rightarrow> nat \<Rightarrow> nat \<Rightarrow> nat \<Rightarrow> (fsck_error, (m4_error, superblock) result) result" where
  "fk_root disk volume_offset block_count lba =
     and_then (fk_read_record disk (volume_offset + lba * SECTOR_BYTES)) (\<lambda>record'.
     Inr (and_then (sb_decode record') (\<lambda>s.
          case fk_validate_geometry s block_count of Inl _ \<Rightarrow> Inl M4Corrupt | Inr _ \<Rightarrow> Inr s)))"

definition fk_load_inode :: "u8 list \<Rightarrow> nat \<Rightarrow> superblock \<Rightarrow> catalog \<Rightarrow> nat \<Rightarrow> (fsck_error, inode option) result" where
  "fk_load_inode disk volume_offset s c index =
     and_then (ok_or FkOffsetOverflow (Option.bind (checked_mul (ct_inode_table_block c) BLOCK_BYTES) (\<lambda>base.
                 checked_add base (index * RECORD_BYTES)))) (\<lambda>relative_offset.
     and_then (ok_or FkOffsetOverflow (checked_add volume_offset relative_offset)) (\<lambda>offset.
     and_then (fk_read_record disk offset) (\<lambda>record'.
     if list_all (\<lambda>byte. byte = 0) record' then Inr None
     else
       case and_then (in_decode record') (\<lambda>i.
              and_then (in_validate_on_volume i (sb_data_start s) (sb_block_count s)) (\<lambda>_. Inr i)) of
         Inl _ \<Rightarrow> Inl (FkInodeCorrupt index)
       | Inr i \<Rightarrow>
           if in_inode i \<noteq> index + 1 \<or> in_generation i > sb_generation s then Inl (FkInodeIdentity index)
           else Inr (Some i))))"

fun fk_load_inodes :: "u8 list \<Rightarrow> nat \<Rightarrow> superblock \<Rightarrow> catalog \<Rightarrow> nat list \<Rightarrow> (fsck_error, inode option list) result" where
  "fk_load_inodes disk volume_offset s c [] = Inr []"
| "fk_load_inodes disk volume_offset s c (index # indices) =
     and_then (fk_load_inode disk volume_offset s c index) (\<lambda>i.
     and_then (fk_load_inodes disk volume_offset s c indices) (\<lambda>is. Inr (i # is)))"

section \<open>Checking the tree\<close>

text \<open>\<open>mode & 0o170000\<close>\<close>

definition in_type :: "inode \<Rightarrow> u32w" where
  "in_type i = of_nat (in_mode i) AND 0xf000"

abbreviation TYPE_DIRECTORY :: u32w where "TYPE_DIRECTORY \<equiv> 0x4000"
abbreviation TYPE_FILE :: u32w where "TYPE_FILE \<equiv> 0x8000"
abbreviation TYPE_SYMLINK :: u32w where "TYPE_SYMLINK \<equiv> 0xa000"

text \<open>\<open>inodes.get(index).copied().flatten()\<close>\<close>

definition fk_get :: "inode option list \<Rightarrow> nat \<Rightarrow> inode option" where
  "fk_get inodes index = (if index < length inodes then inodes ! index else None)"

fun fk_chain_loop :: "inode option list \<Rightarrow> inode \<Rightarrow> nat \<Rightarrow> inode \<Rightarrow> (fsck_error, unit) result" where
  "fk_chain_loop inodes i 0 current = Inl (FkCycle (in_inode i))"
| "fk_chain_loop inodes i (Suc rounds) current =
     (if in_inode current = 1 then Inr ()
      else
        and_then (ok_or (FkChain (in_inode i)) (checked_sub (in_parent current) 1)) (\<lambda>parent_index.
        and_then (ok_or (FkChainMissing (in_inode i)) (fk_get inodes parent_index)) (\<lambda>current.
        fk_chain_loop inodes i rounds current)))"

definition fk_validate_parent_chain :: "inode option list \<Rightarrow> inode \<Rightarrow> (fsck_error, unit) result" where
  "fk_validate_parent_chain inodes i = fk_chain_loop inodes i (length inodes) i"

record fk_state =
  fk_bitmap :: "bool list"
  fk_children :: "(nat \<times> u8 list) list"
  fk_files :: nat
  fk_directories :: nat
  fk_symlinks :: nat

definition fk_count_type :: "inode \<Rightarrow> fk_state \<Rightarrow> (fsck_error, fk_state) result" where
  "fk_count_type i st =
     (if in_type i = TYPE_DIRECTORY then Inr (st\<lparr>fk_directories := fk_directories st + 1\<rparr>)
      else if in_type i = TYPE_FILE then Inr (st\<lparr>fk_files := fk_files st + 1\<rparr>)
      else if in_type i = TYPE_SYMLINK then Inr (st\<lparr>fk_symlinks := fk_symlinks st + 1\<rparr>)
      else Inl (FkType (in_inode i)))"

definition fk_check_parent :: "inode option list \<Rightarrow> inode \<Rightarrow> fk_state \<Rightarrow> (fsck_error, fk_state) result" where
  "fk_check_parent inodes i st =
     (if in_inode i = 1 then Inr st
      else
        and_then (ok_or (FkParent (in_inode i)) (checked_sub (in_parent i) 1)) (\<lambda>parent_index.
        case fk_get inodes parent_index of
          None \<Rightarrow> Inl (FkParentMissing (in_inode i))
        | Some parent \<Rightarrow>
            if in_type parent \<noteq> TYPE_DIRECTORY then Inl (FkParentMissing (in_inode i))
            else if (in_inode parent, in_name i) \<in> set (fk_children st) then Inl (FkDuplicateName (in_inode parent))
            else
              and_then (fk_validate_parent_chain inodes i) (\<lambda>_.
              Inr (st\<lparr>fk_children := (in_inode parent, in_name i) # fk_children st\<rparr>))))"

fun fk_mark_blocks :: "nat \<Rightarrow> nat list \<Rightarrow> bool list \<Rightarrow> (fsck_error, bool list) result" where
  "fk_mark_blocks data_start [] bits = Inr bits"
| "fk_mark_blocks data_start (block # blocks) bits =
     (let relative = block - data_start
      in if bits ! relative then Inl (FkMultiplyReferenced block)
         else fk_mark_blocks data_start blocks (bits[relative := True]))"

fun fk_mark_extents :: "nat \<Rightarrow> inode \<Rightarrow> extent list \<Rightarrow> bool list \<Rightarrow> (fsck_error, bool list) result" where
  "fk_mark_extents data_start i [] bits = Inr bits"
| "fk_mark_extents data_start i (extent # extents) bits =
     and_then (ok_or (FkExtentOverflow (in_inode i)) (ex_end_block extent)) (\<lambda>e.
     and_then (fk_mark_blocks data_start [ex_start_block extent..<e] bits) (\<lambda>bits.
     fk_mark_extents data_start i extents bits))"

definition fk_visit :: "nat \<Rightarrow> inode option list \<Rightarrow> inode \<Rightarrow> fk_state \<Rightarrow> (fsck_error, fk_state) result" where
  "fk_visit data_start inodes i st =
     and_then (fk_count_type i st) (\<lambda>st.
     and_then (fk_check_parent inodes i st) (\<lambda>st.
     and_then (fk_mark_extents data_start i (em_list (in_extents i)) (fk_bitmap st)) (\<lambda>bits.
     Inr (st\<lparr>fk_bitmap := bits\<rparr>))))"

text \<open>\<open>inodes.iter().flatten()\<close>: the records present, visited in order.\<close>

definition fk_present :: "inode option list \<Rightarrow> inode list" where
  "fk_present inodes = concat (map (\<lambda>x. case x of None \<Rightarrow> [] | Some i \<Rightarrow> [i]) inodes)"

fun fk_visit_all :: "nat \<Rightarrow> inode option list \<Rightarrow> inode list \<Rightarrow> fk_state \<Rightarrow> (fsck_error, fk_state) result" where
  "fk_visit_all data_start inodes [] st = Inr st"
| "fk_visit_all data_start inodes (i # rest) st =
     and_then (fk_visit data_start inodes i st) (fk_visit_all data_start inodes rest)"

section \<open>Checking the bitmap\<close>

definition fk_bit :: "u8 list \<Rightarrow> nat \<Rightarrow> bool" where
  "fk_bit bytes relative \<longleftrightarrow> bytes ! (relative div 8) AND push_bit (relative mod 8) 1 \<noteq> 0"

fun fk_compare :: "u8 list \<Rightarrow> nat \<Rightarrow> nat \<Rightarrow> bool list \<Rightarrow> (fsck_error, unit) result" where
  "fk_compare bytes data_start relative [] = Inr ()"
| "fk_compare bytes data_start relative (expected # rest) =
     (if fk_bit bytes relative \<noteq> expected then Inl (FkBitmapMismatch (data_start + relative))
      else fk_compare bytes data_start (relative + 1) rest)"

definition fk_check_tail :: "u8 list \<Rightarrow> nat \<Rightarrow> (fsck_error, unit) result" where
  "fk_check_tail bytes data_blocks =
     (let used = div_ceil data_blocks 8
      in if data_blocks mod 8 \<noteq> 0 \<and> bytes ! (used - 1) AND NOT (push_bit (data_blocks mod 8) 1 - 1) \<noteq> 0 then Inl FkBitmapTail
         else if list_ex (\<lambda>byte. byte \<noteq> 0) (drop used bytes) then Inl FkBitmapTail
         else Inr ())"

section \<open>The check\<close>

text \<open>From the loaded inodes on.\<close>

definition fk_check_tree :: "u8 list \<Rightarrow> nat \<Rightarrow> superblock \<Rightarrow> nat \<Rightarrow> catalog \<Rightarrow> inode option list \<Rightarrow> (fsck_error, report) result" where
  "fk_check_tree disk volume_offset s root_slot c inodes =
     (if length (fk_present inodes) \<noteq> ct_inode_count c then Inl FkInodeCount
      else
        and_then (ok_or FkRootMissing (inodes ! 0)) (\<lambda>root.
        if in_inode root \<noteq> 1 \<or> in_parent root \<noteq> 1 \<or> in_type root \<noteq> TYPE_DIRECTORY then Inl FkRootInvalid
        else
          (let data_blocks = sb_block_count s - sb_data_start s
           in and_then (fk_visit_all (sb_data_start s) inodes (fk_present inodes)
                  \<lparr>fk_bitmap = replicate data_blocks False, fk_children = [], fk_files = 0, fk_directories = 0, fk_symlinks = 0\<rparr>) (\<lambda>st.
              and_then (fk_read_blocks disk volume_offset (sb_bitmap_block s) (sb_bitmap_blocks s)) (\<lambda>bitmap_bytes.
              and_then (fk_compare bitmap_bytes (sb_data_start s) 0 (fk_bitmap st)) (\<lambda>_.
              and_then (fk_check_tail bitmap_bytes data_blocks) (\<lambda>_.
              Inr \<lparr>rp_generation = sb_generation s, rp_root_slot = root_slot, rp_inodes = ct_inode_count c,
                   rp_files = fk_files st, rp_directories = fk_directories st, rp_symlinks = fk_symlinks st,
                   rp_allocated_blocks = length (filter id (fk_bitmap st)), rp_volume_offset_bytes = volume_offset\<rparr>)))))))"

definition fk_check_volume :: "u8 list \<Rightarrow> nat \<Rightarrow> nat \<Rightarrow> (fsck_error, report) result" where
  "fk_check_volume disk volume_offset bytes =
     (if bytes mod BLOCK_BYTES \<noteq> 0 then Inl FkVolumeUnaligned
      else
        (let block_count = bytes div BLOCK_BYTES
         in and_then (fk_root disk volume_offset block_count (SUPERBLOCK_LBAS ! 0)) (\<lambda>first.
            and_then (fk_root disk volume_offset block_count (SUPERBLOCK_LBAS ! 1)) (\<lambda>second.
            case newest_superblock first second of
              Inl _ \<Rightarrow> Inl FkSuperblocks
            | Inr (s, root_slot) \<Rightarrow>
                and_then (fk_read_record disk (volume_offset + sb_catalog_block s * BLOCK_BYTES)) (\<lambda>catalog_record.
                case ct_decode catalog_record block_count (sb_data_start s) of
                  Inl _ \<Rightarrow> Inl FkCatalog
                | Inr c \<Rightarrow>
                    and_then (fk_validate_catalog_geometry s c) (\<lambda>_.
                    if ct_generation c \<noteq> sb_generation s then Inl FkGeneration
                    else
                      and_then (fk_load_inodes disk volume_offset s c [0..<ct_maximum_inodes c]) (\<lambda>inodes.
                      fk_check_tree disk volume_offset s root_slot c inodes)))))))"

definition fk_check :: "u8 list \<Rightarrow> nat \<Rightarrow> (fsck_error, report) result" where
  "fk_check disk bytes = fk_check_volume disk 0 bytes"



section \<open>What a successful check has established\<close>



























section \<open>A sample volume\<close>














section \<open>Properties\<close>



end
