(* ===== verification/Structured_Log.thy ===== *)
theory Structured_Log
  imports Byte_Records
begin

text \<open>
  The system journal, \<open>crates/structured-log/src/lib.rs\<close>: a ring of the last 32 records and its
  disk image. Sequence numbers are natural numbers with the checked increment of the source;
  ticks, process ids, severities and lengths are words. The theorems: the ring is the tail of
  the list of all accepted records, and images and journals correspond one to one.
\<close>

unbundle bit_operations_syntax

definition LOG_CAPACITY :: nat where "LOG_CAPACITY = 32"
definition MESSAGE_BYTES :: nat where "MESSAGE_BYTES = 80"
definition LOG_HEADER_BYTES :: nat where "LOG_HEADER_BYTES = 32"
definition LOG_RECORD_BYTES :: nat where "LOG_RECORD_BYTES = 112"
definition IMAGE_BYTES :: nat where "IMAGE_BYTES = LOG_HEADER_BYTES + LOG_CAPACITY * LOG_RECORD_BYTES"
definition LOG_MAGIC :: "u8 list" where "LOG_MAGIC = [0x4d, 0x41, 0x4b, 0x4c, 0x4f, 0x47, 0x30, 0x31]"

lemmas log_sizes = LOG_CAPACITY_def MESSAGE_BYTES_def LOG_HEADER_BYTES_def LOG_RECORD_BYTES_def IMAGE_BYTES_def

record log_record =
  lr_sequence :: nat
  lr_ticks :: u64w
  lr_pid :: u64w
  lr_severity :: u8
  lr_length :: u8
  lr_message :: "u8 list"

definition LOG_EMPTY :: log_record where
  "LOG_EMPTY = \<lparr>lr_sequence = 0, lr_ticks = 0, lr_pid = 0, lr_severity = 0, lr_length = 0, lr_message = replicate MESSAGE_BYTES 0\<rparr>"

definition lr_text :: "log_record \<Rightarrow> u8 list" where
  "lr_text r = take (unat (lr_length r)) (lr_message r)"

record journal =
  jn_records :: "log_record list"
  jn_next_sequence :: nat

definition jn_new :: journal where
  "jn_new = \<lparr>jn_records = replicate LOG_CAPACITY LOG_EMPTY, jn_next_sequence = 1\<rparr>"

definition jn_record_count :: "journal \<Rightarrow> nat" where
  "jn_record_count j = length (filter (\<lambda>r. lr_sequence r \<noteq> 0) (jn_records j))"

definition jn_append :: "u64w \<Rightarrow> u64w \<Rightarrow> u8 \<Rightarrow> u8 list \<Rightarrow> journal \<Rightarrow> nat option \<times> journal" where
  "jn_append ticks pid severity message j =
     (if severity > 7 \<or> message = [] \<or> length message > MESSAGE_BYTES then (None, j)
      else
        (let sequence = jn_next_sequence j
         in case checked_add sequence 1 of
              None \<Rightarrow> (None, j)
            | Some next \<Rightarrow>
                (let index = (sequence - 1) mod LOG_CAPACITY;
                     r = LOG_EMPTY\<lparr>lr_sequence := sequence, lr_ticks := ticks, lr_pid := pid, lr_severity := severity,
                           lr_length := of_nat (length message), lr_message := put_at 0 message (lr_message LOG_EMPTY)\<rparr>
                 in (Some sequence, j\<lparr>jn_next_sequence := next, jn_records := (jn_records j)[index := r]\<rparr>))))"

definition jn_record :: "journal \<Rightarrow> nat \<Rightarrow> log_record option" where
  "jn_record j sequence =
     (if sequence = 0 then None
      else
        (let r = jn_records j ! ((sequence - 1) mod LOG_CAPACITY)
         in if lr_sequence r = sequence then Some r else None))"

section \<open>The disk image\<close>

definition image_crc :: "u8 list \<Rightarrow> u32w" where
  "image_crc bytes = (let crc = crc32_update 0xffffffff (take 28 bytes) in NOT (crc32_update crc (drop 32 bytes)))"

definition jn_put_record :: "nat \<Rightarrow> log_record \<Rightarrow> u8 list \<Rightarrow> u8 list" where
  "jn_put_record index r output =
     (let offset = LOG_HEADER_BYTES + index * LOG_RECORD_BYTES;
          output = put_u64 output offset (lr_sequence r);
          output = put_u64 output (offset + 8) (unat (lr_ticks r));
          output = put_u64 output (offset + 16) (unat (lr_pid r));
          output = output[offset + 24 := lr_severity r];
          output = output[offset + 25 := lr_length r]
      in put_at (offset + 32) (lr_message r) output)"

fun jn_put_records :: "nat \<Rightarrow> log_record list \<Rightarrow> u8 list \<Rightarrow> u8 list" where
  "jn_put_records index [] output = output"
| "jn_put_records index (r # rs) output = jn_put_records (index + 1) rs (jn_put_record index r output)"

definition jn_encode :: "journal \<Rightarrow> u8 list" where
  "jn_encode j =
     (let output = replicate IMAGE_BYTES 0;
          output = put_at 0 LOG_MAGIC output;
          output = put_u32 output 8 1;
          output = put_u32 output 12 LOG_CAPACITY;
          output = put_u64 output 16 (jn_next_sequence j);
          output = put_u32 output 24 (jn_record_count j);
          output = jn_put_records 0 (jn_records j) output;
          crc = image_crc output
      in put_u32 output 28 (unat crc))"

datatype decode_error = DeHeader | DeChecksum | DeRecord

text \<open>The record at an index: \<^const>\<open>None\<close> when the slot is empty.\<close>

definition jn_decode_record :: "u8 list \<Rightarrow> nat \<Rightarrow> nat \<Rightarrow> nat \<Rightarrow> (decode_error, log_record option) result" where
  "jn_decode_record input next_sequence earliest index =
     (let offset = LOG_HEADER_BYTES + index * LOG_RECORD_BYTES;
          sequence = get_u64 input offset
      in if sequence = 0 then
           (if list_ex (\<lambda>byte. byte \<noteq> 0) (slice offset LOG_RECORD_BYTES input) then Inl DeRecord else Inr None)
         else
           (let severity = input ! (offset + 24); len = input ! (offset + 25)
            in if sequence < earliest \<or> sequence \<ge> next_sequence \<or> (sequence - 1) mod LOG_CAPACITY \<noteq> index \<or> severity > 7
                  \<or> len = 0 \<or> unat len > MESSAGE_BYTES \<or> list_ex (\<lambda>byte. byte \<noteq> 0) (slice (offset + 26) 6 input)
               then Inl DeRecord
               else
                 (let r = LOG_EMPTY\<lparr>lr_sequence := sequence, lr_ticks := of_nat (get_u64 input (offset + 8)),
                        lr_pid := of_nat (get_u64 input (offset + 16)), lr_severity := severity, lr_length := len,
                        lr_message := slice (offset + 32) MESSAGE_BYTES input\<rparr>
                  in if list_ex (\<lambda>byte. byte \<noteq> 0) (drop (unat len) (lr_message r)) then Inl DeRecord else Inr (Some r))))"

fun jn_decode_loop :: "u8 list \<Rightarrow> nat \<Rightarrow> nat list \<Rightarrow> log_record list \<Rightarrow> nat \<Rightarrow> (decode_error, log_record list \<times> nat) result" where
  "jn_decode_loop input earliest [] records count = Inr (records, count)"
| "jn_decode_loop input earliest (index # indices) records count =
     and_then (jn_decode_record input (get_u64 input 16) earliest index) (\<lambda>x.
       case x of None \<Rightarrow> jn_decode_loop input earliest indices records count
               | Some r \<Rightarrow> jn_decode_loop input earliest indices (records[index := r]) (count + 1))"

definition jn_decode :: "u8 list \<Rightarrow> (decode_error, journal) result" where
  "jn_decode input =
     (if length input \<noteq> IMAGE_BYTES \<or> take 8 input \<noteq> LOG_MAGIC \<or> get_u32 input 8 \<noteq> 1 \<or> get_u32 input 12 \<noteq> LOG_CAPACITY then Inl DeHeader
      else if unat (image_crc input) \<noteq> get_u32 input 28 then Inl DeChecksum
      else
        (let next_sequence = get_u64 input 16
         in if next_sequence = 0 then Inl DeRecord
            else
              (let expected_count = min (next_sequence - 1) LOG_CAPACITY;
                   earliest = max (next_sequence - LOG_CAPACITY) 1
               in and_then (jn_decode_loop input earliest [0..<LOG_CAPACITY] (jn_records jn_new) 0) (\<lambda>(records, count).
                  if count \<noteq> expected_count \<or> count \<noteq> get_u32 input 24 then Inl DeRecord
                  else Inr \<lparr>jn_records = records, jn_next_sequence = next_sequence\<rparr>))))"

section \<open>The invariant\<close>

definition lr_ok :: "log_record \<Rightarrow> bool" where
  "lr_ok r \<longleftrightarrow> lr_severity r \<le> 7 \<and> lr_length r \<noteq> 0 \<and> unat (lr_length r) \<le> 80 \<and> length (lr_message r) = 80
     \<and> list_all (\<lambda>byte. byte = 0) (drop (unat (lr_length r)) (lr_message r))"

text \<open>What slot \<open>k\<close> holds when \<open>next\<close> is the next sequence number.\<close>

definition slot_ok :: "nat \<Rightarrow> nat \<Rightarrow> log_record \<Rightarrow> bool" where
  "slot_ok next k r \<longleftrightarrow>
     (if k + 1 < next then lr_ok r \<and> 0 < lr_sequence r \<and> lr_sequence r < next \<and> next \<le> lr_sequence r + 32 \<and> (lr_sequence r - 1) mod 32 = k
      else r = LOG_EMPTY)"

definition jn_inv :: "journal \<Rightarrow> bool" where
  "jn_inv j \<longleftrightarrow> length (jn_records j) = 32 \<and> 0 < jn_next_sequence j \<and> jn_next_sequence j < 2 ^ 64
     \<and> (\<forall>k < 32. slot_ok (jn_next_sequence j) k (jn_records j ! k))"

lemma mod_window: "x mod n = y mod n \<Longrightarrow> x < y + n \<Longrightarrow> y \<le> x \<Longrightarrow> x = (y :: nat)"
  using mod_eq_dvd_iff_nat[of y x n] nat_dvd_not_less[of "x - y" n] by fastforce

lemma slot_unique:
  assumes "0 < (a :: nat)" "a < n" "n \<le> a + 32" "0 < b" "b < n" "n \<le> b + 32" "(a - 1) mod 32 = (b - 1) mod 32"
  shows "a = b"
  using mod_window[of "a - 1" 32 "b - 1"] mod_window[of "b - 1" 32 "a - 1"] assms by linarith

lemma jn_new_inv: "jn_inv jn_new"
  by (simp add: jn_inv_def jn_new_def slot_ok_def log_sizes)

lemma jn_append_cases:
  assumes "jn_append ticks pid severity message j = (x, j')"
  obtains "x = None" "j' = j" | r where "x = Some (jn_next_sequence j)" "jn_next_sequence j + 1 < 2 ^ 64" "lr_ok r" "lr_text r = message"
    "lr_sequence r = jn_next_sequence j" "lr_ticks r = ticks" "lr_pid r = pid" "lr_severity r = severity"
    "j' = \<lparr>jn_records = (jn_records j)[(jn_next_sequence j - 1) mod 32 := r], jn_next_sequence = jn_next_sequence j + 1\<rparr>"
proof (cases "severity > 7 \<or> message = [] \<or> length message > 80 \<or> 2 ^ 64 \<le> jn_next_sequence j + 1")
  case True
  then show ?thesis using assms that(1) by (auto simp: jn_append_def log_sizes Let_def split: if_splits option.splits)
next
  case False
  let ?r = "\<lparr>lr_sequence = jn_next_sequence j, lr_ticks = ticks, lr_pid = pid, lr_severity = severity,
    lr_length = of_nat (length message), lr_message = message @ replicate (80 - length message) 0\<rparr>"
  have l: "unat (of_nat (length message) :: u8) = length message" using False by (simp add: unat_of_nat)
  then have "(of_nat (length message) :: u8) \<noteq> 0" using False by (metis length_0_conv unat_0)
  then have "lr_ok ?r" "lr_text ?r = message" using False l by (simp_all add: lr_ok_def lr_text_def not_less list_all_iff)
  moreover have "x = Some (jn_next_sequence j)"
    "j' = \<lparr>jn_records = (jn_records j)[(jn_next_sequence j - 1) mod 32 := ?r], jn_next_sequence = jn_next_sequence j + 1\<rparr>"
    using assms False by (auto simp: jn_append_def log_sizes LOG_EMPTY_def Let_def put_at_def checked_add_def)
  ultimately show ?thesis using that(2)[of ?r] False by simp
qed

lemma slot_ok_next:
  assumes "slot_ok n k r" "0 < n" "k < 32" "k \<noteq> (n - 1) mod 32"
  shows "slot_ok (n + 1) k r"
proof (cases "k + 1 < n")
  case True
  then have r: "lr_ok r" "0 < lr_sequence r" "lr_sequence r < n" "n \<le> lr_sequence r + 32" "(lr_sequence r - 1) mod 32 = k"
    using assms(1) by (simp_all add: slot_ok_def)
  have "n \<noteq> lr_sequence r + 32"
  proof
    assume "n = lr_sequence r + 32"
    then have "n - 1 = lr_sequence r - 1 + 32" using r(2) by simp
    then show False using r(5) assms(4) by simp
  qed
  then show ?thesis using r True by (simp add: slot_ok_def)
next
  case False
  then have "\<not> k + 1 < n + 1" using assms(2-4) by (cases "k = n - 1") auto
  then show ?thesis using False assms(1) by (simp add: slot_ok_def)
qed

lemma jn_append_inv:
  assumes "jn_inv j" "jn_append ticks pid severity message j = (x, j')"
  shows "jn_inv j'"
  using assms(2)
proof (cases rule: jn_append_cases)
  case (2 r)
  let ?n = "jn_next_sequence j" and ?i = "(jn_next_sequence j - 1) mod 32"
  have n: "0 < ?n" "length (jn_records j) = 32" using assms(1) by (simp_all add: jn_inv_def)
  have "slot_ok (?n + 1) k ((jn_records j)[?i := r] ! k)" if k: "k < 32" for k
  proof (cases "k = ?i")
    case True
    have "?i \<le> ?n - 1" by (rule mod_less_eq_dividend)
    then show ?thesis using True k 2 n by (simp add: slot_ok_def)
  next
    case False
    then show ?thesis using slot_ok_next[of ?n k "jn_records j ! k"] k n assms(1) by (simp add: jn_inv_def)
  qed
  then show ?thesis using 2 n by (simp add: jn_inv_def)
qed (use assms(1) in simp)

section \<open>The layout of an image\<close>

definition rec_bytes :: "log_record \<Rightarrow> u8 list" where
  "rec_bytes r = to_le_bytes 8 (of_nat (lr_sequence r) :: u64w) @ to_le_bytes 8 (lr_ticks r) @ to_le_bytes 8 (lr_pid r)
     @ [lr_severity r, lr_length r] @ replicate 6 0 @ lr_message r"

lemma put_at_append2: "put_at (length A + m) bs (A @ X) = A @ put_at m bs X"
  by (simp add: put_at_def)

lemma put_at_append1: "m + length bs \<le> length X \<Longrightarrow> put_at m bs (X @ B) = put_at m bs X @ B"
  by (simp add: put_at_def)

lemma update_put_at: "i < length out \<Longrightarrow> out[i := v] = put_at i [v] out"
  by (simp add: put_at_def upd_conv_take_nth_drop)

lemma rec_bytes_length: "length (lr_message r) = 80 \<Longrightarrow> length (rec_bytes r) = 112"
  by (simp add: rec_bytes_def)

lemma jn_put_record_bytes:
  assumes "length A = 32 + 112 * k" "length (lr_message r) = 80"
  shows "jn_put_record k r (A @ replicate 112 0 @ B) = A @ rec_bytes r @ B"
proof -
  define off where "off = length A"
  have o: "LOG_HEADER_BYTES + k * LOG_RECORD_BYTES = off" using assms(1) by (simp add: log_sizes off_def)
  have z: "put_at 32 (lr_message r) ((put_at 16 p (put_at 8 t (put_at 0 q (replicate 112 0))))[24 := s, 25 := l]) = q @ t @ p @ [s, l] @ replicate 6 0 @ lr_message r"
    if "length q = 8" "length t = 8" "length p = 8" for q t p and s l :: u8
    using that assms(2) by (simp add: update_put_at) (simp add: put_at_def)
  show ?thesis
    using put_at_append2[of A 0] assms(2)
    by (simp add: jn_put_record_def Let_def o put_u64_def)
      (simp add: off_def put_at_append2 put_at_append1 list_update_append z rec_bytes_def)
qed

lemma jn_put_records_bytes:
  "length A = 32 + 112 * k \<Longrightarrow> \<forall>r \<in> set rs. length (lr_message r) = 80 \<Longrightarrow>
   jn_put_records k rs (A @ replicate (112 * length rs) 0) = A @ concat (map rec_bytes rs)"
proof (induction rs arbitrary: A k)
  case (Cons r rs)
  have "replicate (112 * length (r # rs)) 0 = replicate 112 0 @ replicate (112 * length rs) (0 :: u8)" by (simp add: replicate_add[symmetric])
  then have "jn_put_records k (r # rs) (A @ replicate (112 * length (r # rs)) 0)
      = jn_put_records (k + 1) rs ((A @ rec_bytes r) @ replicate (112 * length rs) 0)"
    using Cons.prems jn_put_record_bytes[of A k r] by simp
  also have "\<dots> = (A @ rec_bytes r) @ concat (map rec_bytes rs)"
    using Cons.prems by (intro Cons.IH) (simp_all add: rec_bytes_length)
  finally show ?case by simp
qed simp

text \<open>The first 28 bytes of the header, and the whole image.\<close>

definition head_bytes :: "nat \<Rightarrow> nat \<Rightarrow> u8 list" where
  "head_bytes next count = LOG_MAGIC @ to_le_bytes 4 (1 :: u32w) @ to_le_bytes 4 (32 :: u32w) @ to_le_bytes 8 (of_nat next :: u64w)
     @ to_le_bytes 4 (of_nat count :: u32w)"

definition image_bytes :: "nat \<Rightarrow> nat \<Rightarrow> u8 list \<Rightarrow> u8 list" where
  "image_bytes next count body = head_bytes next count @ to_le_bytes 4 (crc32 (head_bytes next count @ body)) @ body"

lemma head_bytes_length [simp]: "length (head_bytes next count) = 28"
  by (simp add: head_bytes_def LOG_MAGIC_def)

lemma image_crc_eq: "length h = 28 \<Longrightarrow> length c = 4 \<Longrightarrow> image_crc (h @ c @ body) = crc32 (h @ body)"
proof -
  assume "length h = 28" "length c = 4"
  moreover have "(0xffffffff :: u32w) = - 1" by simp
  ultimately show ?thesis unfolding image_crc_def by (simp only: crc32_def crc32_update_def Let_def) simp
qed

lemma jn_encode_bytes:
  assumes "length (jn_records j) = 32" "\<forall>r \<in> set (jn_records j). length (lr_message r) = 80"
  shows "jn_encode j = image_bytes (jn_next_sequence j) (jn_record_count j) (concat (map rec_bytes (jn_records j)))"
proof -
  let ?h = "head_bytes (jn_next_sequence j) (jn_record_count j)" and ?z = "replicate 4 (0 :: u8)" and ?b = "concat (map rec_bytes (jn_records j))"
  have "put_u32 (put_u64 (put_u32 (put_u32 (put_at 0 LOG_MAGIC (replicate IMAGE_BYTES 0)) 8 1) 12 LOG_CAPACITY) 16 (jn_next_sequence j)) 24 (jn_record_count j)
      = (?h @ ?z) @ replicate (112 * length (jn_records j)) 0"
    using assms(1) by (simp add: put_u32_def put_u64_def put_at_def head_bytes_def LOG_MAGIC_def log_sizes replicate_add[symmetric])
  then have "jn_encode j = (let output = (?h @ ?z) @ ?b in put_u32 output 28 (unat (image_crc output)))"
    using jn_put_records_bytes[of "?h @ ?z" 0 "jn_records j"] assms(2) by (simp add: jn_encode_def Let_def)
  also have "\<dots> = image_bytes (jn_next_sequence j) (jn_record_count j) ?b"
    by (simp add: image_crc_eq image_bytes_def put_u32_def put_at_def)
  finally show ?thesis .
qed

lemma concat_length: "\<forall>x \<in> set xs. length x = n \<Longrightarrow> length (concat xs) = n * length xs"
  by (induction xs) auto

text \<open>Slot \<open>k\<close> of an image, and the bytes of a slot from its fields.\<close>

abbreviation chunk :: "u8 list \<Rightarrow> nat \<Rightarrow> u8 list" where
  "chunk input k \<equiv> slice (32 + k * 112) 112 input"

lemma slice_split: "off + (a + b) \<le> length xs \<Longrightarrow> slice off (a + b) xs = slice off a xs @ slice (off + a) b xs"
  by (simp add: slice_def take_add add.commute)

lemma le_of_get_u64: "off + 8 \<le> length xs \<Longrightarrow> to_le_bytes 8 (of_nat (get_u64 xs off) :: u64w) = slice off 8 xs"
  unfolding get_u64_def by (simp add: to_from_le length_slice)

lemma le_of_get_u32: "off + 4 \<le> length xs \<Longrightarrow> to_le_bytes 4 (of_nat (get_u32 xs off) :: u32w) = slice off 4 xs"
  unfolding get_u32_def by (simp add: to_from_le length_slice)

lemma chunk_fields:
  assumes "length c = 112"
  shows "c = slice 0 8 c @ slice 8 8 c @ slice 16 8 c @ [c ! 24, c ! 25] @ slice 26 6 c @ slice 32 80 c"
proof -
  have n: "c ! 24 = hd (drop 24 c)" "c ! 25 = hd (drop 25 c)" using assms by (simp_all add: hd_drop_conv_nth)
  have two: "[c ! 24, c ! 25] = slice 24 2 c" using assms by (simp add: slice_def take_Suc_conv_app_nth numeral_2_eq_2 Cons_nth_drop_Suc[symmetric])
  have "slice 0 (8 + (8 + (8 + (2 + (6 + 80))))) c = slice 0 8 c @ slice 8 8 c @ slice 16 8 c @ slice 24 2 c @ slice 26 6 c @ slice 32 80 c"
    using assms by (simp only: slice_split) simp
  then show ?thesis using assms two by (simp add: slice_def)
qed

lemma chunk_reads:
  assumes "length input = 3616" "k < 32"
  shows "get_u64 input (32 + k * 112) = get_u64 (chunk input k) 0" "get_u64 input (32 + k * 112 + 8) = get_u64 (chunk input k) 8"
    "get_u64 input (32 + k * 112 + 16) = get_u64 (chunk input k) 16" "input ! (32 + k * 112 + 24) = chunk input k ! 24"
    "input ! (32 + k * 112 + 25) = chunk input k ! 25" "slice (32 + k * 112 + 26) 6 input = slice 26 6 (chunk input k)"
    "slice (32 + k * 112 + 32) 80 input = slice 32 80 (chunk input k)"
  using assms by (simp_all add: get_u64_def slice_slice slice_nth)

definition lr_placed :: "nat \<Rightarrow> nat \<Rightarrow> nat \<Rightarrow> log_record \<Rightarrow> bool" where
  "lr_placed next e k r \<longleftrightarrow> lr_ok r \<and> 0 < lr_sequence r \<and> e \<le> lr_sequence r \<and> lr_sequence r < next \<and> (lr_sequence r - 1) mod 32 = k"

lemma rec_bytes_EMPTY: "rec_bytes LOG_EMPTY = replicate 112 0"
proof -
  have z: "to_le_bytes 8 (0 :: u64w) = replicate 8 0" by (simp add: to_le_bytes_def map_replicate_const)
  show ?thesis by (simp add: rec_bytes_def LOG_EMPTY_def z log_sizes) (simp add: numeral_eq_Suc)
qed

lemma all_zero: "\<not> list_ex (\<lambda>byte. byte \<noteq> 0) xs \<longleftrightarrow> xs = replicate (length xs) (0 :: u8)"
  by (induction xs) auto

lemma jn_decode_record_Some:
  assumes l: "length input = 3616" "k < 32" and d: "jn_decode_record input next e k = Inr (Some r)"
  shows "chunk input k = rec_bytes r" "lr_placed next e k r"
proof -
  let ?c = "chunk input k"
  have lc: "length ?c = 112" using l by (simp add: length_slice)
  have D: "get_u64 ?c 0 \<noteq> 0" "e \<le> get_u64 ?c 0" "get_u64 ?c 0 < next" "(get_u64 ?c 0 - 1) mod 32 = k" "?c ! 24 \<le> 7" "?c ! 25 \<noteq> 0" "unat (?c ! 25) \<le> 80"
    "\<not> list_ex (\<lambda>byte. byte \<noteq> 0) (slice 26 6 ?c)" "\<not> list_ex (\<lambda>byte. byte \<noteq> 0) (drop (unat (?c ! 25)) (slice 32 80 ?c))"
    "r = \<lparr>lr_sequence = get_u64 ?c 0, lr_ticks = of_nat (get_u64 ?c 8), lr_pid = of_nat (get_u64 ?c 16), lr_severity = ?c ! 24, lr_length = ?c ! 25, lr_message = slice 32 80 ?c\<rparr>"
    using d unfolding jn_decode_record_def Let_def LOG_HEADER_BYTES_def LOG_RECORD_BYTES_def chunk_reads[OF l] MESSAGE_BYTES_def LOG_CAPACITY_def LOG_EMPTY_def
    by (auto split: if_splits simp: not_less not_le)
  have "slice 26 6 ?c = replicate 6 0" using D(8) lc unfolding all_zero by (simp add: length_slice)
  then show "?c = rec_bytes r" unfolding D(10) using chunk_fields[OF lc] lc by (simp add: rec_bytes_def le_of_get_u64)
  show "lr_placed next e k r" using D lc by (simp add: lr_placed_def lr_ok_def length_slice list_all_iff list_ex_iff)
qed

lemma jn_decode_record_None:
  assumes l: "length input = 3616" "k < 32" and d: "jn_decode_record input next e k = Inr None"
  shows "chunk input k = rec_bytes LOG_EMPTY"
proof -
  have "\<not> list_ex (\<lambda>byte. byte \<noteq> 0) (chunk input k)" using d unfolding jn_decode_record_def Let_def LOG_HEADER_BYTES_def LOG_RECORD_BYTES_def
    by (auto split: if_splits)
  then show ?thesis using l unfolding all_zero by (simp add: length_slice rec_bytes_EMPTY)
qed

lemma rec_bytes_fields:
  assumes "lr_sequence r < 2 ^ 64" "length (lr_message r) = 80"
  shows "get_u64 (rec_bytes r) 0 = lr_sequence r" "get_u64 (rec_bytes r) 8 = unat (lr_ticks r)" "get_u64 (rec_bytes r) 16 = unat (lr_pid r)"
    "rec_bytes r ! 24 = lr_severity r" "rec_bytes r ! 25 = lr_length r" "slice 26 6 (rec_bytes r) = replicate 6 0" "slice 32 80 (rec_bytes r) = lr_message r"
  using assms by (simp_all add: get_u64_def rec_bytes_def slice_def from_to_le_bytes unat_of_nat_small nth_append)

lemma jn_decode_record_bytes:
  assumes l: "length input = 3616" "k < 32" and c: "chunk input k = rec_bytes r"
  shows "r = LOG_EMPTY \<Longrightarrow> jn_decode_record input next e k = Inr None"
    "lr_placed next e k r \<Longrightarrow> next < 2 ^ 64 \<Longrightarrow> jn_decode_record input next e k = Inr (Some r)"
proof -
  assume r: "r = LOG_EMPTY"
  have "get_u64 (rec_bytes LOG_EMPTY) 0 = 0" by (rule trans[OF rec_bytes_fields(1)]) (simp_all add: LOG_EMPTY_def MESSAGE_BYTES_def)
  then show "jn_decode_record input next e k = Inr None"
    unfolding jn_decode_record_def Let_def LOG_HEADER_BYTES_def LOG_RECORD_BYTES_def chunk_reads[OF l] c r
    by (simp add: rec_bytes_EMPTY list_ex_iff)
next
  assume p: "lr_placed next e k r" "next < 2 ^ 64"
  then have m: "lr_sequence r < 2 ^ 64" "length (lr_message r) = 80" by (simp_all add: lr_placed_def lr_ok_def)
  show "jn_decode_record input next e k = Inr (Some r)"
    using p unfolding jn_decode_record_def Let_def LOG_HEADER_BYTES_def LOG_RECORD_BYTES_def MESSAGE_BYTES_def LOG_CAPACITY_def chunk_reads[OF l] c rec_bytes_fields[OF m]
    by (auto simp: lr_placed_def lr_ok_def list_all_iff list_ex_iff not_less)
qed

section \<open>The decoding loop\<close>

definition or_empty :: "log_record option \<Rightarrow> log_record" where
  "or_empty x = (case x of None \<Rightarrow> LOG_EMPTY | Some r \<Rightarrow> r)"

lemma jn_decode_loop_iff:
  assumes "length records = 32" "a \<le> 32" "drop a records = replicate (32 - a) LOG_EMPTY"
  shows "jn_decode_loop input e [a..<32] records count = Inr (records', count') \<longleftrightarrow>
    (\<exists>xs. length xs = 32 - a \<and> (\<forall>i < 32 - a. jn_decode_record input (get_u64 input 16) e (a + i) = Inr (xs ! i))
       \<and> records' = take a records @ map or_empty xs \<and> count' = count + length (filter (\<lambda>x. x \<noteq> None) xs))"
  using assms
proof (induction "32 - a" arbitrary: a records count)
  case 0
  then show ?case by auto
next
  case (Suc n)
  then have a: "a < 32" by simp
  let ?d = "jn_decode_record input (get_u64 input 16) e"
  have u: "[a..<32] = a # [Suc a..<32]" using a by (simp add: upt_conv_Cons)
  have "drop (Suc a) records = tl (drop a records)" by (simp add: drop_Suc tl_drop)
  then have dt: "drop (Suc a) records = replicate (32 - Suc a) LOG_EMPTY" unfolding Suc.prems(3) by simp
  have t: "take (Suc a) (records[a := r]) = take a records @ [r]" "drop (Suc a) (records[a := r]) = replicate (32 - Suc a) LOG_EMPTY" for r
    using Suc.prems a dt by (simp_all add: take_Suc_conv_app_nth)
  have same: "records[a := LOG_EMPTY] = records"
  proof -
    have "records ! a = drop a records ! 0" using Suc.prems(1) a by simp
    then have "records ! a = LOG_EMPTY" using Suc.prems(3) a by simp
    then show ?thesis by (metis list_update_id)
  qed
  have step: "jn_decode_loop input e [a..<32] records count =
      and_then (?d a) (\<lambda>x. jn_decode_loop input e [Suc a..<32] (records[a := or_empty x]) (count + (if x = None then 0 else 1)))"
    by (cases "?d a") (auto simp: u or_empty_def same split: option.splits)
  have IH: "jn_decode_loop input e [Suc a..<32] (records[a := or_empty x]) m = Inr (records', count') \<longleftrightarrow>
    (\<exists>xs. length xs = 32 - Suc a \<and> (\<forall>i < 32 - Suc a. ?d (Suc a + i) = Inr (xs ! i))
       \<and> records' = take a records @ or_empty x # map or_empty xs \<and> count' = m + length (filter (\<lambda>x. x \<noteq> None) xs))" for x m
    using Suc.hyps(1)[of "Suc a" "records[a := or_empty x]" m] Suc.hyps(2) Suc.prems a t by simp
  show ?case (is "_ \<longleftrightarrow> (\<exists>ys. ?P ys)")
  proof
    assume "jn_decode_loop input e [a..<32] records count = Inr (records', count')"
    then obtain x xs where x: "?d a = Inr x" and xs: "length xs = 32 - Suc a" "\<forall>i < 32 - Suc a. ?d (Suc a + i) = Inr (xs ! i)"
      "records' = take a records @ or_empty x # map or_empty xs" "count' = count + (if x = None then 0 else 1) + length (filter (\<lambda>x. x \<noteq> None) xs)"
      unfolding step and_then_Inr IH by blast
    have "?P (x # xs)" using x xs a by (auto simp: nth_Cons split: nat.splits)
    then show "\<exists>ys. ?P ys" ..
  next
    assume "\<exists>ys. ?P ys"
    then obtain ys where ys: "?P ys" ..
    then obtain x xs where c: "ys = x # xs" using a by (cases ys) auto
    have "?d a = Inr x" using ys c a by (metis add_0_right nth_Cons_0 zero_less_diff)
    moreover have "?d (Suc a + i) = Inr (xs ! i)" if "i < 32 - Suc a" for i
    proof -
      have "Suc i < 32 - a" using that by simp
      then show ?thesis using ys c by (metis add_Suc_shift nth_Cons_Suc)
    qed
    moreover have "length xs = 32 - Suc a" "count' = count + (if x = None then 0 else 1) + length (filter (\<lambda>x. x \<noteq> None) xs)"
      "records' = take a records @ or_empty x # map or_empty xs" using ys c by auto
    ultimately show "jn_decode_loop input e [a..<32] records count = Inr (records', count')"
      unfolding step and_then_Inr IH by blast
  qed
qed

lemma jn_decode_all_iff:
  "jn_decode_loop input e [0..<32] (replicate 32 LOG_EMPTY) 0 = Inr (records', count') \<longleftrightarrow>
    (\<exists>xs. length xs = 32 \<and> (\<forall>i < 32. jn_decode_record input (get_u64 input 16) e i = Inr (xs ! i))
       \<and> records' = map or_empty xs \<and> count' = length (filter (\<lambda>x. x \<noteq> None) xs))"
proof -
  have "length (replicate 32 LOG_EMPTY) = 32" "0 \<le> (32 :: nat)" "drop 0 (replicate 32 LOG_EMPTY) = replicate (32 - 0) LOG_EMPTY"
    by (rule length_replicate, rule le0, simp only: drop_0 diff_zero)
  from jn_decode_loop_iff[OF this] show ?thesis by (simp only: diff_zero add_0 take_0 append_Nil)
qed

section \<open>Images and journals\<close>

lemma filter_prefix:
  assumes "length xs = n" "\<forall>k < n. P (xs ! k) \<longleftrightarrow> k < m"
  shows "length (filter P xs) = min m n"
proof -
  have "{i. i < length xs \<and> P (xs ! i)} = {..<min m n}" using assms by auto
  then show ?thesis by (simp add: length_filter_conv_card)
qed

lemma filter_full:
  assumes "length xs = n" "\<forall>k < n. P (xs ! k) \<longrightarrow> k < m" "length (filter P xs) = min m n" "k < n"
  shows "P (xs ! k) \<longleftrightarrow> k < m"
proof -
  have "{i. i < length xs \<and> P (xs ! i)} \<subseteq> {..<min m n}" using assms(1,2) by auto
  moreover have "card {i. i < length xs \<and> P (xs ! i)} = card {..<min m n}" using assms(3) by (simp add: length_filter_conv_card)
  ultimately have "{i. i < length xs \<and> P (xs ! i)} = {..<min m n}" by (rule card_subset_eq[OF finite_lessThan])
  then have "k \<in> {i. i < length xs \<and> P (xs ! i)} \<longleftrightarrow> k \<in> {..<min m n}" by (simp only:)
  then show ?thesis using assms(1,4) by simp
qed

lemma chunks_concat: "length ys = n * m \<Longrightarrow> concat (map (\<lambda>k. slice (k * m) m ys) [0..<n]) = ys"
proof (induction n arbitrary: ys)
  case (Suc n)
  have u: "[0..<Suc n] = 0 # map Suc [0..<n]" by (simp add: map_Suc_upt upt_conv_Cons del: upt_Suc)
  have "slice (Suc k * m) m ys = slice (k * m) m (drop m ys)" for k by (simp add: slice_def add.commute)
  then have "concat (map (\<lambda>k. slice (k * m) m ys) [0..<Suc n]) = slice 0 m ys @ drop m ys"
    unfolding u using Suc.IH[of "drop m ys"] Suc.prems by (simp add: comp_def)
  then show ?case by (simp add: slice_def)
qed simp

lemma slot_placed: "0 < next \<Longrightarrow> k + 1 < next \<Longrightarrow> slot_ok next k r \<longleftrightarrow> lr_placed next (max (next - 32) 1) k r"
  by (auto simp: slot_ok_def lr_placed_def)

lemma placed_before: "lr_placed next e k r \<Longrightarrow> k + 1 < next"
  using mod_less_eq_dividend[of "lr_sequence r - 1" 32] by (auto simp: lr_placed_def)

lemma slot_ok_message: "slot_ok next k r \<Longrightarrow> length (lr_message r) = 80"
  by (auto simp: slot_ok_def lr_ok_def LOG_EMPTY_def MESSAGE_BYTES_def split: if_splits)

lemma slot_ok_sequence: "slot_ok next k r \<Longrightarrow> lr_sequence r \<noteq> 0 \<longleftrightarrow> k + 1 < next"
  by (auto simp: slot_ok_def LOG_EMPTY_def split: if_splits)

lemma jn_inv_facts:
  assumes "jn_inv j"
  shows "\<forall>r \<in> set (jn_records j). length (lr_message r) = 80" "jn_record_count j = min (jn_next_sequence j - 1) 32"
    "jn_encode j = image_bytes (jn_next_sequence j) (jn_record_count j) (concat (map rec_bytes (jn_records j)))"
proof -
  have l: "length (jn_records j) = 32" and n: "0 < jn_next_sequence j" and s: "\<forall>k < 32. slot_ok (jn_next_sequence j) k (jn_records j ! k)"
    using assms by (simp_all add: jn_inv_def)
  show m: "\<forall>r \<in> set (jn_records j). length (lr_message r) = 80" using l s slot_ok_message by (metis in_set_conv_nth)
  show "jn_record_count j = min (jn_next_sequence j - 1) 32"
    unfolding jn_record_count_def using l s slot_ok_sequence by (intro filter_prefix) (auto simp: less_diff_conv)
  show "jn_encode j = image_bytes (jn_next_sequence j) (jn_record_count j) (concat (map rec_bytes (jn_records j)))"
    by (rule jn_encode_bytes[OF l m])
qed

lemma image_reads:
  assumes "length body = 3584" "next < 2 ^ 64" "count < 2 ^ 32"
  shows "length (image_bytes next count body) = 3616" "take 8 (image_bytes next count body) = LOG_MAGIC" "get_u32 (image_bytes next count body) 8 = 1"
    "get_u32 (image_bytes next count body) 12 = 32" "get_u64 (image_bytes next count body) 16 = next" "get_u32 (image_bytes next count body) 24 = count"
    "get_u32 (image_bytes next count body) 28 = unat (image_crc (image_bytes next count body))" "chunk (image_bytes next count body) k = slice (k * 112) 112 body"
proof -
  show "get_u32 (image_bytes next count body) 28 = unat (image_crc (image_bytes next count body))"
    by (simp add: image_bytes_def image_crc_eq) (simp add: get_u32_def slice_def from_to_le_bytes)
  show "chunk (image_bytes next count body) k = slice (k * 112) 112 body" by (simp add: image_bytes_def slice_def)
qed (use assms in \<open>simp_all add: image_bytes_def\<close>,
     use assms in \<open>simp_all add: head_bytes_def LOG_MAGIC_def get_u32_def get_u64_def slice_def from_to_le_bytes unat_of_nat_small\<close>)

lemma jn_decode_encode:
  assumes inv: "jn_inv j"
  shows "jn_decode (jn_encode j) = Inr j"
proof -
  let ?n = "jn_next_sequence j" and ?rs = "jn_records j" and ?c = "jn_record_count j"
  let ?body = "concat (map rec_bytes ?rs)" and ?e = "max (?n - 32) 1" and ?x = "\<lambda>k. if k + 1 < ?n then Some (?rs ! k) else None"
  have l: "length ?rs = 32" and n: "0 < ?n" "?n < 2 ^ 64" and s: "\<And>k. k < 32 \<Longrightarrow> slot_ok ?n k (?rs ! k)" using inv by (simp_all add: jn_inv_def)
  note F = jn_inv_facts[OF inv]
  have rb: "\<forall>x \<in> set (map rec_bytes ?rs). length x = 112" using F(1) by (simp add: rec_bytes_length)
  have bl: "length ?body = 3584" "?c < 2 ^ 32" using concat_length[OF rb] l F(2) by simp_all
  note R = image_reads[OF bl(1) n(2) bl(2), folded F(3)]
  have ch: "chunk (jn_encode j) k = rec_bytes (?rs ! k)" if "k < 32" for k
    using slice_concat[OF rb, of k] that l R(8)[of k] by (simp add: mult.commute)
  have d: "jn_decode_record (jn_encode j) ?n ?e k = Inr (?x k)" if k: "k < 32" for k
    using jn_decode_record_bytes[OF R(1) k ch[OF k]] s[OF k] slot_placed[OF n(1)] n(2) by (auto simp: slot_ok_def)
  have "or_empty (?x k) = ?rs ! k" if "k < 32" for k using s[OF that] by (auto simp: or_empty_def slot_ok_def)
  then have m: "map or_empty (map ?x [0..<32]) = ?rs" using l by (intro nth_equalityI) simp_all
  have cnt: "length (filter (\<lambda>x. x \<noteq> None) (map ?x [0..<32])) = min (?n - 1) 32" by (intro filter_prefix) auto
  have xs: "\<forall>i < 32. jn_decode_record (jn_encode j) ?n ?e i = Inr (map ?x [0..<32] ! i)"
  proof (intro allI impI)
    fix i :: nat assume i: "i < 32"
    then have "map ?x [0..<32] ! i = ?x i" by (subst nth_map) simp_all
    then show "jn_decode_record (jn_encode j) ?n ?e i = Inr (map ?x [0..<32] ! i)" by (simp only: d[OF i])
  qed
  have "jn_decode_loop (jn_encode j) ?e [0..<32] (replicate 32 LOG_EMPTY) 0 = Inr (?rs, ?c)"
    unfolding jn_decode_all_iff R(5)
    by (rule exI[of _ "map ?x [0..<32]"]) (intro conjI xs, simp_all only: m cnt F(2) length_map length_upt diff_zero)
  then show ?thesis using R n F(2) by (simp add: jn_decode_def jn_new_def log_sizes Let_def)
qed

lemma decoded_slot:
  assumes "length input = 3616" "k < 32" "jn_decode_record input n (max (n - 32) 1) k = Inr x" "0 < n" "x \<noteq> None \<longleftrightarrow> k < n - 1"
  shows "chunk input k = rec_bytes (or_empty x)" "slot_ok n k (or_empty x)"
proof -
  show "chunk input k = rec_bytes (or_empty x)"
    using jn_decode_record_Some(1)[OF assms(1,2)] jn_decode_record_None[OF assms(1,2)] assms(3) by (cases x) (auto simp: or_empty_def)
  show "slot_ok n k (or_empty x)"
  proof (cases x)
    case None
    then have "\<not> k + 1 < n" using assms(5) by simp
    then show ?thesis using None by (simp add: or_empty_def slot_ok_def)
  next
    case (Some r)
    then have "lr_placed n (max (n - 32) 1) k r" using jn_decode_record_Some(2)[OF assms(1,2)] assms(3) by simp
    then show ?thesis using slot_placed[OF assms(4)] placed_before Some by (simp add: or_empty_def)
  qed
qed

lemma image_parts: "input = take 28 input @ slice 28 4 input @ drop 32 input"
proof -
  have "drop 28 input = take 4 (drop 28 input) @ drop 4 (drop 28 input)" by (rule append_take_drop_id[symmetric])
  then have "drop 28 input = slice 28 4 input @ drop 32 input" unfolding slice_def drop_drop by simp
  then show ?thesis by (metis append_take_drop_id)
qed

lemma image_crc_slices:
  assumes "length input = 3616"
  shows "image_crc input = crc32 (take 28 input @ drop 32 input)"
proof -
  have "image_crc (take 28 input @ slice 28 4 input @ drop 32 input) = crc32 (take 28 input @ drop 32 input)"
    by (rule image_crc_eq) (simp_all add: length_slice assms)
  then show ?thesis using arg_cong[OF image_parts, of image_crc input] by (simp only:)
qed

lemma image_of_fields:
  assumes "length input = 3616" "take 8 input = LOG_MAGIC" "get_u32 input 8 = 1" "get_u32 input 12 = 32" "unat (image_crc input) = get_u32 input 28"
  shows "input = image_bytes (get_u64 input 16) (get_u32 input 24) (drop 32 input)"
proof -
  let ?h = "head_bytes (get_u64 input 16) (get_u32 input 24)"
  have "slice 0 (8 + (4 + (4 + (8 + 4)))) input = slice 0 8 input @ slice 8 4 input @ slice 12 4 input @ slice 16 8 input @ slice 24 4 input"
    using assms(1) by (simp only: slice_split) simp
  moreover have "slice 0 8 input = LOG_MAGIC" using assms(2) by (simp add: slice_def)
  moreover have "slice 8 4 input = to_le_bytes 4 (1 :: u32w)" "slice 12 4 input = to_le_bytes 4 (32 :: u32w)"
    using assms(1,3,4) le_of_get_u32[of 8 input] le_of_get_u32[of 12 input] by simp_all
  moreover have "slice 16 8 input = to_le_bytes 8 (of_nat (get_u64 input 16) :: u64w)" "slice 24 4 input = to_le_bytes 4 (of_nat (get_u32 input 24) :: u32w)"
    using assms(1) le_of_get_u64[of 16 input] le_of_get_u32[of 24 input] by simp_all
  ultimately have h: "take 28 input = ?h" by (simp add: slice_def head_bytes_def)
  have "image_crc input = crc32 (?h @ drop 32 input)" using image_crc_slices[OF assms(1)] h by (simp only:)
  then have "get_u32 input 28 = unat (crc32 (?h @ drop 32 input))" using assms(5) by simp
  then have "slice 28 4 input = to_le_bytes 4 (crc32 (?h @ drop 32 input))"
    using assms(1) le_of_get_u32[of 28 input] by simp
  then show ?thesis using image_parts[of input] h by (simp add: image_bytes_def)
qed

lemma jn_decode_inv:
  assumes "jn_decode input = Inr j"
  shows "jn_inv j \<and> input = jn_encode j"
proof -
  let ?n = "get_u64 input 16" and ?e = "max (get_u64 input 16 - 32) 1"
  obtain ks zs where ks: "ks = [0..<32 :: nat]" and zs: "zs = replicate 32 LOG_EMPTY" by blast
  have sz: "IMAGE_BYTES = 3616" by (simp add: log_sizes)
  note A = assms[unfolded jn_decode_def sz LOG_CAPACITY_def jn_new_def journal.select_convs, folded ks zs]
  have H: "length input = 3616" "take 8 input = LOG_MAGIC" "get_u32 input 8 = 1" "get_u32 input 12 = 32" "unat (image_crc input) = get_u32 input 28" "0 < ?n"
    using A by (auto simp: Let_def split: if_splits)
  have "?n \<noteq> 0" using H(6) by simp
  note B = A[unfolded Let_def H(1-5), simplified this simp_thms if_False]
  obtain y where y: "jn_decode_loop input ?e ks zs 0 = Inr y"
    and y2: "(case y of (records, count) \<Rightarrow> if count \<noteq> min (?n - 1) 32 \<or> count \<noteq> get_u32 input 24 then Inl DeRecord
        else Inr \<lparr>jn_records = records, jn_next_sequence = ?n\<rparr>) = Inr j"
    using B unfolding and_then_Inr by (elim exE conjE) (rule that)
  obtain recs cnt where p: "y = (recs, cnt)" by (cases y)
  have L: "jn_decode_loop input ?e ks zs 0 = Inr (recs, get_u32 input 24)" and c: "get_u32 input 24 = min (?n - 1) 32"
    and j: "j = \<lparr>jn_records = recs, jn_next_sequence = ?n\<rparr>"
    using y y2 unfolding p prod.case by (simp_all only: split: if_splits) simp_all
  obtain xs where l: "length xs = 32" and d: "\<forall>i < 32. jn_decode_record input ?n ?e i = Inr (xs ! i)" and r: "recs = map or_empty xs"
    and cnt: "length (filter (\<lambda>x. x \<noteq> None) xs) = min (?n - 1) 32"
    using L c unfolding ks zs jn_decode_all_iff by metis
  have "k < ?n - 1" if k: "k < 32" and x: "xs ! k \<noteq> None" for k
  proof -
    obtain y where "xs ! k = Some y" using x by blast
    then have "lr_placed ?n ?e k y" using jn_decode_record_Some(2)[OF H(1) k] d k by metis
    then show ?thesis using placed_before by fastforce
  qed
  then have full: "xs ! k \<noteq> None \<longleftrightarrow> k < ?n - 1" if "k < 32" for k using filter_full[OF l _ cnt that] by blast
  have slots: "chunk input k = rec_bytes (recs ! k)" "slot_ok ?n k (recs ! k)" if k: "k < 32" for k
  proof -
    have "jn_decode_record input ?n ?e k = Inr (xs ! k)" using d k by blast
    from decoded_slot[OF H(1) k this H(6) full[OF k]] show "chunk input k = rec_bytes (recs ! k)" "slot_ok ?n k (recs ! k)" using k l by (simp_all add: r)
  qed
  have rl: "length recs = 32" by (simp add: r l)
  then have inv: "jn_inv j" using slots(2) H(6) get_bounds(2)[of input 16] by (simp add: jn_inv_def j)
  have "drop 32 input = concat (map (\<lambda>k. slice (k * 112) 112 (drop 32 input)) [0..<32])" using H(1) by (intro chunks_concat[symmetric]) simp
  also have "map (\<lambda>k. slice (k * 112) 112 (drop 32 input)) [0..<32] = map (\<lambda>k. rec_bytes (recs ! k)) [0..<32]"
    using slots(1) by (intro map_cong[OF refl]) (simp add: slice_def add.commute)
  also have "\<dots> = map rec_bytes recs" using rl by (intro nth_equalityI) simp_all
  finally have "drop 32 input = concat (map rec_bytes recs)" .
  then have "input = image_bytes ?n (get_u32 input 24) (concat (map rec_bytes recs))" using image_of_fields[OF H(1-5)] by simp
  moreover have "jn_record_count j = get_u32 input 24" using jn_inv_facts(2)[OF inv] c j by simp
  ultimately show ?thesis using inv jn_inv_facts(3)[OF inv] by (simp add: j)
qed

section \<open>The ring as the tail of a list\<close>

text \<open>All accepted appends in order; the journal keeps the last 32.\<close>

type_synonym log_call = "u64w \<times> u64w \<times> u8 \<times> u8 list"

fun jn_run :: "log_call list \<Rightarrow> journal \<Rightarrow> journal" where
  "jn_run [] j = j"
| "jn_run ((ticks, pid, severity, message) # calls) j = jn_run calls (snd (jn_append ticks pid severity message j))"

definition accepted :: "log_call list \<Rightarrow> log_call list" where
  "accepted calls = take (2 ^ 64 - 2) (filter (\<lambda>(ticks, pid, severity, message). severity \<le> 7 \<and> message \<noteq> [] \<and> length message \<le> 80) calls)"

definition lr_call :: "log_record \<Rightarrow> log_call" where
  "lr_call r = (lr_ticks r, lr_pid r, lr_severity r, lr_text r)"

lemma jn_run_append: "jn_run (calls @ calls') j = jn_run calls' (jn_run calls j)"
  by (induction calls j rule: jn_run.induct) simp_all

lemma accepted_snoc:
  "accepted (calls @ [(ticks, pid, severity, message)]) =
     accepted calls @ (if severity \<le> 7 \<and> message \<noteq> [] \<and> length message \<le> 80 \<and> length (accepted calls) < 2 ^ 64 - 2
                       then [(ticks, pid, severity, message)] else [])"
  by (auto simp: accepted_def)

lemma jn_append_accepts:
  "fst (jn_append ticks pid severity message j) \<noteq> None \<longleftrightarrow>
     severity \<le> 7 \<and> message \<noteq> [] \<and> length message \<le> 80 \<and> jn_next_sequence j + 1 < 2 ^ 64"
  by (auto simp: jn_append_def Let_def MESSAGE_BYTES_def not_less not_le split: option.splits)

definition jn_rel :: "journal \<Rightarrow> log_call list \<Rightarrow> bool" where
  "jn_rel j log \<longleftrightarrow> jn_inv j \<and> jn_next_sequence j = length log + 1
     \<and> (\<forall>s. 0 < s \<and> s \<le> length log \<and> length log < s + 32 \<longrightarrow> lr_call (jn_records j ! ((s - 1) mod 32)) = log ! (s - 1))"

lemma jn_append_rel:
  assumes rel: "jn_rel j log" and x: "jn_append ticks pid severity message j = (x, j')"
  shows "jn_rel j' (log @ (if x = None then [] else [(ticks, pid, severity, message)]))"
proof -
  have inv: "jn_inv j" and n: "jn_next_sequence j = length log + 1" using rel by (simp_all add: jn_rel_def)
  show ?thesis
    using x
  proof (cases rule: jn_append_cases)
    case 1
    then show ?thesis using rel by simp
  next
    case (2 r)
    let ?c = "(ticks, pid, severity, message)"
    have c: "lr_call r = ?c" using 2 by (simp add: lr_call_def)
    have l: "length (jn_records j) = 32" using inv by (simp add: jn_inv_def)
    have "lr_call (jn_records j' ! ((s - 1) mod 32)) = (log @ [?c]) ! (s - 1)" if s: "0 < s" "s \<le> length log + 1" "length log + 1 < s + 32" for s
    proof (cases "s = length log + 1")
      case True
      then show ?thesis using 2 n c l by (simp add: nth_append)
    next
      case False
      then have "length log < s - 1 + 32" "s - 1 \<le> length log" "length log \<noteq> s - 1" using s by linarith+
      then have "(s - 1) mod 32 \<noteq> length log mod 32" using mod_window[of "length log" 32 "s - 1"] by metis
      moreover have "s - 1 < length log" using False s by linarith
      ultimately show ?thesis using 2 n l s rel by (simp add: jn_rel_def nth_append)
    qed
    moreover have "jn_inv j'" using inv x by (rule jn_append_inv)
    ultimately show ?thesis using 2 n by (simp add: jn_rel_def)
  qed
qed

lemma jn_run_rel: "jn_rel (jn_run calls jn_new) (accepted calls)"
proof (induction calls rule: rev_induct)
  case Nil
  show ?case using jn_new_inv by (simp add: jn_rel_def accepted_def) (simp add: jn_new_def)
next
  case (snoc call calls)
  obtain ticks pid severity message where c: "call = (ticks, pid, severity, message)" by (cases call)
  let ?j = "jn_run calls jn_new"
  obtain x j' where a: "jn_append ticks pid severity message ?j = (x, j')" by force
  have "x \<noteq> None \<longleftrightarrow> severity \<le> 7 \<and> message \<noteq> [] \<and> length message \<le> 80 \<and> length (accepted calls) < 2 ^ 64 - 2"
    using jn_append_accepts[of ticks pid severity message ?j] a snoc by (auto simp: jn_rel_def)
  then have "accepted (calls @ [call]) = accepted calls @ (if x = None then [] else [(ticks, pid, severity, message)])"
    unfolding c accepted_snoc by simp
  then show ?case using jn_append_rel[OF snoc a] a by (simp add: jn_run_append c)
qed

lemma jn_record_rel:
  assumes "jn_rel j log"
  shows "map_option lr_call (jn_record j s) = (if 0 < s \<and> s \<le> length log \<and> length log < s + 32 then Some (log ! (s - 1)) else None)"
proof -
  let ?k = "(s - 1) mod 32" and ?n = "length log + 1"
  have k: "?k < 32" by simp
  have "jn_inv j" "jn_next_sequence j = ?n" using assms by (simp_all add: jn_rel_def)
  then have "\<forall>k < 32. slot_ok ?n k (jn_records j ! k)" unfolding jn_inv_def by metis
  then have sl: "slot_ok ?n ?k (jn_records j ! ?k)" using k by blast
  show ?thesis
  proof (cases "0 < s \<and> s \<le> length log \<and> length log < s + 32")
    case True
    have "?k \<le> s - 1" by (rule mod_less_eq_dividend)
    then have "?k + 1 < ?n" using True by linarith
    then have q: "0 < lr_sequence (jn_records j ! ?k)" "lr_sequence (jn_records j ! ?k) < ?n" "?n \<le> lr_sequence (jn_records j ! ?k) + 32"
      "(lr_sequence (jn_records j ! ?k) - 1) mod 32 = ?k" using sl by (simp_all add: slot_ok_def)
    have "lr_sequence (jn_records j ! ?k) = s" by (rule slot_unique[OF q(1-3) _ _ _ q(4)]) (use True in simp_all)
    then show ?thesis using True assms by (simp add: jn_record_def LOG_CAPACITY_def jn_rel_def)
  next
    case False
    then have "s = 0 \<or> lr_sequence (jn_records j ! ?k) \<noteq> s" using sl by (auto simp: slot_ok_def LOG_EMPTY_def split: if_splits)
    then show ?thesis using False by (auto simp: jn_record_def LOG_CAPACITY_def)
  qed
qed

section \<open>Damage\<close>

lemma jn_decode_checksum:
  assumes "jn_decode input = Inr j"
  shows "length input = 3616" "image_crc input = from_le_bytes (slice 28 4 input)"
proof -
  have "IMAGE_BYTES = 3616" by (simp add: log_sizes)
  then show "length input = 3616" using assms by (auto simp: jn_decode_def split: if_splits)
  have "unat (image_crc input) = get_u32 input 28" using assms by (auto simp: jn_decode_def split: if_splits)
  then show "image_crc input = from_le_bytes (slice 28 4 input)" by (simp add: get_u32_def word_unat_eq_iff)
qed

lemma jn_checksum_one_byte:
  assumes l: "length input = 3616" "i < 3616" "v \<noteq> input ! i" and c: "image_crc input = from_le_bytes (slice 28 4 input)"
  shows "image_crc (input[i := v]) \<noteq> from_le_bytes (slice 28 4 (input[i := v]))"
proof
  assume c': "image_crc (input[i := v]) = from_le_bytes (slice 28 4 (input[i := v]))"
  have l': "length (input[i := v]) = 3616" using l by simp
  note C = c[unfolded image_crc_slices[OF l(1)]] c'[unfolded image_crc_slices[OF l']]
  let ?b = "take 28 input @ drop 32 input"
  show False
  proof (cases "28 \<le> i \<and> i < 32")
    case True
    then have "take 28 (input[i := v]) = take 28 input" "drop 32 (input[i := v]) = drop 32 input" by simp_all
    then have "(from_le_bytes (slice 28 4 (input[i := v])) :: u32w) = from_le_bytes (slice 28 4 input)" using C by simp
    then have "slice 28 4 (input[i := v]) = slice 28 4 input" by (rule from_le_bytes_inj[rotated 2]) (simp_all add: length_slice l)
    then have "(slice 28 4 input)[i - 28 := v] ! (i - 28) = slice 28 4 input ! (i - 28)" using True l by (simp add: slice_update)
    moreover have "i - 28 < 4" "length (slice 28 4 input) = 4" "28 + (i - 28) = i" using True l by (auto simp: length_slice)
    ultimately have "v = input ! i" using slice_nth[of 28 4 input "i - 28"] l(1) by simp
    then show False using l(3) by simp
  next
    case False
    define k where "k = (if i < 28 then i else i - 4)"
    have k: "k < length ?b" "?b ! k = input ! i" using False l by (auto simp: k_def nth_append)
    have "take 28 (input[i := v]) @ drop 32 (input[i := v]) = ?b[k := v]"
      using False l by (auto simp: k_def list_update_append take_update_swap drop_update_swap list_update_beyond)
    moreover have "slice 28 4 (input[i := v]) = slice 28 4 input" using False l by (auto simp: slice_update)
    ultimately have "crc32 (?b[k := v]) = crc32 ?b" using C by simp
    then show False using crc32_one_byte[OF k(1)] k(2) l(3) by metis
  qed
qed

section \<open>Properties\<close>

text \<open>C11: The journal is the tail of everything logged: after any sequence of calls of append,
  accepted or refused, looking up a sequence number returns exactly the accepted call of that
  number when it is among the last 32 accepted ones, and nothing otherwise. Numbers are given in
  order from 1, and logging stops, without damage, when they are exhausted.\<close>

theorem jn_ring_tail:
  "map_option lr_call (jn_record (jn_run calls jn_new) s) =
     (let log = accepted calls in if 0 < s \<and> s \<le> length log \<and> length log < s + 32 then Some (log ! (s - 1)) else None)"
  using jn_record_rel[OF jn_run_rel] by (simp add: Let_def)

text \<open>C16: Images and journals correspond one to one: decoding accepts an image exactly when it is
  the encoding of a well-formed journal, and then returns that journal; every journal reached by
  appending is well formed. So a journal that is written and read back is unchanged, and nothing
  but an image that encode could have produced is accepted.\<close>

theorem jn_images_exact:
  "(jn_decode input = Inr j \<longleftrightarrow> jn_inv j \<and> input = jn_encode j) \<and> jn_inv (jn_run calls jn_new)"
  using jn_decode_inv[of input j] jn_decode_encode[of j] jn_run_rel[of calls] by (auto simp: jn_rel_def)

text \<open>An image in which any one byte was changed is refused.\<close>

theorem jn_damage_detected:
  assumes "jn_decode input = Inr j" "i < length input" "v \<noteq> input ! i"
  shows "\<exists>e. jn_decode (input[i := v]) = Inl e"
proof (cases "jn_decode (input[i := v])")
  case (Inr j')
  have "i < 3616" using assms(2) jn_decode_checksum(1)[OF assms(1)] by simp
  then show ?thesis
    using jn_checksum_one_byte[OF jn_decode_checksum(1)[OF assms(1)] _ assms(3) jn_decode_checksum(2)[OF assms(1)]] jn_decode_checksum(2)[OF Inr] by blast
qed simp

theorem jn_damage_detected_witness: "\<exists>e. jn_decode ((jn_encode jn_new)[0 := 0]) = Inl e"
proof (rule jn_damage_detected[OF jn_decode_encode[OF jn_new_inv]])
  have t: "take 8 (jn_encode jn_new) = LOG_MAGIC" "length (jn_encode jn_new) = IMAGE_BYTES"
    using jn_decode_encode[OF jn_new_inv] by (auto simp: jn_decode_def split: if_splits)
  then show "0 < length (jn_encode jn_new)" by (simp add: log_sizes)
  show "0 \<noteq> jn_encode jn_new ! 0" using t by (cases "jn_encode jn_new") (auto simp: LOG_MAGIC_def)
qed

end
