(* ===== verification/Spec2Isabelle.thy ===== *)
theory Spec2Isabelle
  imports Process_Table Futex Vm_Space Frame_Allocator Readiness Line_Discipline Ansi_Parser Ipc_System Fsck Structured_Log
begin

text \<open>
  A verification library for MakOS, an operating system written in Rust. The kernel under
  \<open>src/kernel/\<close> drives the hardware and keeps its bookkeeping in small crates without hardware
  access under \<open>src/crates/\<close>. This development models eleven of those crates and proves what the
  kernel relies on.

  \<^bold>\<open>The parts and how they interact.\<close> A system call runs in a process that the process table
  schedules. It blocks on futexes, on readiness instances or on IPC endpoints. It maps memory
  through a region table, whose pages come from the frame allocator, and it talks to the user
  through a terminal, whose output the ANSI parser interprets. Files live on a MAKFS4 volume,
  either on a raw disk or in the data partition of a GPT; the volume checker reads such a disk
  with the same record decoders. The journal keeps the last log records and stores them as one image.

  \<^bold>\<open>Conventions.\<close> A Rust struct is a record, an enum a datatype, and every public operation
  one definition that takes the state and returns the result and the new state. Results are
  sums with the error on the left. Integers of type \<open>u64\<close>, \<open>usize\<close> and \<open>u32\<close> are natural numbers
  and their checked and saturating operations carry the width; values on which the code works
  bit by bit are words. Const generics are lengths of lists. An index that would panic in Rust is
  shown to be in range by the invariant of its component. Closures and devices are function
  arguments; a callback such as the sector reader or the readiness test is a pure function, so
  its answers do not change during one call. A disk is the list of its bytes, or a function that reads a sector.

  \<^bold>\<open>The theories.\<close>
  \<^item> \<open>Prelude\<close>: integer arithmetic, list and option lemmas, and the interfaces as locales:
    bitmaps, bounded queues, and total, partial and guarded transition systems. Each is
    interpreted on the model of the component that provides it.
  \<^item> \<open>Process_Table\<close> (\<open>crates/process-table\<close>): slots, run queue, round-robin choice, exit, wait
    and reap. Shown: the invariant of every reachable table, the order of scheduling, that no
    ready process starves, and that a reaped process is gone.
  \<^item> \<open>Futex\<close> (\<open>crates/futex\<close>): wait, wake, requeue, expiry and cancellation over linked slots.
    Shown: the lists stay well formed, so that the loops return; waking is first in first out;
    a handle that was taken is stale.
  \<^item> \<open>Vm_Space\<close> (\<open>crates/vm-space\<close>): the region table. Shown: regions never overlap, for one
    page size and as long as the unchecked product in \<open>allocate_fixed\<close> does not wrap, which is
    the exact condition; the search for a gap finds the lowest; removal and protection act page
    by page.
  \<^item> \<open>Frame_Allocator\<close> (\<open>crates/frame-allocator\<close>): the frame bitmap. Shown: the free count is
    exact; contiguous allocation takes the lowest run.
  \<^item> \<open>Readiness\<close> (\<open>crates/readiness\<close>): epoll instances and their watches. Shown: closed handles
    are stale; collection into any number of slots reports the first ready watches, delivers
    edge-triggered and one-shot events once and loses none.
  \<^item> \<open>Line_Discipline\<close> and \<open>Ansi_Parser\<close> (\<open>crates/tty\<close>): canonical and raw input, echo, signals,
    output, and the escape-sequence machine. Shown: a typed line is read back, one line per
    read; no operation panics; the parser stays within its buffers.
  \<^item> \<open>Ipc\<close>, \<open>Ipc_Invariant\<close>, \<open>Ipc_Collector\<close>, \<open>Ipc_Safety\<close>, \<open>Ipc_Properties\<close>, \<open>Ipc_System\<close>
    (\<open>crates/ipc\<close>): generation-tagged objects, handles with rights, channels, connections,
    reference counts and the cycle collector. Shown: the invariant of every reachable core,
    that references are typed and never dangle, that rights are never amplified, that objects no process can reach are freed, that a
    failed operation changes nothing, ordered delivery, and the wire format.
  \<^item> \<open>Byte_Records\<close>: byte slices, little-endian fields and CRC-32, with injectivity in one byte.
  \<^item> \<open>Makfs4_Extents\<close>, \<open>Makfs4_Records\<close> (\<open>crates/makfs4\<close>): extent maps, the block bitmap,
    copy-on-write allocation with rollback, the sealed records, the directory index and the
    commit phases. Shown: allocation takes free blocks or changes nothing; records round-trip
    and damage to one byte is found; lookups end and are right; commits happen in order.
  \<^item> \<open>Gpt\<close> (\<open>crates/gpt\<close>): headers, entries and translation. Shown: a partition found lies on the
    device, accesses stay inside it, and a protected disk is never used raw.
  \<^item> \<open>Fsck\<close> (\<open>crates/makfs4-fsck\<close>): the checker over partition table and records. Shown: a disk
    it accepts holds a consistent file system inside the volume that was checked.
  \<^item> \<open>Structured_Log\<close> (\<open>crates/structured-log\<close>): the journal. Shown: the ring is the tail of
    the accepted records; images and well-formed journals correspond one to one.

  \<^bold>\<open>Loops and bounds.\<close> No definition takes fuel. Loops over fixed arrays recurse on the list of
  indices. The loops of the IPC core and of the allocator have termination proofs: a drained
  queue gets shorter, a released object or a newly marked one lowers a count, and an attempt is
  halved. Loops that follow links stored in memory (futex queues, hash buckets) are partial functions, whose value
  \<^const>\<open>None\<close> stands for not returning; that they return on well-formed states is proved. The
  parent walk of the checker is bounded in the source by the number of inodes. In the checker the sums of offsets are
  natural numbers: the partition lies on the disk and the metadata in its first 256 blocks, so
  they lie below \<open>2 ^ 64\<close> for every disk that is at least a megabyte shorter than that.

  \<^bold>\<open>Not modelled.\<close> The kernel itself (\<open>src/kernel/\<close>), the boot loader and the user programs: they
  are device registers, page tables, interrupts, inline assembly, shared statics under locks and
  drawing code, whose meaning is that of the hardware and of concurrent execution, which a
  sequential model of values does not give. So the theorems speak of the crates' operations one
  after the other, as the kernel performs them under its locks. Of the crates,
  \<open>accounts\<close>, \<open>acpi\<close>, \<open>crypto\<close>, \<open>elf64\<close>, \<open>files-model\<close>, \<open>installer\<close>, \<open>package-store\<close> and \<open>pe64\<close>
  could be modelled in the same way and are not; \<open>boot-api\<close> is a data layout. Opening and
  seeking files and printing in the checker are input and output. The ports, the SDK, the
  build and test scripts run on other systems or are third-party sources.
\<close>

end
